(* ===== verification/Prelude.thy ===== *)
theory Prelude
  imports Main "HOL-Library.Word"
begin

text \<open>
  Shared vocabulary of the development: the Rust integer types as words, the result type of
  fallible kernel calls, the search idiom \<open>(0..n).find(p)\<close> that every static table of the
  kernel uses, little-endian byte decoding, and lemma collections the component proofs draw on.
  The kernels are built with \<open>cargo build --release\<close> (\<open>tools/build.sh\<close>), where integer
  overflow wraps, so \<open>u8\<close>..\<open>u64\<close> are fixed-width words; \<open>usize\<close> table indices are
  \<open>nat\<close>.
\<close>

unbundle bit_operations_syntax

subsection \<open>Integer and result types\<close>

type_synonym u8 = "8 word"
type_synonym u16 = "16 word"
type_synonym u32 = "32 word"
type_synonym u64 = "64 word"

text \<open>\<open>Result<T, u64>\<close>: \<open>Inl e\<close> is \<open>Err(e)\<close>, \<open>Inr v\<close> is \<open>Ok(v)\<close>.\<close>

type_synonym 'a res = "u64 + 'a"

text \<open>Collections: constants of the ABI, and preservation facts of the components.\<close>

named_theorems abi_defs \<open>constants shared with user space\<close>
named_theorems keeps \<open>what the operations of a component keep of its invariant\<close>

subsection \<open>The table search idiom\<close>

definition find_below :: "(nat \<Rightarrow> bool) \<Rightarrow> nat \<Rightarrow> nat option" where
  "find_below P n = List.find P [0..<n]"

definition find_between :: "nat \<Rightarrow> nat \<Rightarrow> (nat \<Rightarrow> bool) \<Rightarrow> nat option" where
  "find_between lo hi P = List.find P [lo..<hi]"

text \<open>Byte strings of the source (\<open>b"..."\<close>) as lists of bytes.\<close>

definition bytes_of :: "string \<Rightarrow> u8 list" where
  "bytes_of s = map (\<lambda>c. of_nat (of_char c)) s"

subsection \<open>Checked arithmetic and little-endian decoding\<close>

definition checked_add :: "u64 \<Rightarrow> u64 \<Rightarrow> u64 option" where
  "checked_add a b = (if unat a + unat b < 2 ^ 64 then Some (a + b) else None)"

definition checked_mul :: "u64 \<Rightarrow> u64 \<Rightarrow> u64 option" where
  "checked_mul a b = (if unat a * unat b < 2 ^ 64 then Some (a * b) else None)"

definition le16 :: "u8 \<Rightarrow> u8 \<Rightarrow> u16" where
  "le16 b0 b1 = ucast b0 OR push_bit 8 (ucast b1)"

definition le32 :: "u8 \<Rightarrow> u8 \<Rightarrow> u8 \<Rightarrow> u8 \<Rightarrow> u32" where
  "le32 b0 b1 b2 b3 =
     ucast b0 OR push_bit 8 (ucast b1) OR push_bit 16 (ucast b2) OR push_bit 24 (ucast b3)"

definition to_le16 :: "u16 \<Rightarrow> u8 list" where
  "to_le16 w = [ucast w, ucast (drop_bit 8 w)]"

definition to_le32 :: "u32 \<Rightarrow> u8 list" where
  "to_le32 w = [ucast w, ucast (drop_bit 8 w), ucast (drop_bit 16 w), ucast (drop_bit 24 w)]"

definition to_le64 :: "u64 \<Rightarrow> u8 list" where
  "to_le64 w = map (\<lambda>i. ucast (drop_bit (8 * i) w)) [0..<8]"

fun le_nat :: "u8 list \<Rightarrow> nat" where
  "le_nat [] = 0"
| "le_nat (b # bs) = unat b + 256 * le_nat bs"

definition le64 :: "u8 list \<Rightarrow> u64" where
  "le64 bs = of_nat (le_nat bs)"

subsection \<open>Facts about the search idiom\<close>

lemma find_upt_Some:
  "List.find P [lo..<hi] = Some i \<longleftrightarrow> lo \<le> i \<and> i < hi \<and> P i \<and> (\<forall>j. lo \<le> j \<and> j < i \<longrightarrow> \<not> P j)"
proof
  assume "List.find P [lo..<hi] = Some i"
  then obtain k where k: "k < hi - lo" "P (lo + k)" "i = lo + k" "\<forall>j<k. \<not> P ([lo..<hi] ! j)"
    by (auto simp: find_Some_iff)
  show "lo \<le> i \<and> i < hi \<and> P i \<and> (\<forall>j. lo \<le> j \<and> j < i \<longrightarrow> \<not> P j)"
  proof (intro conjI allI impI)
    fix j assume j: "lo \<le> j \<and> j < i"
    then have "j - lo < k" using k by auto
    then have "\<not> P ([lo..<hi] ! (j - lo))" using k(4) by blast
    moreover have "[lo..<hi] ! (j - lo) = j" using j k by (subst nth_upt) auto
    ultimately show "\<not> P j" by simp
  qed (use k in auto)
next
  assume a: "lo \<le> i \<and> i < hi \<and> P i \<and> (\<forall>j. lo \<le> j \<and> j < i \<longrightarrow> \<not> P j)"
  then show "List.find P [lo..<hi] = Some i"
    by (intro find_Some_iff [THEN iffD2] exI [of _ "i - lo"]) auto
qed

lemma find_upt_None: "List.find P [lo..<hi] = None \<longleftrightarrow> (\<forall>j. lo \<le> j \<and> j < hi \<longrightarrow> \<not> P j)"
  by (auto simp: find_None_iff)

lemma find_below_Some [simp]:
  "find_below P n = Some i \<longleftrightarrow> i < n \<and> P i \<and> (\<forall>j<i. \<not> P j)"
  by (auto simp: find_below_def find_upt_Some)

lemma find_below_None [simp]: "find_below P n = None \<longleftrightarrow> (\<forall>i<n. \<not> P i)"
  by (auto simp: find_below_def find_upt_None)

lemma find_between_Some [simp]:
  "find_between lo hi P = Some i \<longleftrightarrow>
     lo \<le> i \<and> i < hi \<and> P i \<and> (\<forall>j. lo \<le> j \<and> j < i \<longrightarrow> \<not> P j)"
  by (simp add: find_between_def find_upt_Some)

lemma find_between_None [simp]:
  "find_between lo hi P = None \<longleftrightarrow> (\<forall>j. lo \<le> j \<and> j < hi \<longrightarrow> \<not> P j)"
  by (simp add: find_between_def find_upt_None)

lemma find_below_ex: "i < n \<Longrightarrow> P i \<Longrightarrow> \<exists>j. find_below P n = Some j"
  by (cases "find_below P n") auto

lemma find_below_cong:
  "(\<And>i. i < n \<Longrightarrow> P i = Q i) \<Longrightarrow> find_below P n = find_below Q n"
  unfolding find_below_def by (rule find_cong) auto

subsection \<open>Facts about checked arithmetic\<close>

lemma checked_add_SomeD:
  assumes "checked_add a b = Some c" shows "c = a + b" and "unat c = unat a + unat b"
proof -
  from assms have "unat a + unat b < 2 ^ 64" and c: "c = a + b"
    by (auto simp: checked_add_def split: if_splits)
  then show "c = a + b" and "unat c = unat a + unat b"
    by (simp_all add: unat_word_ariths)
qed

lemma checked_mul_SomeD:
  assumes "checked_mul a b = Some c" shows "c = a * b" and "unat c = unat a * unat b"
proof -
  from assms have "unat a * unat b < 2 ^ 64" and c: "c = a * b"
    by (auto simp: checked_mul_def split: if_splits)
  then show "c = a * b" and "unat c = unat a * unat b"
    by (simp_all add: unat_word_ariths)
qed

subsection \<open>Words that hold small numbers\<close>

lemma unat_of_nat_u8: "n < 256 \<Longrightarrow> unat (of_nat n :: u8) = n"
  and unat_of_nat_u16: "n < 65536 \<Longrightarrow> unat (of_nat n :: u16) = n"
  and unat_of_nat_u32: "n < 4294967296 \<Longrightarrow> unat (of_nat n :: u32) = n"
  and unat_of_nat_u64: "n < 18446744073709551616 \<Longrightarrow> unat (of_nat n :: u64) = n"
  by (simp_all add: unat_of_nat)

lemmas unat_of_nat_small = unat_of_nat_u8 unat_of_nat_u16 unat_of_nat_u32 unat_of_nat_u64

lemma unat_ucast_up [simp]:
  "unat (ucast (a :: u8) :: u16) = unat a" "unat (ucast (a :: u8) :: u32) = unat a" "unat (ucast (a :: u8) :: u64) = unat a"
  "unat (ucast (b :: u16) :: u32) = unat b" "unat (ucast (b :: u16) :: u64) = unat b"
  "unat (ucast (c :: u32) :: u64) = unat c"
  by (transfer, simp add: take_bit_take_bit)+

lemma unat_ucast_mod: "unat (ucast (x :: 'a::len word) :: 'b::len word) = unat x mod 2 ^ LENGTH('b)"
  by (simp add: unsigned_ucast_eq take_bit_eq_mod)

lemma sint_neg_u64: "sint (w :: u64) < 0 \<longleftrightarrow> 2 ^ 63 \<le> unat w"
proof -
  have "sint w < 0 \<longleftrightarrow> bit w 63" using bit_last_iff [of w] by simp
  also have "\<dots> \<longleftrightarrow> bit (unat w) 63" by (simp add: bit_unsigned_iff)
  also have "\<dots> \<longleftrightarrow> 2 ^ 63 \<le> unat w"
  proof -
    have "unat w < 2 * 2 ^ 63" using unsigned_less [of w] by simp
    then have "unat w div 2 ^ 63 < 2" by (simp add: div_less_iff_less_mult)
    moreover have "0 < unat w div 2 ^ 63 \<longleftrightarrow> 2 ^ 63 \<le> unat w" by (simp add: div_greater_zero_iff)
    ultimately show ?thesis unfolding bit_iff_odd by (cases "unat w div 2 ^ 63 = 0"; cases "unat w div 2 ^ 63 = 1") auto
  qed
  finally show ?thesis .
qed

lemma sint_neg_pos: "0 < sint (g :: u64) \<Longrightarrow> \<not> 0 < sint (- g)"
proof -
  assume a: "0 < sint g"
  then have "g \<noteq> 0" "unat g < 2 ^ 63" using sint_neg_u64 [of g] by (auto simp: not_le)
  moreover have "unat (- g) + unat g = 2 ^ 64"
  proof -
    have "(unat (- g) + unat g) mod 2 ^ 64 = unat (- g + g)" by (simp only: unat_word_ariths) simp
    then have "2 ^ 64 dvd unat (- g) + unat g" by (simp add: mod_eq_0_iff_dvd)
    moreover have "unat g < 2 ^ 64" using unsigned_less [of g] by simp
    moreover have "unat (- g) < 2 ^ 64" using unsigned_less [of "- g"] by simp
    moreover have "0 < unat g" using \<open>g \<noteq> 0\<close> by (simp add: unat_gt_0)
    ultimately show ?thesis by (auto elim!: dvdE)
  qed
  ultimately have "2 ^ 63 \<le> unat (- g)" by simp
  then show "\<not> 0 < sint (- g)" using sint_neg_u64 [of "- g"] by simp
qed

subsection \<open>C layout of a struct\<close>

text \<open>Offsets and size of a \<^verbatim>\<open>repr(C)\<close> struct from the size and alignment of its fields in order.\<close>

definition align_up :: "nat \<Rightarrow> nat \<Rightarrow> nat" where
  "align_up a n = (n + a - 1) div a * a"

fun repr_c_offsets :: "nat \<Rightarrow> (nat \<times> nat) list \<Rightarrow> nat list \<times> nat" where
  "repr_c_offsets off [] = ([], off)"
| "repr_c_offsets off ((sz, al) # fs) =
     (let o' = align_up al off in case repr_c_offsets (o' + sz) fs of (os, fin) \<Rightarrow> (o' # os, fin))"

definition repr_c_size :: "(nat \<times> nat) list \<Rightarrow> nat" where
  "repr_c_size fs = align_up (fold (max \<circ> snd) fs 1) (snd (repr_c_offsets 0 fs))"

subsection \<open>Structures of bytes and words\<close>

lemma le_nat_append: "le_nat (xs @ [b]) = le_nat xs + 256 ^ length xs * unat b"
  by (induction xs) (simp_all add: algebra_simps)

lemma le_nat_to_le: "le_nat (map (\<lambda>i. ucast (drop_bit (8 * i) (w :: u64)) :: u8) [0..<n]) = unat w mod 256 ^ n"
proof (induction n)
  case (Suc n)
  have "unat (ucast (drop_bit (8 * n) w) :: u8) = unat w div 256 ^ n mod 256"
    unfolding unat_ucast_mod unat_drop_bit_eq by (simp add: drop_bit_eq_div power_mult)
  moreover have "unat w mod 256 ^ Suc n = unat w mod 256 ^ n + 256 ^ n * (unat w div 256 ^ n mod 256)"
    using mod_mult2_eq [of "unat w" "256 ^ n" 256] by (simp add: mult.commute)
  ultimately show ?case using Suc by (simp add: le_nat_append)
qed simp

lemma le64_to_le64 [simp]: "le64 (to_le64 w) = w"
proof -
  have "le_nat (to_le64 w) = unat w mod 256 ^ 8" unfolding to_le64_def by (rule le_nat_to_le)
  also have "\<dots> = unat w" using unsigned_less [of w, where 'a = nat] by simp
  finally show ?thesis by (simp add: le64_def)
qed

lemma length_to_le64 [simp]: "length (to_le64 w) = 8"
  by (simp add: to_le64_def)

lemma and_split: "((y :: u64) AND NOT k) + (y AND k) = y"
proof -
  have "(y AND NOT k) AND (y AND k) = 0" by (rule bit_word_eqI) (simp add: bit_and_iff bit_not_iff)
  then have "(y AND NOT k) + (y AND k) = (y AND NOT k) OR (y AND k)" by (rule disjunctive_add_eq_or)
  also have "\<dots> = y" by (rule bit_word_eqI) (auto simp: bit_and_iff bit_or_iff bit_not_iff)
  finally show ?thesis .
qed

lemma and_not_and: "(a AND NOT k) AND k = (0 :: u64)"
  by (rule bit_word_eqI) (simp add: bit_and_iff bit_not_iff)

lemma u64_less_succ: "(x :: u64) \<noteq> - 1 \<Longrightarrow> x < x + 1"
proof -
  assume a: "x \<noteq> - 1"
  have "unat x \<noteq> 2 ^ 64 - 1"
  proof
    assume "unat x = 2 ^ 64 - 1"
    then have "unat x = unat (- 1 :: u64)" by (simp add: unsigned_minus_1_eq_mask mask_eq_exp_minus_1)
    then have "x = - 1" by (rule unsigned_word_eqI)
    with a show False by simp
  qed
  then have "unat x + 1 < 2 ^ 64" using unsigned_less [of x, where 'a = nat] by simp
  then have "unat (x + 1) = unat x + 1" by (subst unat_add_lem [THEN iffD1]) simp_all
  then show ?thesis by (simp add: word_less_nat_alt)
qed

lemma mod_once: "x < 2 * (n :: nat) \<Longrightarrow> x mod n = (if x < n then x else x - n)"
  by (simp add: mod_if)

end
