(* ===== verification/Abi.thy ===== *)
theory Abi
  imports Prelude
begin

text \<open>
  The constants of \<open>abi/src/lib.rs\<close> the modelled components use: error codes (negative
  values in the two's-complement \<open>u64\<close> space), signal numbers, open/fcntl/mmap flags, mode
  bits and the user address-space layout of the x86\_64 target. Each definition unfolds with
  \<open>abi_defs\<close>.
\<close>

definition PHYS_OFFSET :: u64 where [abi_defs]: "PHYS_OFFSET = 0xFFFF800000000000"
definition BOOT_STACK_PAGES :: u64 where [abi_defs]: "BOOT_STACK_PAGES = 16"
definition SYS_OK :: u64 where [abi_defs]: "SYS_OK = 0"
definition SYS_ERR_NOSYS :: u64 where [abi_defs]: "SYS_ERR_NOSYS = - 1"
definition SYS_ERR_INVAL :: u64 where [abi_defs]: "SYS_ERR_INVAL = - 2"
definition SIGINT :: u32 where [abi_defs]: "SIGINT = 2"
definition SIGQUIT :: u32 where [abi_defs]: "SIGQUIT = 3"
definition SIGKILL :: u32 where [abi_defs]: "SIGKILL = 9"
definition SIGSEGV :: u32 where [abi_defs]: "SIGSEGV = 11"
definition SIGTERM :: u32 where [abi_defs]: "SIGTERM = 15"
definition SIGCHLD :: u32 where [abi_defs]: "SIGCHLD = 17"
definition SIGCONT :: u32 where [abi_defs]: "SIGCONT = 18"
definition SIGSTOP :: u32 where [abi_defs]: "SIGSTOP = 19"
definition SIGTSTP :: u32 where [abi_defs]: "SIGTSTP = 20"
definition SIGTTIN :: u32 where [abi_defs]: "SIGTTIN = 21"
definition SIGTTOU :: u32 where [abi_defs]: "SIGTTOU = 22"
definition SIGWINCH :: u32 where [abi_defs]: "SIGWINCH = 28"
definition NSIG :: u32 where [abi_defs]: "NSIG = 32"
definition SIG_DFL :: u64 where [abi_defs]: "SIG_DFL = 0"
definition SIG_IGN :: u64 where [abi_defs]: "SIG_IGN = 1"
definition SIG_BLOCK :: u64 where [abi_defs]: "SIG_BLOCK = 0"
definition SIG_UNBLOCK :: u64 where [abi_defs]: "SIG_UNBLOCK = 1"
definition SIG_SETMASK :: u64 where [abi_defs]: "SIG_SETMASK = 2"
definition PROT_WRITE :: u64 where [abi_defs]: "PROT_WRITE = 2"
definition PROT_EXEC :: u64 where [abi_defs]: "PROT_EXEC = 4"
definition MAP_SHARED :: u64 where [abi_defs]: "MAP_SHARED = 0x01"
definition MAP_PRIVATE :: u64 where [abi_defs]: "MAP_PRIVATE = 0x02"
definition MAP_FIXED :: u64 where [abi_defs]: "MAP_FIXED = 0x10"
definition MAP_ANONYMOUS :: u64 where [abi_defs]: "MAP_ANONYMOUS = 0x20"
definition WNOHANG :: u64 where [abi_defs]: "WNOHANG = 1"
definition USER_MMAP_BASE :: u64 where [abi_defs]: "USER_MMAP_BASE = 0x10000000"
definition MAX_VMAS :: nat where [abi_defs]: "MAX_VMAS = 8"
definition SYS_ERR_NOENT :: u64 where [abi_defs]: "SYS_ERR_NOENT = - 3"
definition SYS_ERR_BADF :: u64 where [abi_defs]: "SYS_ERR_BADF = - 4"
definition SYS_ERR_NOMEM :: u64 where [abi_defs]: "SYS_ERR_NOMEM = - 6"
definition SYS_ERR_ACCES :: u64 where [abi_defs]: "SYS_ERR_ACCES = - 7"
definition SYS_ERR_EXIST :: u64 where [abi_defs]: "SYS_ERR_EXIST = - 8"
definition SYS_ERR_NOTDIR :: u64 where [abi_defs]: "SYS_ERR_NOTDIR = - 9"
definition SYS_ERR_ISDIR :: u64 where [abi_defs]: "SYS_ERR_ISDIR = - 10"
definition SYS_ERR_NOTEMPTY :: u64 where [abi_defs]: "SYS_ERR_NOTEMPTY = - 11"
definition SYS_ERR_SPIPE :: u64 where [abi_defs]: "SYS_ERR_SPIPE = - 13"
definition SYS_ERR_NOTTY :: u64 where [abi_defs]: "SYS_ERR_NOTTY = - 14"
definition SYS_ERR_MFILE :: u64 where [abi_defs]: "SYS_ERR_MFILE = - 15"
definition SYS_ERR_FAULT :: u64 where [abi_defs]: "SYS_ERR_FAULT = - 16"
definition SYS_ERR_PIPE :: u64 where [abi_defs]: "SYS_ERR_PIPE = - 18"
definition SYS_ERR_NAMETOOLONG :: u64 where [abi_defs]: "SYS_ERR_NAMETOOLONG = - 21"
definition SYS_ERR_NOSPC :: u64 where [abi_defs]: "SYS_ERR_NOSPC = - 24"
definition SYS_ERR_INTR :: u64 where [abi_defs]: "SYS_ERR_INTR = - 25"
definition SYS_ERR_CHILD :: u64 where [abi_defs]: "SYS_ERR_CHILD = - 26"
definition SYS_ERR_PERM :: u64 where [abi_defs]: "SYS_ERR_PERM = - 27"
definition SYS_ERR_SRCH :: u64 where [abi_defs]: "SYS_ERR_SRCH = - 28"
definition SYS_ERR_NOEXEC :: u64 where [abi_defs]: "SYS_ERR_NOEXEC = - 29"
definition USER_HEAP_BASE :: u64 where [abi_defs]: "USER_HEAP_BASE = 0x500000"
definition O_RDONLY :: u64 where [abi_defs]: "O_RDONLY = 0"
definition O_WRONLY :: u64 where [abi_defs]: "O_WRONLY = 1"
definition O_RDWR :: u64 where [abi_defs]: "O_RDWR = 2"
definition O_CREAT :: u64 where [abi_defs]: "O_CREAT = 0x40"
definition O_EXCL :: u64 where [abi_defs]: "O_EXCL = 0x80"
definition O_TRUNC :: u64 where [abi_defs]: "O_TRUNC = 0x200"
definition O_APPEND :: u64 where [abi_defs]: "O_APPEND = 0x400"
definition O_NONBLOCK :: u64 where [abi_defs]: "O_NONBLOCK = 0x800"
definition O_CLOEXEC :: u64 where [abi_defs]: "O_CLOEXEC = 0x80000"
definition F_DUPFD :: u64 where [abi_defs]: "F_DUPFD = 0"
definition F_GETFD :: u64 where [abi_defs]: "F_GETFD = 1"
definition F_SETFD :: u64 where [abi_defs]: "F_SETFD = 2"
definition F_GETFL :: u64 where [abi_defs]: "F_GETFL = 3"
definition F_SETFL :: u64 where [abi_defs]: "F_SETFL = 4"
definition FD_CLOEXEC :: u64 where [abi_defs]: "FD_CLOEXEC = 1"
definition S_IFDIR :: u32 where [abi_defs]: "S_IFDIR = 0x4000"
definition S_IFCHR :: u32 where [abi_defs]: "S_IFCHR = 0x2000"
definition S_IFREG :: u32 where [abi_defs]: "S_IFREG = 0x8000"
definition S_IFIFO :: u32 where [abi_defs]: "S_IFIFO = 0x1000"
definition IOCTL_TCGETS :: u64 where [abi_defs]: "IOCTL_TCGETS = 0x5401"
definition IOCTL_TCSETS :: u64 where [abi_defs]: "IOCTL_TCSETS = 0x5402"
definition IOCTL_TIOCGPGRP :: u64 where [abi_defs]: "IOCTL_TIOCGPGRP = 0x540F"
definition IOCTL_TIOCSPGRP :: u64 where [abi_defs]: "IOCTL_TIOCSPGRP = 0x5410"
definition IOCTL_TIOCGWINSZ :: u64 where [abi_defs]: "IOCTL_TIOCGWINSZ = 0x5413"

lemma abi_error_codes_nonzero:
  "SYS_ERR_NOSYS \<noteq> SYS_OK" "SYS_ERR_INVAL \<noteq> SYS_OK" "SYS_ERR_SRCH \<noteq> SYS_OK"
  "SYS_ERR_NOMEM \<noteq> SYS_OK" "SYS_ERR_BADF \<noteq> SYS_OK" "SYS_ERR_FAULT \<noteq> SYS_OK"
  by (simp_all add: abi_defs)

end
