(* ===== verification/Frame.thy ===== *)
theory Frame
  imports Abi
begin

text \<open>
  The bitmap frame allocator of \<open>kernel-core/src/frame.rs\<close>. Its state is the two static
  bitmaps (\<open>BITMAP\<close>: bit set = free; \<open>OWNED\<close>: bit set = handed out) and the counters of
  \<open>FrameAllocator\<close>. The length of the bitmaps is \<open>BITMAP_BYTES\<close>; the operations read it
  off the state, so the lemmas hold for every bitmap length and witnesses use short ones. Every
  public entry point takes the interrupt lock and runs the \<open>*_unlocked\<close> body; on the single
  core the body is one atomic step.

  Shown: the consistency invariant (no frame both free and owned, the free counter exact) is kept
  by every operation; the exact set of frames free after boot; completeness of the two scans;
  double frees and frees of foreign frames change nothing. The interface other components use is
  the locale \<open>frame_source\<close>.
\<close>

subsection \<open>Constants and state\<close>

definition FRAME_SIZE :: u64 where [abi_defs]: "FRAME_SIZE = 4096"
definition BITMAP_BYTES :: nat where "BITMAP_BYTES = 131072"
definition LOW_MEMORY_CUTOFF :: u64 where [abi_defs]: "LOW_MEMORY_CUTOFF = 0x100000"

record frame_state =
  bitmap :: "u8 list"
  owned :: "u8 list"
  free_frames :: u64
  next_frame :: nat

definition total_bits :: "frame_state \<Rightarrow> nat" where
  "total_bits s = length (bitmap s) * 8"

text \<open>\<open>BITMAP_MAX\<close>: the bytes of physical memory the bitmap covers.\<close>

definition bitmap_max :: "nat \<Rightarrow> u64" where
  "bitmap_max nbytes = of_nat (nbytes * 8) * FRAME_SIZE"

text \<open>\<open>mem::to_usize\<close> on the 64-bit targets: every \<open>u64\<close> is addressable.\<close>

definition to_usize :: "u64 \<Rightarrow> nat option" where
  "to_usize v = Some (unat v)"

text \<open>Bit \<open>idx\<close> of a bitmap: mask \<open>1u8 << (idx % 8)\<close> in byte \<open>idx / 8\<close>.\<close>

definition bm_mask :: "nat \<Rightarrow> u8" where
  "bm_mask idx = push_bit (idx mod 8) 1"

definition bm_test :: "u8 list \<Rightarrow> nat \<Rightarrow> bool" where
  "bm_test bm idx \<longleftrightarrow> (bm ! (idx div 8)) AND bm_mask idx \<noteq> 0"

definition bm_set :: "u8 list \<Rightarrow> nat \<Rightarrow> u8 list" where
  "bm_set bm idx = bm[idx div 8 := (bm ! (idx div 8)) OR bm_mask idx]"

definition bm_clear :: "u8 list \<Rightarrow> nat \<Rightarrow> u8 list" where
  "bm_clear bm idx = bm[idx div 8 := (bm ! (idx div 8)) AND NOT (bm_mask idx)]"

subsection \<open>Boot-time construction\<close>

definition range_first :: "u64 \<Rightarrow> nat" where
  "range_first begin' = unat (max begin' LOW_MEMORY_CUTOFF div FRAME_SIZE)"

definition range_last :: "nat \<Rightarrow> u64 \<Rightarrow> nat" where
  "range_last nbytes end' = unat ((min end' (bitmap_max nbytes) + FRAME_SIZE - 1) div FRAME_SIZE)"

definition mark_range :: "u8 list \<Rightarrow> u64 \<Rightarrow> u64 \<Rightarrow> bool \<Rightarrow> u8 list" where
  "mark_range bm begin' end' free =
     fold (\<lambda>idx b. if free then bm_set b idx else bm_clear b idx)
       [range_first begin' ..< min (range_last (length bm) end') (length bm * 8)] bm"

text \<open>The fields of an EFI memory descriptor and of \<open>BootInfo\<close> that the allocator reads;
  \<open>bi_addr\<close> is the address of the \<open>BootInfo\<close> struct itself.\<close>

record mem_desc =
  md_type :: u32
  md_physical_start :: u64
  md_number_of_pages :: u64

record boot_info =
  memmap :: "mem_desc list"
  memmap_ptr :: u64
  memmap_desc_size :: u64
  kernel_base :: u64
  stack_top :: u64
  boot_pml4 :: u64
  boot_tables_pages :: u64
  bi_addr :: u64

definition usable_type :: "u32 \<Rightarrow> bool" where
  "usable_type t \<longleftrightarrow> t \<in> {1, 2, 3, 4, 7, 15}"

definition desc_end :: "nat \<Rightarrow> mem_desc \<Rightarrow> u64" where
  "desc_end nbytes d = min (md_physical_start d + md_number_of_pages d * FRAME_SIZE) (bitmap_max nbytes)"

definition mark_desc :: "u8 list \<Rightarrow> mem_desc \<Rightarrow> u8 list" where
  "mark_desc bm d =
     (if usable_type (md_type d) then
        let start = max (md_physical_start d) LOW_MEMORY_CUTOFF; fin = desc_end (length bm) d in
        if start < fin then mark_range bm start fin True else bm
      else bm)"

text \<open>The holes punched for what must stay alive: kernel image, boot stack, the \<open>BootInfo\<close> page,
  the memory-map buffer, the bootloader's page tables, the caller's reservations.\<close>

definition reserved_ranges :: "boot_info \<Rightarrow> u64 \<Rightarrow> (u64 \<times> u64) list \<Rightarrow> (u64 \<times> u64) list" where
  "reserved_ranges bi kernel_end extra =
     (let bi_page = bi_addr bi AND NOT (FRAME_SIZE - 1) in
      [(kernel_base bi, kernel_end),
       (stack_top bi - BOOT_STACK_PAGES * FRAME_SIZE, stack_top bi),
       (bi_page, bi_page + FRAME_SIZE),
       (memmap_ptr bi, memmap_ptr bi + of_nat (length (memmap bi)) * memmap_desc_size bi),
       (boot_pml4 bi, boot_pml4 bi + boot_tables_pages bi * FRAME_SIZE)] @ extra)"

definition count_ones :: "u8 \<Rightarrow> u64" where
  "count_ones b = of_nat (length (filter (\<lambda>i. bit b i) [0..<8]))"

definition frame_new :: "nat \<Rightarrow> boot_info \<Rightarrow> u64 \<Rightarrow> (u64 \<times> u64) list \<Rightarrow> frame_state" where
  "frame_new nbytes bi kernel_end extra =
     (let bm0 = replicate nbytes 0;
          bm1 = fold (\<lambda>d bm. mark_desc bm d) (memmap bi) bm0;
          bm2 = fold (\<lambda>(b, e) bm. mark_range bm b e False) (reserved_ranges bi kernel_end extra) bm1
      in \<lparr>bitmap = bm2, owned = replicate nbytes 0,
          free_frames = fold (\<lambda>b n. n + count_ones b) bm2 0, next_frame = 0\<rparr>)"

definition frame_init :: "boot_info \<Rightarrow> u64 \<Rightarrow> (u64 \<times> u64) list \<Rightarrow> frame_state" where
  "frame_init = frame_new BITMAP_BYTES"

subsection \<open>Run-time operations\<close>

text \<open>Take frame \<open>idx\<close> out of the free bitmap and into the owned one.\<close>

definition claim_frame :: "nat \<Rightarrow> frame_state \<Rightarrow> frame_state" where
  "claim_frame idx s = s\<lparr>bitmap := bm_clear (bitmap s) idx, owned := bm_set (owned s) idx\<rparr>"

definition frame_alloc :: "frame_state \<Rightarrow> u64 option \<times> frame_state" where
  "frame_alloc s =
     (let total = total_bits s in
      case find_below (\<lambda>off. bm_test (bitmap s) ((next_frame s + off) mod total)) total of
        None \<Rightarrow> (None, s)
      | Some off \<Rightarrow>
          let idx = (next_frame s + off) mod total in
          (Some (of_nat idx * FRAME_SIZE),
           (claim_frame idx s)\<lparr>free_frames := free_frames s - 1, next_frame := (idx + 1) mod total\<rparr>))"

definition frame_free :: "u64 \<Rightarrow> frame_state \<Rightarrow> frame_state" where
  "frame_free phys s =
     (case to_usize (phys div FRAME_SIZE) of
        None \<Rightarrow> s
      | Some idx \<Rightarrow>
          if idx \<ge> total_bits s then s
          else if \<not> bm_test (owned s) idx then s
          else s\<lparr>owned := bm_clear (owned s) idx, bitmap := bm_set (bitmap s) idx,
                 free_frames := free_frames s + 1\<rparr>)"

definition frame_reclaim :: "u64 \<Rightarrow> frame_state \<Rightarrow> frame_state" where
  "frame_reclaim phys s =
     (case to_usize (phys div FRAME_SIZE) of
        None \<Rightarrow> s
      | Some idx \<Rightarrow>
          if idx \<ge> total_bits s then s
          else if bm_test (bitmap s) idx \<or> bm_test (owned s) idx then s
          else s\<lparr>bitmap := bm_set (bitmap s) idx, free_frames := free_frames s + 1\<rparr>)"

text \<open>The scan loop of \<open>scan_run\<close>; \<open>run\<close> and \<open>first\<close> are its local variables.\<close>

function scan_loop ::
  "nat \<Rightarrow> nat \<Rightarrow> nat \<Rightarrow> nat \<Rightarrow> nat \<Rightarrow> frame_state \<Rightarrow> u64 option \<times> frame_state" where
  "scan_loop idx end' frames run first s =
     (if idx < end' then
        if bm_test (bitmap s) idx then
          let first' = (if run = 0 then idx else first); run' = run + 1 in
          if run' = frames then
            (Some (of_nat first' * FRAME_SIZE),
             (fold claim_frame [first'..<first' + frames] s)
               \<lparr>free_frames := free_frames s - of_nat frames,
                next_frame := (first' + frames) mod total_bits s\<rparr>)
          else scan_loop (idx + 1) end' frames run' first' s
        else scan_loop (idx + 1) end' frames 0 first s
      else (None, s))"
  by pat_completeness auto
termination
  by (relation "measure (\<lambda>(idx, end', _). end' - idx)") auto

declare scan_loop.simps [simp del]

definition scan_run :: "nat \<Rightarrow> nat \<Rightarrow> nat \<Rightarrow> frame_state \<Rightarrow> u64 option \<times> frame_state" where
  "scan_run begin' end' frames s = scan_loop begin' end' frames 0 0 s"

definition frame_alloc_contiguous :: "nat \<Rightarrow> frame_state \<Rightarrow> u64 option \<times> frame_state" where
  "frame_alloc_contiguous frames s =
     (let total = total_bits s in
      if frames = 0 \<or> frames > total then (None, s)
      else
        let start = next_frame s mod total in
        case scan_run start total frames s of
          (Some p, s') \<Rightarrow> (Some p, s')
        | (None, s') \<Rightarrow>
            if start > 0 then
              case scan_run 0 start frames s' of
                (Some p, s'') \<Rightarrow> (Some p, s'')
              | (None, s'') \<Rightarrow> (None, s'')
            else (None, s'))"

definition usable_mib :: "frame_state \<Rightarrow> u64" where
  "usable_mib s = free_frames s * 4 div 1024"

subsection \<open>The abstract view and the invariant\<close>

definition free_set :: "frame_state \<Rightarrow> nat set" where
  "free_set s = {i. i < total_bits s \<and> bm_test (bitmap s) i}"

definition owned_set :: "frame_state \<Rightarrow> nat set" where
  "owned_set s = {i. i < total_bits s \<and> bm_test (owned s) i}"

definition frame_inv :: "frame_state \<Rightarrow> bool" where
  "frame_inv s \<longleftrightarrow> length (owned s) = length (bitmap s) \<and> length (bitmap s) \<le> BITMAP_BYTES
     \<and> free_set s \<inter> owned_set s = {} \<and> free_frames s = of_nat (card (free_set s))"

text \<open>The frame number behind a physical address, and the address of a frame.\<close>

abbreviation frame_of :: "u64 \<Rightarrow> nat" where
  "frame_of p \<equiv> unat (p div FRAME_SIZE)"

abbreviation addr_of :: "nat \<Rightarrow> u64" where
  "addr_of i \<equiv> of_nat i * FRAME_SIZE"


subsection \<open>Bits of a bitmap\<close>

lemma bm_test_bit: "bm_test bm j \<longleftrightarrow> bit (bm ! (j div 8)) (j mod 8)"
  by (simp add: bm_test_def bm_mask_def push_bit_of_1 and_exp_eq_0_iff_not_bit)

lemma length_bm_set [simp]: "length (bm_set bm i) = length bm"
  by (simp add: bm_set_def)

lemma length_bm_clear [simp]: "length (bm_clear bm i) = length bm"
  by (simp add: bm_clear_def)

lemma div_mod8_eq: "(i::nat) div 8 = j div 8 \<Longrightarrow> i mod 8 = j mod 8 \<Longrightarrow> i = j"
  by (metis div_mult_mod_eq)

lemma bit_mask8: "bit ((2 :: u8) ^ (i mod 8)) (j mod 8) \<longleftrightarrow> i mod 8 = j mod 8"
  by (auto simp: bit_simps)

lemma bm_test_set [simp]:
  assumes "i < length bm * 8"
  shows "bm_test (bm_set bm i) j \<longleftrightarrow> j = i \<or> bm_test bm j"
proof -
  from assms have "i div 8 < length bm" by auto
  then show ?thesis
    by (auto simp: bm_test_bit bm_set_def bm_mask_def nth_list_update bit_or_iff bit_mask8
        dest: div_mod8_eq)
qed

lemma bm_test_clear [simp]:
  assumes "i < length bm * 8"
  shows "bm_test (bm_clear bm i) j \<longleftrightarrow> j \<noteq> i \<and> bm_test bm j"
proof -
  from assms have "i div 8 < length bm" by auto
  then show ?thesis
    by (auto simp: bm_test_bit bm_clear_def bm_mask_def nth_list_update bit_and_iff bit_not_iff
        bit_mask8 dest: div_mod8_eq)
qed

lemma bm_test_replicate0: "i < n * 8 \<Longrightarrow> \<not> bm_test (replicate n 0) i"
  by (subgoal_tac "i div 8 < n") (auto simp: bm_test_bit)

subsection \<open>Marking ranges\<close>

lemma fold_bm_set:
  assumes "hi \<le> length bm * 8"
  shows "length (fold (\<lambda>i b. bm_set b i) [lo..<hi] bm) = length bm \<and>
    (\<forall>j. bm_test (fold (\<lambda>i b. bm_set b i) [lo..<hi] bm) j \<longleftrightarrow> lo \<le> j \<and> j < hi \<or> bm_test bm j)"
  using assms
proof (induction hi)
  case (Suc hi)
  then show ?case
    by (cases "lo \<le> hi") (auto simp: less_Suc_eq)
qed simp

lemma fold_bm_clear:
  assumes "hi \<le> length bm * 8"
  shows "length (fold (\<lambda>i b. bm_clear b i) [lo..<hi] bm) = length bm \<and>
    (\<forall>j. bm_test (fold (\<lambda>i b. bm_clear b i) [lo..<hi] bm) j \<longleftrightarrow> \<not> (lo \<le> j \<and> j < hi) \<and> bm_test bm j)"
  using assms
proof (induction hi)
  case (Suc hi)
  then show ?case
    by (cases "lo \<le> hi") (auto simp: less_Suc_eq)
qed simp

definition in_range :: "nat \<Rightarrow> u64 \<Rightarrow> u64 \<Rightarrow> nat \<Rightarrow> bool" where
  "in_range nbytes b e j \<longleftrightarrow> range_first b \<le> j \<and> j < range_last nbytes e \<and> j < nbytes * 8"

lemma length_mark_range [simp]: "length (mark_range bm b e f) = length bm"
  by (cases f) (simp_all add: mark_range_def fold_bm_set [THEN conjunct1] fold_bm_clear [THEN conjunct1])

lemma bm_test_mark_range:
  "bm_test (mark_range bm b e f) j \<longleftrightarrow>
     (if in_range (length bm) b e j then f else bm_test bm j)"
  by (cases f) (auto simp: mark_range_def in_range_def fold_bm_set [THEN conjunct2, rule_format]
      fold_bm_clear [THEN conjunct2, rule_format])

text \<open>Which frames a descriptor makes free.\<close>

definition desc_covers :: "nat \<Rightarrow> mem_desc \<Rightarrow> nat \<Rightarrow> bool" where
  "desc_covers nbytes d j \<longleftrightarrow> usable_type (md_type d)
     \<and> max (md_physical_start d) LOW_MEMORY_CUTOFF < desc_end nbytes d
     \<and> in_range nbytes (max (md_physical_start d) LOW_MEMORY_CUTOFF) (desc_end nbytes d) j"

lemma length_mark_desc [simp]: "length (mark_desc bm d) = length bm"
  by (simp add: mark_desc_def Let_def)

lemma bm_test_mark_desc:
  "bm_test (mark_desc bm d) j \<longleftrightarrow> desc_covers (length bm) d j \<or> bm_test bm j"
  by (auto simp: mark_desc_def desc_covers_def Let_def bm_test_mark_range)

lemma fold_mark_desc:
  "length (fold (\<lambda>d bm. mark_desc bm d) ds bm) = length bm \<and>
   (bm_test (fold (\<lambda>d bm. mark_desc bm d) ds bm) j \<longleftrightarrow>
     (\<exists>d\<in>set ds. desc_covers (length bm) d j) \<or> bm_test bm j)"
  by (induction ds arbitrary: bm) (auto simp: bm_test_mark_desc)

lemma fold_mark_holes:
  "length (fold (\<lambda>(b, e) bm. mark_range bm b e False) rs bm) = length bm \<and>
   (bm_test (fold (\<lambda>(b, e) bm. mark_range bm b e False) rs bm) j \<longleftrightarrow>
     bm_test bm j \<and> (\<forall>(b, e)\<in>set rs. \<not> in_range (length bm) b e j))"
  by (induction rs arbitrary: bm) (auto simp: bm_test_mark_range split: if_splits)

subsection \<open>Counting free frames\<close>

definition bm_bits :: "u8 list \<Rightarrow> nat set" where
  "bm_bits bm = {i. i < length bm * 8 \<and> bm_test bm i}"

lemma finite_bm_bits [simp]: "finite (bm_bits bm)"
  by (simp add: bm_bits_def)

lemma bm_bits_snoc:
  "bm_bits (bm @ [b]) = bm_bits bm \<union> (+) (length bm * 8) ` {k. k < 8 \<and> bit b k}"
proof -
  have "i \<in> bm_bits (bm @ [b]) \<longleftrightarrow>
      i \<in> bm_bits bm \<or> i \<in> (+) (length bm * 8) ` {k. k < 8 \<and> bit b k}" for i
  proof (cases "i < length bm * 8")
    case True
    then have "i div 8 < length bm" by auto
    with True show ?thesis by (auto simp: bm_bits_def bm_test_bit nth_append)
  next
    case False
    show ?thesis
    proof (cases "i < length bm * 8 + 8")
      case True
      define k where "k = i - length bm * 8"
      have k: "i = length bm * 8 + k" "k < 8" using False True by (auto simp: k_def)
      then have "i div 8 = length bm" "i mod 8 = k" by auto
      with k False show ?thesis by (auto simp: bm_bits_def bm_test_bit)
    qed (use False in \<open>auto simp: bm_bits_def\<close>)
  qed
  then show ?thesis by blast
qed

lemma sum_count_ones: "fold (\<lambda>b n. n + count_ones b) bm 0 = of_nat (card (bm_bits bm))"
proof (induction bm rule: rev_induct)
  case Nil
  then show ?case by (simp add: bm_bits_def)
next
  case (snoc b bm)
  have "card {k. k < 8 \<and> bit b k} = length (filter (bit b) [0..<8])"
    using distinct_card [of "filter (bit b) [0..<8]"]
    by (simp add: Collect_conj_eq conj_commute)
  moreover have "card (bm_bits (bm @ [b])) = card (bm_bits bm) + card {k. k < 8 \<and> bit b k}"
    unfolding bm_bits_snoc
    by (subst card_Un_disjoint) (auto simp: card_image bm_bits_def)
  ultimately show ?case using snoc.IH by (simp add: count_ones_def)
qed

subsection \<open>Arithmetic of frame addresses\<close>

lemma frame_of_addr:
  assumes "i < BITMAP_BYTES * 8" shows "frame_of (addr_of i) = i"
proof -
  have i: "i < 1048576" using assms by (simp add: BITMAP_BYTES_def)
  then have "unat (addr_of i) = i * 4096"
    by (simp add: unat_word_ariths unat_of_nat FRAME_SIZE_def)
  then show ?thesis by (simp add: unat_div FRAME_SIZE_def)
qed

lemma unat_bitmap_max: "n \<le> BITMAP_BYTES \<Longrightarrow> unat (bitmap_max n) = n * 8 * 4096"
  by (simp add: bitmap_max_def FRAME_SIZE_def BITMAP_BYTES_def unat_word_ariths unat_of_nat)

lemma range_first_ge: "256 \<le> range_first b"
proof -
  have "unat (LOW_MEMORY_CUTOFF) \<le> unat (max b LOW_MEMORY_CUTOFF)"
    by (simp add: word_le_nat_alt [symmetric])
  then show ?thesis
    by (simp add: range_first_def unat_div FRAME_SIZE_def LOW_MEMORY_CUTOFF_def)
qed

lemma unat_range_last:
  assumes "n \<le> BITMAP_BYTES"
  shows "range_last n e = (min (unat e) (n * 8 * 4096) + 4095) div 4096"
proof -
  have m: "unat (min e (bitmap_max n)) = min (unat e) (n * 8 * 4096)"
    using unat_bitmap_max [OF assms] by (auto simp: min_def word_le_nat_alt)
  have "unat (min e (bitmap_max n) + 4096 - 1) = unat (min e (bitmap_max n)) + 4095"
  proof -
    have eq: "min e (bitmap_max n) + 4096 - 1 = min e (bitmap_max n) + 4095" by simp
    have "unat (min e (bitmap_max n)) \<le> 4294967296"
      using m assms by (simp add: BITMAP_BYTES_def)
    then show ?thesis unfolding eq by (simp add: unat_word_ariths)
  qed
  with m show ?thesis by (simp add: range_last_def unat_div FRAME_SIZE_def)
qed

text \<open>Every byte of a range at or above the low-memory cutoff lies in a frame of the range.\<close>

lemma in_range_byte:
  assumes n: "n \<le> BITMAP_BYTES" and "b \<le> a" "a < e" "256 \<le> frame_of a" "frame_of a < n * 8"
  shows "in_range n b e (frame_of a)"
proof -
  have a: "frame_of a = unat a div 4096" by (simp add: unat_div FRAME_SIZE_def)
  then have low: "1048576 \<le> unat a" and high: "unat a < n * 8 * 4096"
    using assms(4,5) by auto
  have "max b LOW_MEMORY_CUTOFF \<le> a"
    using assms(2) low by (auto simp: max_def word_le_nat_alt LOW_MEMORY_CUTOFF_def)
  then have "range_first b \<le> frame_of a"
    by (simp add: range_first_def unat_div FRAME_SIZE_def word_le_nat_alt div_le_mono)
  moreover have "unat a < unat e" using assms(3) by (simp add: word_less_nat_alt)
  with high have "frame_of a < range_last n e"
    unfolding unat_range_last [OF n] a by (auto simp: min_def div_less_iff_less_mult)
  ultimately show ?thesis using assms(5) by (simp add: in_range_def)
qed

subsection \<open>The state after boot\<close>

lemma free_set_bits: "free_set s = bm_bits (bitmap s)"
  by (simp add: free_set_def bm_bits_def total_bits_def)

lemma free_set_new:
  "free_set (frame_new n bi ke extra) =
     {j. j < n * 8 \<and> (\<exists>d\<in>set (memmap bi). desc_covers n d j)
       \<and> (\<forall>(b, e)\<in>set (reserved_ranges bi ke extra). \<not> in_range n b e j)}"
  by (auto simp: frame_new_def Let_def free_set_def total_bits_def fold_mark_holes
      fold_mark_desc bm_test_replicate0 split: prod.splits)

lemma total_bits_new: "total_bits (frame_new n bi ke extra) = n * 8"
  by (simp add: frame_new_def Let_def total_bits_def fold_mark_holes fold_mark_desc)

lemma owned_set_new: "owned_set (frame_new n bi ke extra) = {}"
  by (auto simp: owned_set_def total_bits_new) (simp add: frame_new_def Let_def bm_test_replicate0)

lemma frame_inv_new [keeps]:
  assumes "n \<le> BITMAP_BYTES" shows "frame_inv (frame_new n bi ke extra)"
  using assms
  by (simp add: frame_inv_def owned_set_new free_set_bits)
     (simp add: frame_new_def Let_def fold_mark_holes fold_mark_desc sum_count_ones)

lemma free_set_new_high: "j \<in> free_set (frame_new n bi ke extra) \<Longrightarrow> 256 \<le> j"
  by (auto simp: free_set_new desc_covers_def in_range_def intro: order_trans [OF range_first_ge])

lemma reserved_not_free:
  assumes "n \<le> BITMAP_BYTES" "(b, e) \<in> set (reserved_ranges bi ke extra)" "b \<le> a" "a < e"
  shows "frame_of a \<notin> free_set (frame_new n bi ke extra)"
proof
  assume f: "frame_of a \<in> free_set (frame_new n bi ke extra)"
  then have "256 \<le> frame_of a" "frame_of a < n * 8"
    using free_set_new_high free_set_new by auto
  then have "in_range n b e (frame_of a)"
    using in_range_byte assms by blast
  then show False using f assms(2) by (auto simp: free_set_new)
qed

subsection \<open>Claiming frames\<close>

lemma total_bits_claim [simp]: "total_bits (claim_frame i s) = total_bits s"
  by (simp add: claim_frame_def total_bits_def)

lemma length_claim [simp]:
  "length (bitmap (claim_frame i s)) = length (bitmap s)"
  "length (owned (claim_frame i s)) = length (owned s)"
  by (simp_all add: claim_frame_def)

lemma claim_frame_sets:
  assumes "i < total_bits s" "length (owned s) = length (bitmap s)"
  shows "free_set (claim_frame i s) = free_set s - {i}"
    and "owned_set (claim_frame i s) = insert i (owned_set s)"
  using assms by (auto simp: free_set_def owned_set_def claim_frame_def total_bits_def)

lemma fold_claim:
  assumes "hi \<le> total_bits s" "length (owned s) = length (bitmap s)"
  shows "free_set (fold claim_frame [lo..<hi] s) = free_set s - {lo..<hi}
    \<and> owned_set (fold claim_frame [lo..<hi] s) = owned_set s \<union> {lo..<hi}
    \<and> total_bits (fold claim_frame [lo..<hi] s) = total_bits s
    \<and> length (owned (fold claim_frame [lo..<hi] s)) = length (owned s)
    \<and> length (bitmap (fold claim_frame [lo..<hi] s)) = length (bitmap s)"
  using assms
proof (induction hi)
  case (Suc hi)
  then show ?case
    by (cases "lo \<le> hi") (auto simp: claim_frame_sets)
qed simp

lemma sets_update_counters [simp]:
  "free_set (s\<lparr>free_frames := c, next_frame := m\<rparr>) = free_set s"
  "owned_set (s\<lparr>free_frames := c, next_frame := m\<rparr>) = owned_set s"
  by (simp_all add: free_set_def owned_set_def total_bits_def)

lemma finite_free_set [simp]: "finite (free_set s)"
  by (simp add: free_set_def)

text \<open>Claiming a run of free frames and charging the counter keeps the invariant.\<close>

lemma frame_inv_claim_run:
  assumes inv: "frame_inv s" and sub: "{lo..<lo + k} \<subseteq> free_set s"
  shows "frame_inv ((fold claim_frame [lo..<lo + k] s)
    \<lparr>free_frames := free_frames s - of_nat k, next_frame := m\<rparr>)"
proof -
  have hi: "lo + k \<le> total_bits s \<or> k = 0"
    using sub by (cases k) (auto simp: free_set_def subset_eq Suc_le_eq)
  show ?thesis
  proof (cases "k = 0")
    case True
    then show ?thesis using inv by (simp add: frame_inv_def)
  next
    case False
    with hi have hi: "lo + k \<le> total_bits s" by simp
    have len: "length (owned s) = length (bitmap s)" using inv by (simp add: frame_inv_def)
    note f = fold_claim [OF hi len, of lo]
    have "card (free_set s - {lo..<lo + k}) = card (free_set s) - k"
      using sub by (subst card_Diff_subset) auto
    moreover have "k \<le> card (free_set s)"
      using card_mono [OF finite_free_set sub] by simp
    ultimately have "of_nat (card (free_set s - {lo..<lo + k})) = (of_nat (card (free_set s)) - of_nat k :: u64)"
      by simp
    with inv f show ?thesis by (auto simp: frame_inv_def)
  qed
qed

subsection \<open>Allocation and release against the abstract sets\<close>

lemma rotate_surj:
  assumes "idx < (tot :: nat)" obtains off where "off < tot" "(next' + off) mod tot = idx"
proof
  let ?n = "next' mod tot"
  show "(idx + tot - ?n) mod tot < tot" using assms by simp
  have "?n < tot" using assms by simp
  then have "?n + (idx + tot - ?n) = idx + tot" by simp
  then have "(?n + (idx + tot - ?n)) mod tot = idx" using assms by simp
  then show "(next' + (idx + tot - ?n) mod tot) mod tot = idx" by (simp only: mod_add_left_eq mod_add_right_eq)
qed

lemma frame_alloc_None:
  assumes "frame_alloc s = (None, s')" shows "s' = s" and "free_set s = {}"
proof -
  from assms have none: "\<forall>off<total_bits s. \<not> bm_test (bitmap s) ((next_frame s + off) mod total_bits s)"
    and "s' = s"
    by (auto simp: frame_alloc_def Let_def split: option.splits)
  then show "s' = s" by simp
  have "\<not> bm_test (bitmap s) i" if "i < total_bits s" for i
    using rotate_surj [OF that, of "next_frame s"] none by metis
  then show "free_set s = {}" by (auto simp: free_set_def)
qed

lemma frame_alloc_Some:
  assumes inv: "frame_inv s" and a: "frame_alloc s = (Some p, s')"
  obtains i where "i \<in> free_set s" "p = addr_of i" "frame_of p = i" "free_set s' = free_set s - {i}"
    "owned_set s' = insert i (owned_set s)" "frame_inv s'" "total_bits s' = total_bits s"
proof -
  let ?t = "total_bits s"
  from a obtain off where
    off: "off < ?t" "bm_test (bitmap s) ((next_frame s + off) mod ?t)" and
    p: "p = addr_of ((next_frame s + off) mod ?t)" and
    s': "s' = (claim_frame ((next_frame s + off) mod ?t) s)
      \<lparr>free_frames := free_frames s - 1, next_frame := ((next_frame s + off) mod ?t + 1) mod ?t\<rparr>"
    by (auto simp: frame_alloc_def Let_def split: option.splits)
  let ?i = "(next_frame s + off) mod ?t"
  have i: "?i < ?t" "?i \<in> free_set s" using off by (simp_all add: free_set_def)
  have len: "length (owned s) = length (bitmap s)" using inv by (simp add: frame_inv_def)
  have run: "s' = (fold claim_frame [?i..<?i + 1] s)\<lparr>free_frames := free_frames s - of_nat 1,
      next_frame := (?i + 1) mod ?t\<rparr>" by (simp add: s')
  have inv': "frame_inv s'" unfolding run by (rule frame_inv_claim_run [OF inv]) (use i in auto)
  have "?i < BITMAP_BYTES * 8" using i inv by (auto simp: frame_inv_def total_bits_def)
  then have "frame_of p = ?i" unfolding p by (rule frame_of_addr)
  moreover have "total_bits s' = total_bits s" by (simp add: s' total_bits_def claim_frame_def)
  ultimately show ?thesis
    using that [OF i(2) p] inv' claim_frame_sets [OF i(1) len] by (simp add: s')
qed

lemma frame_alloc_nonempty: "free_set s \<noteq> {} \<Longrightarrow> \<exists>p s'. frame_alloc s = (Some p, s')"
  by (cases "frame_alloc s"; cases "fst (frame_alloc s)") (auto dest: frame_alloc_None(2))

lemma frame_free_foreign: "frame_of p \<notin> owned_set s \<Longrightarrow> frame_free p s = s"
  by (auto simp: frame_free_def to_usize_def owned_set_def)

lemma frame_free_owned:
  assumes inv: "frame_inv s" and o: "frame_of p \<in> owned_set s"
  shows "free_set (frame_free p s) = insert (frame_of p) (free_set s)"
    and "owned_set (frame_free p s) = owned_set s - {frame_of p}"
    and "frame_inv (frame_free p s)"
proof -
  let ?i = "frame_of p"
  have i: "?i < total_bits s" "bm_test (owned s) ?i" using o by (auto simp: owned_set_def)
  have len: "length (owned s) = length (bitmap s)" using inv by (simp add: frame_inv_def)
  have eq: "frame_free p s = s\<lparr>owned := bm_clear (owned s) ?i, bitmap := bm_set (bitmap s) ?i,
      free_frames := free_frames s + 1\<rparr>" using i by (simp add: frame_free_def to_usize_def)
  show f: "free_set (frame_free p s) = insert ?i (free_set s)"
    and w: "owned_set (frame_free p s) = owned_set s - {?i}"
    unfolding eq using i len by (auto simp: free_set_def owned_set_def total_bits_def)
  have "?i \<notin> free_set s" using inv o by (auto simp: frame_inv_def)
  then show "frame_inv (frame_free p s)"
    using inv unfolding frame_inv_def f w by (auto simp: eq)
qed

lemma frame_inv_free [keeps]: "frame_inv s \<Longrightarrow> frame_inv (frame_free p s)"
  by (cases "frame_of p \<in> owned_set s") (simp_all add: frame_free_owned frame_free_foreign)

lemma frame_inv_alloc [keeps]: "frame_inv s \<Longrightarrow> frame_inv (snd (frame_alloc s))"
  by (cases "frame_alloc s"; cases "fst (frame_alloc s)")
     (auto dest: frame_alloc_None elim: frame_alloc_Some)

lemma frame_reclaim_sets:
  assumes inv: "frame_inv s"
  shows "free_set (frame_reclaim p s) = (if frame_of p < total_bits s \<and> frame_of p \<notin> owned_set s
      then insert (frame_of p) (free_set s) else free_set s)"
    and "owned_set (frame_reclaim p s) = owned_set s"
    and "frame_inv (frame_reclaim p s)"
proof -
  let ?i = "frame_of p"
  have bits: "bm_test (bitmap s) ?i \<longleftrightarrow> ?i \<in> free_set s" "bm_test (owned s) ?i \<longleftrightarrow> ?i \<in> owned_set s"
    if "?i < total_bits s" using that by (simp_all add: free_set_def owned_set_def)
  consider (noop) "frame_reclaim p s = s" "\<not> (?i < total_bits s \<and> ?i \<notin> owned_set s) \<or> ?i \<in> free_set s"
    | (take) "frame_reclaim p s = s\<lparr>bitmap := bm_set (bitmap s) ?i, free_frames := free_frames s + 1\<rparr>"
        "?i < total_bits s" "?i \<notin> free_set s" "?i \<notin> owned_set s"
    using bits by (cases "?i < total_bits s") (auto simp: frame_reclaim_def to_usize_def)
  then have "free_set (frame_reclaim p s) = (if ?i < total_bits s \<and> ?i \<notin> owned_set s
      then insert ?i (free_set s) else free_set s) \<and> owned_set (frame_reclaim p s) = owned_set s
      \<and> frame_inv (frame_reclaim p s)"
  proof cases
    case noop
    with inv show ?thesis by auto
  next
    case take
    have f: "free_set (frame_reclaim p s) = insert ?i (free_set s)"
      and w: "owned_set (frame_reclaim p s) = owned_set s"
      unfolding take(1) using take(2) by (auto simp: free_set_def owned_set_def total_bits_def)
    have "frame_inv (frame_reclaim p s)"
      using inv take unfolding frame_inv_def f w by (auto simp: take(1))
    with f w take show ?thesis by simp
  qed
  then show "free_set (frame_reclaim p s) = (if frame_of p < total_bits s \<and> frame_of p \<notin> owned_set s
      then insert (frame_of p) (free_set s) else free_set s)"
    and "owned_set (frame_reclaim p s) = owned_set s" and "frame_inv (frame_reclaim p s)"
    by auto
qed


subsection \<open>Contiguous runs\<close>

text \<open>A run of \<open>k\<close> free frames starting at \<open>f\<close>.\<close>

definition free_run :: "frame_state \<Rightarrow> nat \<Rightarrow> nat \<Rightarrow> bool" where
  "free_run s f k \<longleftrightarrow> (\<forall>i. f \<le> i \<and> i < f + k \<longrightarrow> bm_test (bitmap s) i)"

text \<open>The state after the run at \<open>f\<close> was handed out.\<close>

definition claim_run :: "nat \<Rightarrow> nat \<Rightarrow> frame_state \<Rightarrow> frame_state" where
  "claim_run f k s = (fold claim_frame [f..<f + k] s)
     \<lparr>free_frames := free_frames s - of_nat k, next_frame := (f + k) mod total_bits s\<rparr>"

lemma scan_loop_spec:
  assumes "run < k" "st + run = idx" "run > 0 \<Longrightarrow> first = st" "lo \<le> st"
    "\<And>i. st \<le> i \<Longrightarrow> i < idx \<Longrightarrow> bm_test (bitmap s) i"
    "\<And>g. lo \<le> g \<Longrightarrow> g < st \<Longrightarrow> \<not> free_run s g k"
  shows "case scan_loop idx hi k run first s of
      (None, s') \<Rightarrow> s' = s \<and> (\<forall>g. lo \<le> g \<and> g + k \<le> hi \<longrightarrow> \<not> free_run s g k)
    | (Some p, s') \<Rightarrow> \<exists>f. lo \<le> f \<and> f + k \<le> hi \<and> free_run s f k \<and> p = addr_of f
        \<and> s' = claim_run f k s \<and> (\<forall>g. lo \<le> g \<and> g < f \<longrightarrow> \<not> free_run s g k)"
  using assms
proof (induction idx hi k run first s arbitrary: st rule: scan_loop.induct)
  case (1 idx hi k run first s)
  let ?first = "if run = 0 then idx else first"
  consider (stop) "\<not> idx < hi" | (busy) "idx < hi" "\<not> bm_test (bitmap s) idx"
    | (hit) "idx < hi" "bm_test (bitmap s) idx" "run + 1 = k"
    | (grow) "idx < hi" "bm_test (bitmap s) idx" "run + 1 \<noteq> k" by blast
  then show ?case
  proof cases
    case stop
    have "\<not> free_run s g k" if "lo \<le> g" "g + k \<le> hi" for g
      using that stop "1.prems" by (cases "g < st") auto
    with stop show ?thesis by (simp add: scan_loop.simps [of idx hi])
  next
    case busy
    have no: "\<not> free_run s g k" if "lo \<le> g" "g < idx + 1" for g
    proof (cases "g < st")
      case False
      then have "g \<le> idx" "idx < g + k" using that "1.prems"(1,2) by auto
      with busy show ?thesis by (auto simp: free_run_def)
    qed (use that "1.prems" in blast)
    have "0 < k" "lo \<le> idx + 1" using "1.prems"(1,2,4) by auto
    from "1.IH"(2) [OF busy this(1), of "idx + 1"] no this show ?thesis
      using busy by (simp add: scan_loop.simps [of idx hi])
  next
    case hit
    have f: "?first = st" using "1.prems"(2,3) by auto
    have "free_run s st k"
      using "1.prems"(2,5) hit by (auto simp: free_run_def less_Suc_eq_le le_less)
    moreover have "st + k \<le> hi" using hit "1.prems"(2) by simp
    moreover have "scan_loop idx hi k run first s = (Some (addr_of st), claim_run st k s)"
      using hit f by (simp add: scan_loop.simps [of idx hi] Let_def claim_run_def)
    ultimately show ?thesis using "1.prems"(4,6) by auto
  next
    case grow
    have f: "?first = st" using "1.prems"(2,3) by auto
    have eq: "scan_loop idx hi k run first s = scan_loop (idx + 1) hi k (run + 1) ?first s"
      using grow by (simp add: scan_loop.simps [of idx hi] Let_def)
    show ?thesis unfolding eq
      by (rule "1.IH"(1) [OF grow(1,2) refl refl grow(3), of st])
         (use "1.prems" grow f in \<open>auto simp: less_Suc_eq\<close>)
  qed
qed

lemma scan_run_spec:
  assumes "0 < k"
  shows "case scan_run lo hi k s of
      (None, s') \<Rightarrow> s' = s \<and> (\<forall>g. lo \<le> g \<and> g + k \<le> hi \<longrightarrow> \<not> free_run s g k)
    | (Some p, s') \<Rightarrow> \<exists>f. lo \<le> f \<and> f + k \<le> hi \<and> free_run s f k \<and> p = addr_of f
        \<and> s' = claim_run f k s \<and> (\<forall>g. lo \<le> g \<and> g < f \<longrightarrow> \<not> free_run s g k)"
  unfolding scan_run_def by (rule scan_loop_spec [where st = lo]) (use assms in auto)

lemma claim_run_sets:
  assumes inv: "frame_inv s" and "f + k \<le> total_bits s" "free_run s f k"
  shows "free_set (claim_run f k s) = free_set s - {f..<f + k}"
    and "owned_set (claim_run f k s) = owned_set s \<union> {f..<f + k}"
    and "frame_inv (claim_run f k s)" and "{f..<f + k} \<subseteq> free_set s"
    and "total_bits (claim_run f k s) = total_bits s"
proof -
  show sub: "{f..<f + k} \<subseteq> free_set s"
    using assms(2,3) by (auto simp: free_run_def free_set_def)
  have len: "length (owned s) = length (bitmap s)" using inv by (simp add: frame_inv_def)
  note fc = fold_claim [OF assms(2) len, of f]
  then show "free_set (claim_run f k s) = free_set s - {f..<f + k}"
    and "owned_set (claim_run f k s) = owned_set s \<union> {f..<f + k}"
    by (simp_all add: claim_run_def)
  show "frame_inv (claim_run f k s)"
    unfolding claim_run_def by (rule frame_inv_claim_run [OF inv sub])
  show "total_bits (claim_run f k s) = total_bits s"
    using fc by (simp add: claim_run_def total_bits_def)
qed

lemma alloc_contiguous_Some:
  assumes inv: "frame_inv s" and a: "frame_alloc_contiguous k s = (Some p, s')"
  obtains f where "0 < k" "f + k \<le> total_bits s" "free_run s f k" "p = addr_of f" "s' = claim_run f k s"
proof -
  let ?t = "total_bits s" and ?st = "next_frame s mod total_bits s"
  from a have k: "0 < k" by (auto simp: frame_alloc_contiguous_def Let_def split: if_splits)
  from a have t: "0 < ?t" by (auto simp: frame_alloc_contiguous_def Let_def split: if_splits)
  note s1 = scan_run_spec [OF k, where lo = ?st and hi = ?t and s = s]
  show ?thesis
  proof (cases "scan_run ?st ?t k s")
    case (Pair r s1')
    show ?thesis
    proof (cases r)
      case (Some q)
      with a Pair have "q = p" "s1' = s'"
        by (auto simp: frame_alloc_contiguous_def Let_def split: if_splits)
      with s1 Pair Some that k show ?thesis by auto
    next
      case None
      with s1 Pair have "s1' = s" by simp
      with a Pair None have "scan_run 0 ?st k s = (Some p, s')"
        by (auto simp: frame_alloc_contiguous_def Let_def split: if_splits prod.splits option.splits)
      moreover have "?st \<le> ?t" using t by (simp add: less_imp_le)
      ultimately show ?thesis
        using scan_run_spec [OF k, where lo = 0 and hi = ?st and s = s] k
        by (auto intro!: that intro: le_trans)
    qed
  qed
qed

text \<open>A refusal means no run lies wholly on one side of the cursor.\<close>

lemma alloc_contiguous_None:
  assumes "frame_alloc_contiguous k s = (None, s')" "0 < k" "k \<le> total_bits s"
  shows "s' = s" and "free_run s f k \<Longrightarrow> f + k \<le> total_bits s \<Longrightarrow>
    f < next_frame s mod total_bits s \<and> next_frame s mod total_bits s < f + k"
proof -
  let ?t = "total_bits s" and ?st = "next_frame s mod total_bits s"
  note s1 = scan_run_spec [OF assms(2), where lo = ?st and hi = ?t and s = s] and s2 = scan_run_spec [OF assms(2), where lo = 0 and hi = ?st and s = s]
  obtain r1 q1 where r1: "scan_run ?st ?t k s = (r1, q1)" by fastforce
  with assms have n1: "r1 = None"
    by (auto simp: frame_alloc_contiguous_def Let_def split: option.splits)
  with s1 r1 have q1: "q1 = s" and no1: "\<forall>g. ?st \<le> g \<and> g + k \<le> ?t \<longrightarrow> \<not> free_run s g k" by auto
  obtain r2 q2 where r2: "scan_run 0 ?st k s = (r2, q2)" by fastforce
  have "s' = s \<and> (\<forall>g. g + k \<le> ?st \<longrightarrow> \<not> free_run s g k)"
  proof (cases "?st > 0")
    case True
    with assms r1 n1 q1 r2 have "r2 = None" "s' = q2"
      by (auto simp: frame_alloc_contiguous_def Let_def split: option.splits)
    with s2 r2 show ?thesis by auto
  next
    case False
    with assms r1 n1 q1 show ?thesis by (auto simp: frame_alloc_contiguous_def Let_def)
  qed
  with no1 show "s' = s" and "free_run s f k \<Longrightarrow> f + k \<le> ?t \<Longrightarrow> f < ?st \<and> ?st < f + k"
    by (auto simp: not_le [symmetric])
qed

subsection \<open>The interface to the rest of the kernel\<close>

text \<open>
  What the clients of the allocator (program break, anonymous mappings, the ELF loader, kernel
  stacks) rely on: a frame handed out was nobody's, and a freed frame is nobody's again.
\<close>

locale frame_source =
  fixes alloc :: "'s \<Rightarrow> u64 option \<times> 's"
    and release :: "u64 \<Rightarrow> 's \<Rightarrow> 's"
    and inv :: "'s \<Rightarrow> bool"
    and held :: "'s \<Rightarrow> u64 set"
  assumes alloc_inv: "inv s \<Longrightarrow> inv (snd (alloc s))"
    and release_inv: "inv s \<Longrightarrow> inv (release p s)"
    and alloc_fresh: "inv s \<Longrightarrow> alloc s = (Some p, s') \<Longrightarrow> p \<notin> held s \<and> held s' = insert p (held s)"
    and alloc_refuse: "alloc s = (None, s') \<Longrightarrow> s' = s"
    and release_held: "inv s \<Longrightarrow> p \<in> held s \<Longrightarrow> held (release p s) = held s - {p}"
begin

text \<open>Taking \<open>n\<close> frames one after the other, stopping at the first refusal.\<close>

primrec alloc_many :: "nat \<Rightarrow> 's \<Rightarrow> u64 list \<times> 's" where
  "alloc_many 0 s = ([], s)"
| "alloc_many (Suc n) s =
     (case alloc s of (None, s') \<Rightarrow> ([], s')
      | (Some p, s') \<Rightarrow> (case alloc_many n s' of (ps, s'') \<Rightarrow> (p # ps, s'')))"

lemma alloc_many_fresh:
  "inv s \<Longrightarrow> alloc_many n s = (ps, s') \<Longrightarrow>
     inv s' \<and> distinct ps \<and> set ps \<inter> held s = {} \<and> held s' = held s \<union> set ps"
proof (induction n arbitrary: s ps s')
  case (Suc n)
  obtain r t where r: "alloc s = (r, t)" by fastforce
  show ?case
  proof (cases r)
    case None
    with r Suc.prems alloc_refuse [of s t] show ?thesis by simp
  next
    case (Some p)
    obtain qs u where q: "alloc_many n t = (qs, u)" by fastforce
    have t: "inv t" "p \<notin> held s" "held t = insert p (held s)"
      using r Some Suc.prems(1) alloc_inv [of s] alloc_fresh [of s p t] by auto
    from Suc.IH [OF t(1) q] t r Some q Suc.prems(2) show ?thesis by auto
  qed
qed simp

lemma release_many_inv: "inv s \<Longrightarrow> inv (fold release ps s)"
  by (induction ps arbitrary: s) (auto simp: release_inv)

lemma release_many_held:
  "inv s \<Longrightarrow> distinct ps \<Longrightarrow> set ps \<subseteq> held s \<Longrightarrow> held (fold release ps s) = held s - set ps"
proof (induction ps arbitrary: s)
  case (Cons p ps)
  then have h: "held (release p s) = held s - {p}" by (simp add: release_held)
  have "held (fold release ps (release p s)) = held (release p s) - set ps"
    by (rule Cons.IH) (use Cons.prems h in \<open>auto simp: release_inv\<close>)
  with h show ?case by auto
qed simp

end

text \<open>The physical addresses the allocator has handed out.\<close>

definition frame_held :: "frame_state \<Rightarrow> u64 set" where
  "frame_held s = addr_of ` owned_set s"

lemma owned_set_bound: "frame_inv s \<Longrightarrow> i \<in> owned_set s \<Longrightarrow> i < BITMAP_BYTES * 8"
  by (auto simp: frame_inv_def owned_set_def total_bits_def)

lemma addr_of_inj: "i < BITMAP_BYTES * 8 \<Longrightarrow> j < BITMAP_BYTES * 8 \<Longrightarrow> addr_of i = addr_of j \<Longrightarrow> i = j"
  by (metis frame_of_addr)

lemma free_set_bound: "frame_inv s \<Longrightarrow> i \<in> free_set s \<Longrightarrow> i < BITMAP_BYTES * 8"
  by (auto simp: frame_inv_def free_set_def total_bits_def)

interpretation fa: frame_source frame_alloc frame_free frame_inv frame_held
proof unfold_locales
  fix s s' :: frame_state and p
  show "frame_inv s \<Longrightarrow> frame_inv (snd (frame_alloc s))" by (rule frame_inv_alloc)
  show "frame_inv s \<Longrightarrow> frame_inv (frame_free p s)" by (rule frame_inv_free)
  show "frame_alloc s = (None, s') \<Longrightarrow> s' = s" by (rule frame_alloc_None)
  show "p \<notin> frame_held s \<and> frame_held s' = insert p (frame_held s)"
    if inv: "frame_inv s" and a: "frame_alloc s = (Some p, s')"
  proof -
    obtain i where i: "i \<in> free_set s" "p = addr_of i" "owned_set s' = insert i (owned_set s)"
      by (rule frame_alloc_Some [OF inv a])
    have "i \<notin> owned_set s" using i inv by (auto simp: frame_inv_def)
    moreover have "i = j" if "j \<in> owned_set s" "p = addr_of j" for j
      using addr_of_inj [OF free_set_bound [OF inv i(1)] owned_set_bound [OF inv that(1)]] i that by simp
    ultimately have "p \<notin> frame_held s" unfolding frame_held_def by blast
    with i show ?thesis by (simp add: frame_held_def)
  qed
  show "frame_held (frame_free p s) = frame_held s - {p}" if inv: "frame_inv s" and ph: "p \<in> frame_held s"
  proof -
    obtain i where i: "i \<in> owned_set s" "p = addr_of i" using ph by (auto simp: frame_held_def)
    then have f: "frame_of p = i" using frame_of_addr owned_set_bound [OF inv] by simp
    have ne: "addr_of j \<noteq> p" if "j \<in> owned_set s - {i}" for j
      using that i addr_of_inj [of j i] owned_set_bound [OF inv, of j] owned_set_bound [OF inv, of i]
      by auto
    have "owned_set (frame_free p s) = owned_set s - {i}"
      using frame_free_owned(2) [OF inv, of p] i f by simp
    with ne i show ?thesis unfolding frame_held_def by blast
  qed
qed

subsection \<open>Runs of the allocator\<close>

text \<open>The calls other kernel code makes after boot, in any order.\<close>

inductive frame_step :: "frame_state \<Rightarrow> frame_state \<Rightarrow> bool" where
  step_alloc: "frame_step s (snd (frame_alloc s))"
| step_contiguous: "frame_step s (snd (frame_alloc_contiguous k s))"
| step_free: "frame_step s (frame_free p s)"

inductive frame_reachable :: "frame_state \<Rightarrow> frame_state \<Rightarrow> bool" where
  reach_refl: "frame_reachable s s"
| reach_step: "frame_reachable s t \<Longrightarrow> frame_step t u \<Longrightarrow> frame_reachable s u"

lemma frame_alloc_keeps [keeps]:
  assumes inv: "frame_inv s"
  shows "frame_inv (snd (frame_alloc s))
    \<and> free_set (snd (frame_alloc s)) \<union> owned_set (snd (frame_alloc s)) = free_set s \<union> owned_set s"
proof (cases "frame_alloc s")
  case (Pair r u)
  show ?thesis
  proof (cases r)
    case None
    with Pair have "u = s" by (simp add: frame_alloc_None(1))
    with Pair inv show ?thesis by simp
  next
    case (Some p)
    with Pair have "frame_alloc s = (Some p, u)" by simp
    then obtain i where "i \<in> free_set s" "free_set u = free_set s - {i}"
      "owned_set u = insert i (owned_set s)" "frame_inv u"
      by (rule frame_alloc_Some [OF inv])
    with Pair show ?thesis by auto
  qed
qed

lemma alloc_contiguous_keeps [keeps]:
  assumes inv: "frame_inv s"
  shows "frame_inv (snd (frame_alloc_contiguous k s))
    \<and> free_set (snd (frame_alloc_contiguous k s)) \<union> owned_set (snd (frame_alloc_contiguous k s))
      = free_set s \<union> owned_set s"
proof (cases "frame_alloc_contiguous k s")
  case (Pair r u)
  show ?thesis
  proof (cases r)
    case None
    with Pair have n: "frame_alloc_contiguous k s = (None, u)" by simp
    have "u = s"
    proof (cases "0 < k \<and> k \<le> total_bits s")
      case True
      with alloc_contiguous_None(1) [OF n] show ?thesis by simp
    next
      case False
      with n show ?thesis by (auto simp: frame_alloc_contiguous_def Let_def)
    qed
    with Pair inv show ?thesis by simp
  next
    case (Some p)
    with Pair have "frame_alloc_contiguous k s = (Some p, u)" by simp
    then obtain f where f: "f + k \<le> total_bits s" "free_run s f k" "u = claim_run f k s"
      by (rule alloc_contiguous_Some [OF inv])
    have "{f..<f + k} \<subseteq> free_set s" by (rule claim_run_sets(4) [OF inv f(1,2)])
    with claim_run_sets [OF inv f(1,2)] f(3) Pair show ?thesis by auto
  qed
qed

lemma frame_free_keeps [keeps]:
  assumes inv: "frame_inv s"
  shows "frame_inv (frame_free p s)
    \<and> free_set (frame_free p s) \<union> owned_set (frame_free p s) = free_set s \<union> owned_set s"
proof (cases "frame_of p \<in> owned_set s")
  case True
  from frame_free_owned [OF inv True] frame_inv_free [OF inv] True show ?thesis by auto
next
  case False
  with inv show ?thesis by (simp add: frame_free_foreign)
qed

lemma frame_step_keeps:
  assumes "frame_step s t" and "frame_inv s"
  shows "frame_inv t \<and> free_set t \<union> owned_set t = free_set s \<union> owned_set s"
  using assms by cases (simp_all only: keeps)

lemma frame_reachable_keeps:
  assumes "frame_reachable s t" "frame_inv s"
  shows "frame_inv t \<and> free_set t \<union> owned_set t = free_set s \<union> owned_set s"
  using assms by induction (auto dest: frame_step_keeps)

subsection \<open>Properties\<close>


definition demo_boot :: boot_info where
  "demo_boot = \<lparr>memmap = [\<lparr>md_type = 7, md_physical_start = 0x100000, md_number_of_pages = 256\<rparr>],
     memmap_ptr = 0x5000, memmap_desc_size = 48, kernel_base = 0x120000, stack_top = 0x1A0000,
     boot_pml4 = 0x1B0000, boot_tables_pages = 4, bi_addr = 0x1C0010\<rparr>"


text \<open>C20. \<open>alloc\<close> in every reachable state: it refuses exactly when no frame is free, and then
  changes nothing; otherwise it hands out one free frame, which moves from the free to the owned
  set while every other frame keeps its status; the bitmaps stay disjoint and the free counter
  equals the number of free frames.\<close>

theorem frame_alloc_correct:
  assumes "frame_inv s"
  shows "case frame_alloc s of
      (None, s') \<Rightarrow> free_set s = {} \<and> s' = s
    | (Some p, s') \<Rightarrow> \<exists>i. i \<in> free_set s \<and> p = of_nat i * FRAME_SIZE \<and> free_set s' = free_set s - {i}
        \<and> owned_set s' = insert i (owned_set s) \<and> frame_inv s'
        \<and> free_frames s' = of_nat (card (free_set s) - 1)"
proof (cases "frame_alloc s")
  case (Pair r s')
  show ?thesis
  proof (cases r)
    case None
    with Pair show ?thesis by (auto dest: frame_alloc_None)
  next
    case (Some p)
    with Pair have "frame_alloc s = (Some p, s')" by simp
    then obtain i where i: "i \<in> free_set s" "p = addr_of i" "free_set s' = free_set s - {i}"
      "owned_set s' = insert i (owned_set s)" "frame_inv s'"
      by (rule frame_alloc_Some [OF assms])
    then have "free_frames s' = of_nat (card (free_set s) - 1)" by (simp add: frame_inv_def)
    with i Pair Some show ?thesis by auto
  qed
qed

definition demo_frames :: frame_state where
  "demo_frames = \<lparr>bitmap = [0x0F, 0xB0], owned = [0, 0x01], free_frames = 7, next_frame = 2\<rparr>"

lemma demo_frames_sets:
  "free_set demo_frames = {0, 1, 2, 3, 12, 13, 15}" "owned_set demo_frames = {8}"
proof -
  have "filter (bm_test (bitmap demo_frames)) [0..<16] = [0, 1, 2, 3, 12, 13, 15]"
    "filter (bm_test (owned demo_frames)) [0..<16] = [8]" by code_simp+
  moreover have "free_set demo_frames = set (filter (bm_test (bitmap demo_frames)) [0..<16])"
    "owned_set demo_frames = set (filter (bm_test (owned demo_frames)) [0..<16])"
    by (auto simp: free_set_def owned_set_def total_bits_def demo_frames_def)
  ultimately show "free_set demo_frames = {0, 1, 2, 3, 12, 13, 15}" "owned_set demo_frames = {8}"
    by simp_all
qed

lemma demo_frames_inv: "frame_inv demo_frames"
  by (simp add: frame_inv_def demo_frames_sets) (simp add: demo_frames_def BITMAP_BYTES_def)

theorem frame_alloc_correct_witness:
  "\<exists>s' i. frame_alloc demo_frames = (Some 0x2000, s') \<and> owned_set s' = {i, 8}
     \<and> free_frames s' = 6 \<and> frame_inv s'"
proof -
  have "fst (frame_alloc demo_frames) = Some 0x2000" by code_simp
  then obtain s' where "frame_alloc demo_frames = (Some 0x2000, s')" by (metis prod.collapse)
  with frame_alloc_correct [OF demo_frames_inv] show ?thesis by (auto simp: demo_frames_sets)
qed

text \<open>C21. \<open>alloc_contiguous k\<close>: a returned address starts a run of \<open>k\<close> consecutive frames inside the
  bitmap, all of them free before and owned afterwards, and nothing else changes. A refusal of a
  sensible request changes nothing and means that every free run of \<open>k\<close> frames straddles the
  round-robin cursor: such a run is missed by the two half scans.\<close>

theorem frame_alloc_contiguous_correct:
  assumes "frame_inv s" and "0 < k" and "k \<le> total_bits s"
  shows "case frame_alloc_contiguous k s of
      (Some p, s') \<Rightarrow> \<exists>f. p = of_nat f * FRAME_SIZE \<and> f + k \<le> total_bits s \<and> {f..<f + k} \<subseteq> free_set s
        \<and> free_set s' = free_set s - {f..<f + k} \<and> owned_set s' = owned_set s \<union> {f..<f + k} \<and> frame_inv s'
    | (None, s') \<Rightarrow> s' = s \<and> (\<forall>f. {f..<f + k} \<subseteq> free_set s \<longrightarrow>
        f < next_frame s mod total_bits s \<and> next_frame s mod total_bits s < f + k)"
proof (cases "frame_alloc_contiguous k s")
  case (Pair r s')
  show ?thesis
  proof (cases r)
    case None
    with Pair have n: "frame_alloc_contiguous k s = (None, s')" by simp
    have "free_run s f k \<and> f + k \<le> total_bits s" if "{f..<f + k} \<subseteq> free_set s" for f
    proof -
      have "f + k - 1 \<in> {f..<f + k}" using assms(2) by auto
      with that have "f + k - 1 < total_bits s" by (auto simp: free_set_def)
      with that show ?thesis by (auto simp: free_run_def free_set_def subset_eq)
    qed
    with alloc_contiguous_None [OF n assms(2,3)] Pair None show ?thesis by auto
  next
    case (Some p)
    with Pair have "frame_alloc_contiguous k s = (Some p, s')" by simp
    then obtain f where "f + k \<le> total_bits s" "free_run s f k" "p = addr_of f" "s' = claim_run f k s"
      by (rule alloc_contiguous_Some [OF assms(1)])
    with claim_run_sets [OF assms(1) this(1,2)] Pair Some show ?thesis by auto
  qed
qed

theorem frame_alloc_contiguous_correct_witness:
  "\<exists>s' f. frame_alloc_contiguous 2 demo_frames = (Some 0x2000, s') \<and> {f..<f + 2} \<subseteq> {0, 1, 2, 3, 12, 13, 15}
     \<and> owned_set s' = {8} \<union> {f..<f + 2} \<and> frame_inv s'"
proof -
  have t: "(0::nat) < 2" "2 \<le> total_bits demo_frames" by (simp_all add: total_bits_def demo_frames_def)
  have "fst (frame_alloc_contiguous 2 demo_frames) = Some 0x2000"
    by (simp add: frame_alloc_contiguous_def Let_def demo_frames_def total_bits_def scan_run_def
        scan_loop.simps bm_test_def bm_mask_def FRAME_SIZE_def)
  then obtain s' where s': "frame_alloc_contiguous 2 demo_frames = (Some 0x2000, s')"
    by (metis prod.collapse)
  from frame_alloc_contiguous_correct [OF demo_frames_inv t] s' obtain f where
    "{f..<f + 2} \<subseteq> free_set demo_frames" "owned_set s' = owned_set demo_frames \<union> {f..<f + 2}"
    "frame_inv s'" by auto
  with s' show ?thesis unfolding demo_frames_sets by (intro exI conjI)
qed

text \<open>C22. \<open>free\<close> is safe against misuse: freeing an address whose frame is not owned (never allocated,
  reserved, outside the bitmap, or already freed) changes nothing, so a second \<open>free\<close> of the same
  address has no effect, and an allocation followed by its release gives back the same free and
  owned sets.\<close>

theorem frame_free_safe:
  assumes "frame_inv s"
  shows "(unat (p div FRAME_SIZE) \<notin> owned_set s \<longrightarrow> frame_free p s = s)
    \<and> frame_free p (frame_free p s) = frame_free p s
    \<and> (\<forall>q s'. frame_alloc s = (Some q, s') \<longrightarrow>
         free_set (frame_free q s') = free_set s \<and> owned_set (frame_free q s') = owned_set s)"
proof (intro conjI allI impI)
  show "frame_of p \<notin> owned_set s \<Longrightarrow> frame_free p s = s" by (rule frame_free_foreign)
  show "frame_free p (frame_free p s) = frame_free p s"
    using frame_free_owned(2) [OF assms, of p] frame_free_foreign [of p s]
    by (cases "frame_of p \<in> owned_set s") (simp_all add: frame_free_foreign)
  fix q s' assume a: "frame_alloc s = (Some q, s')"
  obtain i where i: "i \<in> free_set s" "frame_of q = i" "free_set s' = free_set s - {i}"
    "owned_set s' = insert i (owned_set s)" "frame_inv s'"
    by (rule frame_alloc_Some [OF assms a])
  moreover have "i \<notin> owned_set s" using i assms by (auto simp: frame_inv_def)
  ultimately show "free_set (frame_free q s') = free_set s" "owned_set (frame_free q s') = owned_set s"
    using frame_free_owned [OF i(5), of q] by auto
qed

theorem frame_free_safe_witness:
  "unat (0x8123 div FRAME_SIZE) \<in> owned_set demo_frames
   \<and> frame_free 0x8123 (frame_free 0x8123 demo_frames) = frame_free 0x8123 demo_frames"
  using frame_free_safe [OF demo_frames_inv, of "0x8123"]
  by (simp add: owned_set_def total_bits_def demo_frames_def bm_test_def bm_mask_def FRAME_SIZE_def)

end
