(* ===== verification/Ring_Buffer.thy ===== *)
theory Ring_Buffer
  imports Prelude
begin

text \<open>
  The bounded event ring that \<^verbatim>\<open>src/kernel-core/src/input_ring.rs\<close> and
  \<^verbatim>\<open>src/kernel-core/src/graphics/event.rs\<close> both declare (\<open>struct Ring\<close>, \<open>push\<close>, \<open>pop\<close>, the drop
  counter), over an arbitrary event type and capacity, its invariant and its abstraction to the
  list of queued events, oldest first. The locale \<open>bounded_queue\<close> is the drop-oldest contract the
  two users rely on (\<open>stamp\<close> is what \<open>push\<close> makes of its argument: the event with its timestamp);
  its consequences are proved once and interpreted on each ring.
\<close>

section \<open>The ring\<close>

record 'e ring =
  r_events :: "'e list"
  r_head :: nat
  r_tail :: nat
  r_len :: nat
  r_dropped :: u64

definition ring_init :: "nat \<Rightarrow> 'e \<Rightarrow> 'e ring" where
  "ring_init cap e0 = \<lparr>r_events = replicate cap e0, r_head = 0, r_tail = 0, r_len = 0, r_dropped = 0\<rparr>"

definition ring_push :: "nat \<Rightarrow> 'e \<Rightarrow> 'e ring \<Rightarrow> 'e ring" where
  "ring_push cap ev r =
     (let r1 = (if r_len r = cap
                then r\<lparr>r_tail := (r_tail r + 1) mod cap, r_dropped := r_dropped r + 1\<rparr>
                else r\<lparr>r_len := r_len r + 1\<rparr>)
      in r1\<lparr>r_events := (r_events r1)[r_head r1 := ev], r_head := (r_head r1 + 1) mod cap\<rparr>)"

definition ring_pop :: "nat \<Rightarrow> 'e ring \<Rightarrow> 'e option \<times> 'e ring" where
  "ring_pop cap r =
     (if r_len r = 0 then (None, r)
      else (Some (r_events r ! r_tail r), r\<lparr>r_tail := (r_tail r + 1) mod cap, r_len := r_len r - 1\<rparr>))"

section \<open>Invariant and abstraction\<close>

definition ring_inv :: "nat \<Rightarrow> 'e ring \<Rightarrow> bool" where
  "ring_inv cap r \<longleftrightarrow> 0 < cap \<and> length (r_events r) = cap \<and> r_tail r < cap \<and> r_len r \<le> cap
     \<and> r_head r = (r_tail r + r_len r) mod cap"

definition ring_list :: "nat \<Rightarrow> 'e ring \<Rightarrow> 'e list" where
  "ring_list cap r = map (\<lambda>i. r_events r ! ((r_tail r + i) mod cap)) [0..<r_len r]"

lemma length_ring_list [simp]: "length (ring_list cap r) = r_len r"
  by (simp add: ring_list_def)

lemma ring_inv_init: "0 < cap \<Longrightarrow> ring_inv cap (ring_init cap e)"
  by (simp add: ring_inv_def ring_init_def)

lemma ring_list_init [simp]: "ring_list cap (ring_init cap e) = []"
  by (simp add: ring_list_def ring_init_def)

text \<open>Two live offsets never share a slot.\<close>

lemma mod_offset_inj:
  assumes "(t + i) mod cap = (t + j) mod cap" "i < cap" "j < (cap :: nat)"
  shows "i = j"
proof -
  have "b - a = 0" if "(t + a) mod cap = (t + b) mod cap" "b < cap" for a b
  proof -
    have "cap dvd b - a"
      using that(1) mod_eq_dvd_iff_nat [of "t + a" "t + b" cap] by (cases "a \<le> b") auto
    with that(2) show ?thesis by (meson dvd_imp_le less_imp_diff_less linorder_not_less neq0_conv)
  qed
  from this [of i j] this [of j i] assms show ?thesis by simp
qed

lemma ring_push_inv: "ring_inv cap r \<Longrightarrow> ring_inv cap (ring_push cap e r)"
  by (auto simp: ring_inv_def ring_push_def Let_def mod_simps)

lemma ring_pop_inv: "ring_inv cap r \<Longrightarrow> ring_inv cap (snd (ring_pop cap r))"
  by (cases "r_len r") (auto simp: ring_inv_def ring_pop_def mod_simps)

lemma ring_push_room:
  assumes "ring_inv cap r" "r_len r < cap"
  shows "ring_list cap (ring_push cap e r) = ring_list cap r @ [e]"
proof (rule nth_equalityI)
  show "length (ring_list cap (ring_push cap e r)) = length (ring_list cap r @ [e])"
    using assms by (simp add: ring_push_def Let_def)
  fix i assume "i < length (ring_list cap (ring_push cap e r))"
  then have i: "i \<le> r_len r" using assms by (simp add: ring_push_def Let_def)
  then show "ring_list cap (ring_push cap e r) ! i = (ring_list cap r @ [e]) ! i"
    using assms mod_offset_inj [of "r_tail r" i cap "r_len r"]
    by (cases "i = r_len r") (auto simp: ring_list_def ring_push_def ring_inv_def Let_def nth_append nth_list_update)
qed

lemma ring_push_full:
  assumes "ring_inv cap r" "r_len r = cap"
  shows "ring_list cap (ring_push cap e r) = tl (ring_list cap r) @ [e]"
proof (rule nth_equalityI)
  have c: "0 < cap" using assms by (simp add: ring_inv_def)
  then show "length (ring_list cap (ring_push cap e r)) = length (tl (ring_list cap r) @ [e])"
    using assms by (simp add: ring_push_def Let_def)
  fix i assume "i < length (ring_list cap (ring_push cap e r))"
  then have i: "i < cap" using assms by (simp add: ring_push_def Let_def)
  have h: "r_head r = r_tail r" using assms by (simp add: ring_inv_def)
  have s: "((r_tail r + 1) mod cap + i) mod cap = (r_tail r + Suc i) mod cap" by (simp add: mod_simps)
  have last: "(r_tail r + Suc i) mod cap = r_tail r \<longleftrightarrow> Suc i = cap"
  proof
    assume "(r_tail r + Suc i) mod cap = r_tail r"
    then show "Suc i = cap"
      using mod_offset_inj [of "r_tail r" "Suc i" cap 0] assms(1) i by (cases "Suc i = cap") (auto simp: ring_inv_def)
  next
    assume "Suc i = cap"
    then show "(r_tail r + Suc i) mod cap = r_tail r" using assms(1) by (simp add: ring_inv_def del: add_Suc_right)
  qed
  show "ring_list cap (ring_push cap e r) ! i = (tl (ring_list cap r) @ [e]) ! i"
    using assms i c h s last
    by (auto simp: ring_list_def ring_push_def ring_inv_def Let_def nth_append nth_list_update nth_tl)
qed

lemma ring_pop_None: "ring_pop cap r = (None, r') \<longleftrightarrow> ring_list cap r = [] \<and> r' = r"
  by (auto simp: ring_pop_def ring_list_def)

lemma ring_pop_Some:
  assumes "ring_inv cap r" "ring_pop cap r = (Some e, r')"
  shows "ring_list cap r = e # ring_list cap r'"
proof -
  from assms(2) have r': "0 < r_len r" "e = r_events r ! r_tail r"
    "r' = r\<lparr>r_tail := (r_tail r + 1) mod cap, r_len := r_len r - 1\<rparr>"
    by (auto simp: ring_pop_def split: if_splits)
  then have "[0..<r_len r] = 0 # map Suc [0..<r_len r - 1]"
    by (metis Suc_pred' map_Suc_upt upt_conv_Cons)
  with r' assms(1) show ?thesis by (simp add: ring_list_def ring_inv_def mod_simps o_def)
qed

section \<open>The contract of a drop-oldest queue\<close>

locale bounded_queue =
  fixes push :: "'i \<Rightarrow> 's \<Rightarrow> 's" and stamp :: "'i \<Rightarrow> 'e" and pop :: "'s \<Rightarrow> 'e option \<times> 's"
    and contents :: "'s \<Rightarrow> 'e list" and inv :: "'s \<Rightarrow> bool" and cap :: nat and drops :: "'s \<Rightarrow> u64"
  assumes bound: "inv s \<Longrightarrow> length (contents s) \<le> cap"
    and push_inv: "inv s \<Longrightarrow> inv (push i s)"
    and push_contents: "inv s \<Longrightarrow> contents (push i s) =
      (if length (contents s) = cap then tl (contents s) else contents s) @ [stamp i]"
    and push_drops: "inv s \<Longrightarrow> drops (push i s) = (if length (contents s) = cap then drops s + 1 else drops s)"
    and pop_inv: "inv s \<Longrightarrow> pop s = (r, s') \<Longrightarrow> inv s'"
    and pop_none: "inv s \<Longrightarrow> pop s = (None, s') \<Longrightarrow> contents s = [] \<and> s' = s"
    and pop_some: "inv s \<Longrightarrow> pop s = (Some e, s') \<Longrightarrow> contents s = e # contents s'"
    and pop_drops: "inv s \<Longrightarrow> pop s = (r, s') \<Longrightarrow> drops s' = drops s"
    and cap_pos: "0 < cap"
begin

lemma push_many_inv: "inv s \<Longrightarrow> inv (fold push es s)"
  by (induction es arbitrary: s) (simp_all add: push_inv)

lemma push_many_contents:
  "inv s \<Longrightarrow> contents (fold push es s) =
     drop (length (contents s) + length es - cap) (contents s @ map stamp es)"
proof (induction es arbitrary: s)
  case Nil
  then show ?case using bound [OF Nil] by simp
next
  case (Cons e es)
  note IH = Cons.IH [OF push_inv [OF Cons.prems], of e]
  show ?case
  proof (cases "length (contents s) = cap")
    case True
    then obtain x xs where "contents s = x # xs" using cap_pos by (cases "contents s") auto
    with True IH push_contents [OF Cons.prems] show ?thesis by (simp add: Suc_diff_le)
  next
    case False
    with IH push_contents [OF Cons.prems] show ?thesis by simp
  qed
qed

lemma push_many_drops:
  "inv s \<Longrightarrow> drops (fold push es s) = drops s + of_nat (length (contents s) + length es - cap)"
proof (induction es arbitrary: s)
  case Nil
  then show ?case using bound [OF Nil] by simp
next
  case (Cons e es)
  note IH = Cons.IH [OF push_inv [OF Cons.prems], of e]
  show ?case
    using IH push_contents [OF Cons.prems] push_drops [OF Cons.prems] cap_pos
    by (auto simp: Suc_diff_le)
qed

lemma pop_cons:
  assumes "inv s" "contents s = e # es"
  obtains s' where "pop s = (Some e, s')" "contents s' = es" "inv s'" "drops s' = drops s"
proof (cases "pop s")
  case (Pair r s')
  show ?thesis
  proof (cases r)
    case None
    with Pair have "pop s = (None, s')" by simp
    from pop_none [OF assms(1) this] assms(2) show ?thesis by simp
  next
    case (Some x)
    with Pair have p: "pop s = (Some x, s')" by simp
    from pop_some [OF assms(1) p] assms(2) have "x = e" "contents s' = es" by simp_all
    with p that pop_inv [OF assms(1) p] pop_drops [OF assms(1) p] show ?thesis by simp
  qed
qed

lemma pop_empty:
  assumes "inv s" "contents s = []"
  shows "pop s = (None, s)"
proof (cases "pop s")
  case (Pair r s')
  show ?thesis
  proof (cases r)
    case None
    with Pair have "pop s = (None, s')" by simp
    with pop_none [OF assms(1) this] show ?thesis by simp
  next
    case (Some x)
    with Pair have "pop s = (Some x, s')" by simp
    from pop_some [OF assms(1) this] assms(2) show ?thesis by simp
  qed
qed

fun pop_many :: "nat \<Rightarrow> 's \<Rightarrow> 'e list \<times> 's" where
  "pop_many 0 s = ([], s)"
| "pop_many (Suc n) s = (case pop s of (None, s') \<Rightarrow> ([], s')
     | (Some e, s') \<Rightarrow> (case pop_many n s' of (es, t) \<Rightarrow> (e # es, t)))"

lemma pop_many_contents:
  "inv s \<Longrightarrow> pop_many n s = (es, t) \<Longrightarrow>
     es = take n (contents s) \<and> contents t = drop n (contents s) \<and> inv t"
proof (induction n arbitrary: s es t)
  case (Suc n)
  show ?case
  proof (cases "contents s")
    case Nil
    with Suc.prems pop_empty show ?thesis by auto
  next
    case (Cons x xs)
    then obtain s' where "pop s = (Some x, s')" "contents s' = xs" "inv s'"
      by (rule pop_cons [OF Suc.prems(1)])
    with Suc.prems(2) Suc.IH [of s'] Cons show ?thesis by (auto split: prod.splits)
  qed
qed simp

text \<open>What a consumer sees after a burst: the newest \<open>cap\<close> of everything queued, in order.\<close>

lemma burst:
  assumes "inv s"
  shows "fst (pop_many cap (fold push es s)) = drop (length (contents s) + length es - cap) (contents s @ map stamp es)"
  using pop_many_contents [OF push_many_inv [OF assms], of cap es] push_many_contents [OF assms, of es]
    bound [OF push_many_inv [OF assms], of es]
  by (cases "pop_many cap (fold push es s)") simp

end

end
