(* ===== verification/Input_Ring.thy ===== *)
theory Input_Ring
  imports Ring_Buffer
begin

text \<open>
  The input event ring of \<^verbatim>\<open>src/kernel-core/src/input_ring.rs\<close>: the event record and its constructors,
  the producers and the consumer over the shared ring, and the boot-time self-test. The monotonic
  clock \<^verbatim>\<open>time::now_ns\<close> is an argument: one reading for \<open>push\<close>, the \<open>k\<close>-th reading \<open>now k\<close> for the
  self-test.
\<close>

section \<open>Events\<close>

definition INPUT_EVENT_SIZE :: nat where "INPUT_EVENT_SIZE = 32"
definition RING_CAPACITY :: nat where "RING_CAPACITY = 64"
definition KIND_KEY :: u16 where "KIND_KEY = 1"
definition KIND_POINTER :: u16 where "KIND_POINTER = 2"
definition KEY_RELEASED :: u8 where "KEY_RELEASED = 0"
definition KEY_PRESSED :: u8 where "KEY_PRESSED = 1"
definition SCANCODE_SET :: u8 where "SCANCODE_SET = 1"

record input_event =
  ie_ts :: u64
  ie_kind :: u16
  ie_flags :: u8
  ie_set :: u8
  ie_scancode :: u8
  ie_ascii :: u8
  ie_buttons :: u8
  ie_dx :: u16
  ie_dy :: u16
  ie_reserved :: "u8 list"

text \<open>Size and alignment of the fields, in order, for \<^verbatim>\<open>size_of\<close>.\<close>

definition input_event_layout :: "(nat \<times> nat) list" where
  "input_event_layout = [(8, 8), (2, 2), (1, 1), (1, 1), (1, 1), (1, 1), (1, 1), (2, 2), (2, 2), (12, 1)]"

definition input_event_empty :: input_event where
  "input_event_empty = \<lparr>ie_ts = 0, ie_kind = 0, ie_flags = 0, ie_set = 0, ie_scancode = 0, ie_ascii = 0,
     ie_buttons = 0, ie_dx = 0, ie_dy = 0, ie_reserved = replicate 12 0\<rparr>"

definition input_event_key :: "u8 \<Rightarrow> u8 \<Rightarrow> bool \<Rightarrow> u8 \<Rightarrow> input_event" where
  "input_event_key set' scancode pressed ascii = \<lparr>ie_ts = 0, ie_kind = KIND_KEY,
     ie_flags = (if pressed then KEY_PRESSED else KEY_RELEASED), ie_set = set', ie_scancode = scancode,
     ie_ascii = ascii, ie_buttons = 0, ie_dx = 0, ie_dy = 0, ie_reserved = replicate 12 0\<rparr>"

definition input_event_pointer :: "u16 \<Rightarrow> u16 \<Rightarrow> u8 \<Rightarrow> input_event" where
  "input_event_pointer dx dy buttons = \<lparr>ie_ts = 0, ie_kind = KIND_POINTER, ie_flags = 0, ie_set = 0,
     ie_scancode = 0, ie_ascii = 0, ie_buttons = buttons, ie_dx = dx, ie_dy = dy,
     ie_reserved = replicate 12 0\<rparr>"

section \<open>The ring operations\<close>

type_synonym input_ring = "input_event ring"

definition input_ring_init :: input_ring where
  "input_ring_init = ring_init RING_CAPACITY input_event_empty"

definition input_push :: "u64 \<Rightarrow> input_event \<Rightarrow> input_ring \<Rightarrow> input_ring" where
  "input_push now ev r = ring_push RING_CAPACITY (ev\<lparr>ie_ts := now\<rparr>) r"

definition input_pop :: "input_ring \<Rightarrow> input_event option \<times> input_ring" where
  "input_pop r = ring_pop RING_CAPACITY r"

definition input_dropped :: "input_ring \<Rightarrow> u64" where
  "input_dropped r = r_dropped r"

definition push_key :: "u64 \<Rightarrow> u8 \<Rightarrow> u8 \<Rightarrow> bool \<Rightarrow> u8 \<Rightarrow> input_ring \<Rightarrow> input_ring" where
  "push_key now scancode set' pressed ascii r = input_push now (input_event_key set' scancode pressed ascii) r"

definition push_pointer :: "u64 \<Rightarrow> u16 \<Rightarrow> u16 \<Rightarrow> u8 \<Rightarrow> input_ring \<Rightarrow> input_ring" where
  "push_pointer now dx dy buttons r = input_push now (input_event_pointer dx dy buttons) r"

section \<open>The boot-time self-test\<close>

text \<open>\<^verbatim>\<open>while pop().is_some() {}\<close>\<close>

function input_drain :: "input_ring \<Rightarrow> input_ring" where
  "input_drain r = (case input_pop r of (None, r') \<Rightarrow> r' | (Some _, r') \<Rightarrow> input_drain r')"
  by pat_completeness auto
termination
  by (relation "measure r_len") (auto simp: input_pop_def ring_pop_def split: if_splits)

declare input_drain.simps [simp del]

text \<open>The first check: the keys come back in order with non-decreasing timestamps.\<close>

fun check_keys :: "u8 list \<Rightarrow> u64 \<Rightarrow> input_ring \<Rightarrow> input_ring option" where
  "check_keys [] last_ts r = Some r"
| "check_keys (i # is) last_ts r =
     (case input_pop r of
        (None, _) \<Rightarrow> None
      | (Some ev, r') \<Rightarrow>
          if ie_kind ev \<noteq> KIND_KEY \<or> ie_scancode ev \<noteq> i \<or> ie_flags ev \<noteq> KEY_PRESSED then None
          else if ie_ts ev < last_ts then None
          else check_keys is (ie_ts ev) r')"

text \<open>The last check: after the overflow the oldest entry is gone and the newest is last.\<close>

fun check_scancodes :: "u8 list \<Rightarrow> input_ring \<Rightarrow> input_ring option" where
  "check_scancodes [] r = Some r"
| "check_scancodes (expected # es) r =
     (case input_pop r of
        (None, _) \<Rightarrow> None
      | (Some ev, r') \<Rightarrow> if ie_scancode ev \<noteq> expected then None else check_scancodes es r')"

definition input_selftest :: "(nat \<Rightarrow> u64) \<Rightarrow> input_ring \<Rightarrow> bool \<times> input_ring" where
  "input_selftest now r =
     (if repr_c_size input_event_layout \<noteq> INPUT_EVENT_SIZE then (False, r) else
      let r1 = fold (\<lambda>i. push_key (now i) (of_nat i) SCANCODE_SET True (of_nat i + 97)) [0..<8] (input_drain r) in
      case check_keys (map of_nat [0..<8]) 0 r1 of
        None \<Rightarrow> (False, r1)
      | Some r2 \<Rightarrow>
      let r3 = push_pointer (now 8) (-5) 7 5 r2 in
      case input_pop r3 of
        (None, r4) \<Rightarrow> (False, r4)
      | (Some ev, r4) \<Rightarrow>
      if ie_kind ev \<noteq> KIND_POINTER \<or> ie_dx ev \<noteq> -5 \<or> ie_dy ev \<noteq> 7 \<or> ie_buttons ev \<noteq> 5 then (False, r4) else
      let r5 = fold (\<lambda>i. push_key (now (9 + i)) (of_nat i) SCANCODE_SET True 0) [0..<RING_CAPACITY] r4;
          before = input_dropped r5;
          r6 = push_key (now (9 + RING_CAPACITY)) 0x7F SCANCODE_SET True 0 r5 in
      if input_dropped r6 \<noteq> before + 1 then (False, r6) else
      case check_scancodes (map (\<lambda>i. if i < RING_CAPACITY - 1 then of_nat (i + 1) else 0x7F) [0..<RING_CAPACITY]) r6 of
        None \<Rightarrow> (False, r6)
      | Some r7 \<Rightarrow> (case input_pop r7 of (x, r8) \<Rightarrow> (x = None, r8)))"

section \<open>Contract and correctness\<close>

abbreviation input_inv :: "input_ring \<Rightarrow> bool" where
  "input_inv \<equiv> ring_inv RING_CAPACITY"

abbreviation input_list :: "input_ring \<Rightarrow> input_event list" where
  "input_list \<equiv> ring_list RING_CAPACITY"

abbreviation input_stamp :: "u64 \<times> input_event \<Rightarrow> input_event" where
  "input_stamp \<equiv> \<lambda>(now, ev). ev\<lparr>ie_ts := now\<rparr>"

abbreviation input_producer :: "u64 \<times> input_event \<Rightarrow> input_ring \<Rightarrow> input_ring" where
  "input_producer \<equiv> \<lambda>(now, ev). input_push now ev"

interpretation iq: bounded_queue input_producer input_stamp input_pop input_list input_inv
  RING_CAPACITY input_dropped
proof unfold_locales
  show "input_inv s \<Longrightarrow> length (input_list s) \<le> RING_CAPACITY" for s
    by (simp add: ring_inv_def)
  show "input_inv s \<Longrightarrow> input_inv (input_producer e s)" for s e
    by (simp add: input_push_def ring_push_inv split: prod.splits)
  show "input_list (input_producer e s) =
      (if length (input_list s) = RING_CAPACITY then tl (input_list s) else input_list s) @ [input_stamp e]"
    if "input_inv s" for s e
    using that ring_push_full [OF that] ring_push_room [OF that]
    by (auto simp: input_push_def ring_inv_def split: prod.splits)
  show "input_dropped (input_producer e s) =
      (if length (input_list s) = RING_CAPACITY then input_dropped s + 1 else input_dropped s)" for s e
    by (simp add: input_push_def input_dropped_def ring_push_def Let_def split: prod.splits)
  show "input_inv s \<Longrightarrow> input_pop s = (r, s') \<Longrightarrow> input_inv s'" for s r s'
    using ring_pop_inv [of RING_CAPACITY s] by (simp add: input_pop_def)
  show "input_pop s = (None, s') \<Longrightarrow> input_list s = [] \<and> s' = s" for s s'
    by (simp add: input_pop_def ring_pop_None)
  show "input_inv s \<Longrightarrow> input_pop s = (Some e, s') \<Longrightarrow> input_list s = e # input_list s'" for s e s'
    by (simp add: input_pop_def ring_pop_Some)
  show "input_pop s = (r, s') \<Longrightarrow> input_dropped s' = input_dropped s" for s r s'
    by (auto simp: input_pop_def ring_pop_def input_dropped_def split: if_splits)
  show "0 < RING_CAPACITY" by (simp add: RING_CAPACITY_def)
qed

lemma input_drain_empty: "input_inv r \<Longrightarrow> input_inv (input_drain r) \<and> input_list (input_drain r) = []"
proof (induction r rule: input_drain.induct)
  case (1 r)
  show ?case
  proof (cases "input_list r")
    case Nil
    with iq.pop_empty [OF 1(2)] 1(2) show ?thesis by (simp add: input_drain.simps)
  next
    case (Cons e es)
    then obtain r' where "input_pop r = (Some e, r')" "input_inv r'" by (rule iq.pop_cons [OF 1(2)])
    with 1 show ?thesis by (simp add: input_drain.simps [of r])
  qed
qed

lemma check_keys_ok:
  assumes "input_inv r"
    and "input_list r = map2 (\<lambda>i t. (input_event_key SCANCODE_SET i True (i + 97))\<lparr>ie_ts := t\<rparr>) is ts"
    and "length is = length ts" and "sorted (last_ts # ts)"
  shows "\<exists>r'. check_keys is last_ts r = Some r' \<and> input_inv r' \<and> input_list r' = [] \<and> input_dropped r' = input_dropped r"
  using assms
proof (induction "is" arbitrary: r ts last_ts)
  case (Cons i "is")
  then obtain t ts' where ts: "ts = t # ts'" by (cases ts) auto
  with Cons.prems(2) obtain r' where "input_pop r = (Some ((input_event_key SCANCODE_SET i True (i + 97))\<lparr>ie_ts := t\<rparr>), r')"
    "input_list r' = map2 (\<lambda>i t. (input_event_key SCANCODE_SET i True (i + 97))\<lparr>ie_ts := t\<rparr>) is ts'" "input_inv r'"
    "input_dropped r' = input_dropped r"
    using iq.pop_cons [OF Cons.prems(1)] by (metis (no_types, lifting) case_prod_conv list.map(2) zip_Cons_Cons)
  with Cons.IH [of r' ts' t] Cons.prems(3,4) ts show ?case by (auto simp: input_event_key_def)
qed simp

lemma check_scancodes_ok:
  assumes "input_inv r" and "map ie_scancode (input_list r) = es"
  shows "\<exists>r'. check_scancodes es r = Some r' \<and> input_inv r' \<and> input_list r' = []"
  using assms
proof (induction es arbitrary: r)
  case (Cons x es)
  then obtain e l where l: "input_list r = e # l" "ie_scancode e = x" "map ie_scancode l = es" by auto
  then obtain r' where "input_pop r = (Some e, r')" "input_list r' = l" "input_inv r'"
    using iq.pop_cons [OF Cons.prems(1)] by metis
  with Cons.IH [of r'] l show ?case by auto
qed simp

lemma fold_push_key:
  "fold (\<lambda>i. push_key (f i) (g i) s p (h i)) xs r =
     fold input_producer (map (\<lambda>i. (f i, input_event_key s (g i) p (h i))) xs) r"
  by (induction xs arbitrary: r) (simp_all add: push_key_def)

lemma upt_8: "[0..<8] = [0, 1, 2, 3, 4, 5, 6, 7 :: nat]"
  by (simp add: numeral_eq_Suc)

lemma check_keys_burst:
  assumes "mono now" "input_inv r" "input_list r = []"
  shows "\<exists>r'. check_keys (map of_nat [0..<8]) 0
      (fold (\<lambda>i. push_key (now i) (of_nat i) SCANCODE_SET True (of_nat i + 97)) [0..<8] r) = Some r'
    \<and> input_inv r' \<and> input_list r' = []"
proof -
  let ?es = "map (\<lambda>i. (now i, input_event_key SCANCODE_SET (of_nat i) True (of_nat i + 97))) [0..<8]"
  let ?r = "fold input_producer ?es r"
  have "input_list ?r = map input_stamp ?es"
    using iq.push_many_contents [OF assms(2), of ?es] assms(3) by (simp add: RING_CAPACITY_def)
  then have "input_list ?r = map2 (\<lambda>i t. (input_event_key SCANCODE_SET i True (i + 97))\<lparr>ie_ts := t\<rparr>)
      (map of_nat [0..<8]) (map now [0..<8])" by (simp add: upt_8)
  moreover have "sorted (0 # map now [0..<8])"
    using assms(1) by (simp add: sorted_map) (simp add: sorted_wrt_upt sorted_wrt_iff_nth_less monoD)
  ultimately show ?thesis
    using check_keys_ok [OF iq.push_many_inv [OF assms(2), of ?es]] unfolding fold_push_key by fastforce
qed

lemma check_overflow:
  fixes now :: "nat \<Rightarrow> u64" and r
  defines "r5 \<equiv> fold (\<lambda>i. push_key (now (9 + i)) (of_nat i) SCANCODE_SET True 0) [0..<RING_CAPACITY] r"
  defines "r6 \<equiv> push_key (now (9 + RING_CAPACITY)) 0x7F SCANCODE_SET True 0 r5"
  assumes "input_inv r" "input_list r = []"
  shows "input_dropped r6 = input_dropped r5 + 1 \<and> input_inv r6 \<and> map ie_scancode (input_list r6) =
    map (\<lambda>i. if i < RING_CAPACITY - 1 then of_nat (i + 1) else 0x7F) [0..<RING_CAPACITY]"
proof -
  let ?es = "map (\<lambda>i. (now (9 + i), input_event_key SCANCODE_SET (of_nat i) True 0)) [0..<RING_CAPACITY]"
  let ?last = "(now (9 + RING_CAPACITY), input_event_key SCANCODE_SET 0x7F True 0)"
  have r5: "r5 = fold input_producer ?es r" unfolding r5_def fold_push_key ..
  have i5: "input_inv r5" unfolding r5 by (rule iq.push_many_inv [OF assms(3)])
  have l5: "input_list r5 = map input_stamp ?es"
    using iq.push_many_contents [OF assms(3), of ?es] assms(4) unfolding r5 by simp
  have r6: "r6 = input_producer ?last r5" by (simp add: r6_def push_key_def)
  have "map ie_scancode (input_list r6) = map of_nat [1..<RING_CAPACITY] @ [0x7F]"
    unfolding r6 iq.push_contents [OF i5] l5
    by (simp add: input_event_key_def o_def map_tl [symmetric] tl_upt)
  moreover have "map (\<lambda>i. if i < RING_CAPACITY - 1 then of_nat (i + 1) else 0x7F) [0..<RING_CAPACITY] =
      map of_nat [1..<RING_CAPACITY] @ [0x7F :: u8]"
    by (rule nth_equalityI) (auto simp: nth_append RING_CAPACITY_def)
  moreover have "input_dropped r6 = input_dropped r5 + 1"
    unfolding r6 iq.push_drops [OF i5] using l5 by simp
  ultimately show ?thesis using iq.push_inv [OF i5, of ?last] unfolding r6 by simp
qed

section \<open>Properties\<close>

text \<open>C23. Refinement of the input ring to a bounded drop-oldest queue: after any burst of timestamped
  events the ring holds, in order, exactly the newest \<open>RING_CAPACITY\<close> of the events that were queued
  followed by the burst; the drop counter grows by exactly the number of lost events, and the
  consumer's pops return those events oldest first.\<close>

theorem input_ring_drop_oldest:
  assumes "input_inv r"
  shows "let r' = fold (\<lambda>(now, ev). input_push now ev) es r;
      lost = length (input_list r) + length es - RING_CAPACITY;
      kept = drop lost (input_list r @ map (\<lambda>(now, ev). ev\<lparr>ie_ts := now\<rparr>) es) in
    input_list r' = kept \<and> input_inv r' \<and> input_dropped r' = input_dropped r + of_nat lost
    \<and> fst (iq.pop_many RING_CAPACITY r') = kept"
  unfolding Let_def
  using iq.push_many_contents [OF assms] iq.push_many_inv [OF assms] iq.push_many_drops [OF assms]
    iq.burst [OF assms] by blast

theorem input_ring_drop_oldest_witness:
  "input_list (fold (\<lambda>(now, ev). input_push now ev) [(3, input_event_pointer 1 2 0), (5, input_event_pointer 4 4 1)]
     input_ring_init) = [(input_event_pointer 1 2 0)\<lparr>ie_ts := 3\<rparr>, (input_event_pointer 4 4 1)\<lparr>ie_ts := 5\<rparr>]"
proof -
  have "input_inv input_ring_init" unfolding input_ring_init_def
    by (rule ring_inv_init) (simp add: RING_CAPACITY_def)
  from input_ring_drop_oldest [OF this, of "[(3, input_event_pointer 1 2 0), (5, input_event_pointer 4 4 1)]"]
  show ?thesis by (simp add: input_ring_init_def RING_CAPACITY_def Let_def)
qed

text \<open>The boot-time self-test of the input ring passes from every well-formed ring state under a
  monotonic clock, and leaves the ring well-formed and empty: its layout guard, FIFO order, timestamp
  order, pointer round trip and drop-oldest checks all succeed.\<close>

theorem input_selftest_passes:
  assumes "input_inv r" and "mono now"
  shows "\<exists>r'. input_selftest now r = (True, r') \<and> input_inv r' \<and> input_list r' = []"
proof -
  have size: "repr_c_size input_event_layout = INPUT_EVENT_SIZE"
    by (simp add: repr_c_size_def input_event_layout_def align_up_def INPUT_EVENT_SIZE_def)
  note d = input_drain_empty [OF assms(1)]
  obtain r2 where r2: "check_keys (map of_nat [0..<8]) 0 (fold (\<lambda>i. push_key (now i) (of_nat i) SCANCODE_SET True
      (of_nat i + 97)) [0..<8] (input_drain r)) = Some r2" "input_inv r2" "input_list r2 = []"
    using check_keys_burst [OF assms(2)] d by blast
  let ?ev = "(input_event_pointer (-5) 7 5)\<lparr>ie_ts := now 8\<rparr>" and ?r3 = "push_pointer (now 8) (-5) 7 5 r2"
  have r3: "input_inv ?r3" "input_list ?r3 = [?ev]"
    using iq.push_inv [OF r2(2), of "(now 8, input_event_pointer (-5) 7 5)"]
      iq.push_contents [OF r2(2), of "(now 8, input_event_pointer (-5) 7 5)"] r2(3)
    by (simp_all add: push_pointer_def RING_CAPACITY_def)
  then obtain r4 where r4: "input_pop ?r3 = (Some ?ev, r4)" "input_list r4 = []" "input_inv r4"
    by (rule iq.pop_cons)
  note o = check_overflow [OF r4(3,2), of now]
  then obtain r7 where r7: "check_scancodes (map (\<lambda>i. if i < RING_CAPACITY - 1 then of_nat (i + 1) else 0x7F)
      [0..<RING_CAPACITY]) (push_key (now (9 + RING_CAPACITY)) 0x7F SCANCODE_SET True 0
      (fold (\<lambda>i. push_key (now (9 + i)) (of_nat i) SCANCODE_SET True 0) [0..<RING_CAPACITY] r4)) = Some r7"
    "input_inv r7" "input_list r7 = []" using check_scancodes_ok by blast
  have "input_selftest now r = (True, r7)"
    using size r2(1) r4(1) o r7 iq.pop_empty [OF r7(2,3)]
    by (simp add: input_selftest_def Let_def input_event_pointer_def del: upt_rec_numeral)
  with r7 show ?thesis by blast
qed

theorem input_selftest_passes_witness: "fst (input_selftest (\<lambda>k. 7) input_ring_init)"
proof -
  have "input_inv input_ring_init" unfolding input_ring_init_def
    by (rule ring_inv_init) (simp add: RING_CAPACITY_def)
  from input_selftest_passes [OF this, of "\<lambda>k. 7"] show ?thesis by (auto simp: mono_def)
qed

end
