(* ===== verification/Gfx_Event.thy ===== *)
theory Gfx_Event
  imports Ring_Buffer
begin

text \<open>
  The graphics event ring of \<^verbatim>\<open>src/kernel-core/src/graphics/event.rs\<close>: flip-complete and error events,
  the producer and the consumer, and the boot-time self-test. The clock is an argument, as in
  \<open>Input_Ring\<close>.
\<close>

section \<open>Events\<close>

definition GFX_EVENT_SIZE :: nat where "GFX_EVENT_SIZE = 32"
definition GFX_RING_CAPACITY :: nat where "GFX_RING_CAPACITY = 64"
definition FLIP_COMPLETE :: u16 where "FLIP_COMPLETE = 1"
definition ERROR_EVENT :: u16 where "ERROR_EVENT = 2"
definition CODE_NONE :: u16 where "CODE_NONE = 0"
definition CODE_GEOMETRY_MISMATCH :: u16 where "CODE_GEOMETRY_MISMATCH = 3"

record gfx_event =
  ge_ts :: u64
  ge_kind :: u16
  ge_code :: u16
  ge_fb_id :: u32
  ge_seq :: u32
  ge_reserved :: "u8 list"

definition gfx_event_layout :: "(nat \<times> nat) list" where
  "gfx_event_layout = [(8, 8), (2, 2), (2, 2), (4, 4), (4, 4), (12, 1)]"

definition gfx_event_empty :: gfx_event where
  "gfx_event_empty = \<lparr>ge_ts = 0, ge_kind = 0, ge_code = 0, ge_fb_id = 0, ge_seq = 0, ge_reserved = replicate 12 0\<rparr>"

definition gfx_flip_complete :: "u32 \<Rightarrow> u32 \<Rightarrow> gfx_event" where
  "gfx_flip_complete fb_id seq = \<lparr>ge_ts = 0, ge_kind = FLIP_COMPLETE, ge_code = CODE_NONE, ge_fb_id = fb_id,
     ge_seq = seq, ge_reserved = replicate 12 0\<rparr>"

definition gfx_error :: "u32 \<Rightarrow> u16 \<Rightarrow> gfx_event" where
  "gfx_error fb_id code = \<lparr>ge_ts = 0, ge_kind = ERROR_EVENT, ge_code = code, ge_fb_id = fb_id, ge_seq = 0,
     ge_reserved = replicate 12 0\<rparr>"

section \<open>The ring operations\<close>

type_synonym gfx_ring = "gfx_event ring"

definition gfx_ring_init :: gfx_ring where
  "gfx_ring_init = ring_init GFX_RING_CAPACITY gfx_event_empty"

definition gfx_push :: "u64 \<Rightarrow> gfx_event \<Rightarrow> gfx_ring \<Rightarrow> gfx_ring" where
  "gfx_push now ev r = ring_push GFX_RING_CAPACITY (ev\<lparr>ge_ts := now\<rparr>) r"

definition gfx_pop :: "gfx_ring \<Rightarrow> gfx_event option \<times> gfx_ring" where
  "gfx_pop r = ring_pop GFX_RING_CAPACITY r"

definition gfx_dropped :: "gfx_ring \<Rightarrow> u64" where
  "gfx_dropped r = r_dropped r"

section \<open>The boot-time self-test\<close>

function gfx_drain :: "gfx_ring \<Rightarrow> gfx_ring" where
  "gfx_drain r = (case gfx_pop r of (None, r') \<Rightarrow> r' | (Some _, r') \<Rightarrow> gfx_drain r')"
  by pat_completeness auto
termination
  by (relation "measure r_len") (auto simp: gfx_pop_def ring_pop_def split: if_splits)

declare gfx_drain.simps [simp del]

fun check_flips :: "u32 list \<Rightarrow> gfx_ring \<Rightarrow> gfx_ring option" where
  "check_flips [] r = Some r"
| "check_flips (i # is) r =
     (case gfx_pop r of
        (None, _) \<Rightarrow> None
      | (Some ev, r') \<Rightarrow>
          if ge_kind ev \<noteq> FLIP_COMPLETE \<or> ge_fb_id ev \<noteq> i + 1 \<or> ge_seq ev \<noteq> i then None
          else check_flips is r')"

text \<open>\<open>n\<close> pops, each of which must return an event.\<close>

fun check_pops :: "nat \<Rightarrow> gfx_ring \<Rightarrow> gfx_ring option" where
  "check_pops 0 r = Some r"
| "check_pops (Suc n) r = (case gfx_pop r of (None, _) \<Rightarrow> None | (Some _, r') \<Rightarrow> check_pops n r')"

definition gfx_selftest :: "(nat \<Rightarrow> u64) \<Rightarrow> gfx_ring \<Rightarrow> bool \<times> gfx_ring" where
  "gfx_selftest now r =
     (if repr_c_size gfx_event_layout \<noteq> GFX_EVENT_SIZE then (False, r) else
      let r1 = fold (\<lambda>i. gfx_push (now i) (gfx_flip_complete (of_nat i + 1) (of_nat i))) [0..<8] (gfx_drain r) in
      case check_flips (map of_nat [0..<8]) r1 of
        None \<Rightarrow> (False, r1)
      | Some r2 \<Rightarrow>
      let r3 = gfx_push (now 8) (gfx_error 7 CODE_GEOMETRY_MISMATCH) r2 in
      case gfx_pop r3 of
        (None, r4) \<Rightarrow> (False, r4)
      | (Some ev, r4) \<Rightarrow>
      if ge_kind ev \<noteq> ERROR_EVENT \<or> ge_fb_id ev \<noteq> 7 \<or> ge_code ev \<noteq> CODE_GEOMETRY_MISMATCH then (False, r4) else
      let r5 = fold (\<lambda>i. gfx_push (now (9 + i)) (gfx_flip_complete 1 1)) [0..<GFX_RING_CAPACITY] r4;
          before = gfx_dropped r5;
          r6 = gfx_push (now (9 + GFX_RING_CAPACITY)) (gfx_flip_complete 2 2) r5 in
      if gfx_dropped r6 \<noteq> before + 1 then (False, r6) else
      case check_pops GFX_RING_CAPACITY r6 of
        None \<Rightarrow> (False, r6)
      | Some r7 \<Rightarrow> (case gfx_pop r7 of (x, r8) \<Rightarrow> (x = None, r8)))"

section \<open>Contract and correctness\<close>

abbreviation gfx_inv :: "gfx_ring \<Rightarrow> bool" where
  "gfx_inv \<equiv> ring_inv GFX_RING_CAPACITY"

abbreviation gfx_list :: "gfx_ring \<Rightarrow> gfx_event list" where
  "gfx_list \<equiv> ring_list GFX_RING_CAPACITY"

abbreviation gfx_stamp :: "u64 \<times> gfx_event \<Rightarrow> gfx_event" where
  "gfx_stamp \<equiv> \<lambda>(now, ev). ev\<lparr>ge_ts := now\<rparr>"

abbreviation gfx_producer :: "u64 \<times> gfx_event \<Rightarrow> gfx_ring \<Rightarrow> gfx_ring" where
  "gfx_producer \<equiv> \<lambda>(now, ev). gfx_push now ev"

interpretation gq: bounded_queue gfx_producer gfx_stamp gfx_pop gfx_list gfx_inv GFX_RING_CAPACITY gfx_dropped
proof unfold_locales
  show "gfx_inv s \<Longrightarrow> length (gfx_list s) \<le> GFX_RING_CAPACITY" for s
    by (simp add: ring_inv_def)
  show "gfx_inv s \<Longrightarrow> gfx_inv (gfx_producer e s)" for s e
    by (simp add: gfx_push_def ring_push_inv split: prod.splits)
  show "gfx_list (gfx_producer e s) =
      (if length (gfx_list s) = GFX_RING_CAPACITY then tl (gfx_list s) else gfx_list s) @ [gfx_stamp e]"
    if "gfx_inv s" for s e
    using that ring_push_full [OF that] ring_push_room [OF that]
    by (auto simp: gfx_push_def ring_inv_def split: prod.splits)
  show "gfx_dropped (gfx_producer e s) =
      (if length (gfx_list s) = GFX_RING_CAPACITY then gfx_dropped s + 1 else gfx_dropped s)" for s e
    by (simp add: gfx_push_def gfx_dropped_def ring_push_def Let_def split: prod.splits)
  show "gfx_inv s \<Longrightarrow> gfx_pop s = (r, s') \<Longrightarrow> gfx_inv s'" for s r s'
    using ring_pop_inv [of GFX_RING_CAPACITY s] by (simp add: gfx_pop_def)
  show "gfx_pop s = (None, s') \<Longrightarrow> gfx_list s = [] \<and> s' = s" for s s'
    by (simp add: gfx_pop_def ring_pop_None)
  show "gfx_inv s \<Longrightarrow> gfx_pop s = (Some e, s') \<Longrightarrow> gfx_list s = e # gfx_list s'" for s e s'
    by (simp add: gfx_pop_def ring_pop_Some)
  show "gfx_pop s = (r, s') \<Longrightarrow> gfx_dropped s' = gfx_dropped s" for s r s'
    by (auto simp: gfx_pop_def ring_pop_def gfx_dropped_def split: if_splits)
  show "0 < GFX_RING_CAPACITY" by (simp add: GFX_RING_CAPACITY_def)
qed

lemma gfx_drain_empty: "gfx_inv r \<Longrightarrow> gfx_inv (gfx_drain r) \<and> gfx_list (gfx_drain r) = []"
proof (induction r rule: gfx_drain.induct)
  case (1 r)
  show ?case
  proof (cases "gfx_list r")
    case Nil
    with gq.pop_empty [OF 1(2)] 1(2) show ?thesis by (simp add: gfx_drain.simps)
  next
    case (Cons e es)
    then obtain r' where "gfx_pop r = (Some e, r')" "gfx_inv r'" by (rule gq.pop_cons [OF 1(2)])
    with 1 show ?thesis by (simp add: gfx_drain.simps [of r])
  qed
qed

lemma check_flips_ok:
  assumes "gfx_inv r"
    and "list_all2 (\<lambda>i ev. ge_kind ev = FLIP_COMPLETE \<and> ge_fb_id ev = i + 1 \<and> ge_seq ev = i) is (gfx_list r)"
  shows "\<exists>r'. check_flips is r = Some r' \<and> gfx_inv r' \<and> gfx_list r' = []"
  using assms
proof (induction "is" arbitrary: r)
  case (Cons i "is")
  then obtain e es where e: "gfx_list r = e # es" by (auto simp: list_all2_Cons1)
  then obtain r' where "gfx_pop r = (Some e, r')" "gfx_list r' = es" "gfx_inv r'"
    by (rule gq.pop_cons [OF Cons.prems(1)])
  with Cons.IH [of r'] Cons.prems(2) e show ?case by auto
qed simp

lemma check_pops_ok:
  assumes "gfx_inv r" and "length (gfx_list r) = n"
  shows "\<exists>r'. check_pops n r = Some r' \<and> gfx_inv r' \<and> gfx_list r' = []"
  using assms
proof (induction n arbitrary: r)
  case (Suc n)
  then obtain e es where e: "gfx_list r = e # es" "length es = n" by (cases "gfx_list r") auto
  then obtain r' where r': "gfx_pop r = (Some e, r')" "gfx_list r' = es" "gfx_inv r'"
    using gq.pop_cons [OF Suc.prems(1)] by metis
  with Suc.IH [OF r'(3)] e show ?case by (simp del: length_ring_list)
qed (simp del: length_ring_list)

lemma fold_gfx_push:
  "fold (\<lambda>i. gfx_push (f i) (g i)) xs r = fold gfx_producer (map (\<lambda>i. (f i, g i)) xs) r"
  by (induction xs arbitrary: r) simp_all

lemma check_flips_burst:
  assumes "gfx_inv r" "gfx_list r = []"
  shows "\<exists>r'. check_flips (map of_nat [0..<8])
      (fold (\<lambda>i. gfx_push (now i) (gfx_flip_complete (of_nat i + 1) (of_nat i))) [0..<8] r) = Some r'
    \<and> gfx_inv r' \<and> gfx_list r' = []"
proof -
  let ?es = "map (\<lambda>i. (now i, gfx_flip_complete (of_nat i + 1) (of_nat i))) [0..<8]"
  have "gfx_list (fold gfx_producer ?es r) = map gfx_stamp ?es"
    using gq.push_many_contents [OF assms(1), of ?es] assms(2) by (simp add: GFX_RING_CAPACITY_def)
  with check_flips_ok [OF gq.push_many_inv [OF assms(1), of ?es]] show ?thesis
    unfolding fold_gfx_push
    by (simp add: list.rel_map list.rel_refl gfx_flip_complete_def list_all2_same del: upt_rec_numeral)
qed

lemma gfx_overflow:
  fixes now :: "nat \<Rightarrow> u64" and r
  defines "r5 \<equiv> fold (\<lambda>i. gfx_push (now (9 + i)) (gfx_flip_complete 1 1)) [0..<GFX_RING_CAPACITY] r"
  defines "r6 \<equiv> gfx_push (now (9 + GFX_RING_CAPACITY)) (gfx_flip_complete 2 2) r5"
  assumes "gfx_inv r" "gfx_list r = []"
  shows "gfx_dropped r6 = gfx_dropped r5 + 1 \<and> gfx_inv r6 \<and> length (gfx_list r6) = GFX_RING_CAPACITY"
proof -
  let ?es = "map (\<lambda>i. (now (9 + i), gfx_flip_complete 1 1)) [0..<GFX_RING_CAPACITY]"
  let ?last = "(now (9 + GFX_RING_CAPACITY), gfx_flip_complete 2 2)"
  have r5: "r5 = fold gfx_producer ?es r" unfolding r5_def fold_gfx_push ..
  have i5: "gfx_inv r5" unfolding r5 by (rule gq.push_many_inv [OF assms(3)])
  have l5: "length (gfx_list r5) = GFX_RING_CAPACITY"
    using gq.push_many_contents [OF assms(3), of ?es] assms(4) unfolding r5 by (simp del: length_ring_list)
  have r6: "r6 = gfx_producer ?last r5" by (simp add: r6_def)
  have "length (gfx_list r6) = GFX_RING_CAPACITY"
    unfolding r6 gq.push_contents [OF i5] using l5 gq.cap_pos by (simp del: length_ring_list)
  moreover have "gfx_dropped r6 = gfx_dropped r5 + 1"
    unfolding r6 gq.push_drops [OF i5] using l5 by simp
  ultimately show ?thesis using gq.push_inv [OF i5, of ?last] unfolding r6 by simp
qed

section \<open>Properties\<close>

text \<open>The boot-time self-test of the graphics event ring passes from every well-formed ring state,
  whatever the clock reads, and leaves the ring well-formed and empty.\<close>

theorem gfx_selftest_passes:
  assumes "gfx_inv r"
  shows "\<exists>r'. gfx_selftest now r = (True, r') \<and> gfx_inv r' \<and> gfx_list r' = []"
proof -
  have size: "repr_c_size gfx_event_layout = GFX_EVENT_SIZE"
    by (simp add: repr_c_size_def gfx_event_layout_def align_up_def GFX_EVENT_SIZE_def)
  note d = gfx_drain_empty [OF assms]
  obtain r2 where r2: "check_flips (map of_nat [0..<8]) (fold (\<lambda>i. gfx_push (now i) (gfx_flip_complete
      (of_nat i + 1) (of_nat i))) [0..<8] (gfx_drain r)) = Some r2" "gfx_inv r2" "gfx_list r2 = []"
    using check_flips_burst d by blast
  let ?in = "(now 8, gfx_error 7 CODE_GEOMETRY_MISMATCH)"
  let ?ev = "gfx_stamp ?in" and ?r3 = "gfx_push (now 8) (gfx_error 7 CODE_GEOMETRY_MISMATCH) r2"
  have r3: "gfx_inv ?r3" "gfx_list ?r3 = [?ev]"
    using gq.push_inv [OF r2(2), of ?in] gq.push_contents [OF r2(2), of ?in] r2(3)
    by (simp_all add: GFX_RING_CAPACITY_def)
  then obtain r4 where r4: "gfx_pop ?r3 = (Some ?ev, r4)" "gfx_list r4 = []" "gfx_inv r4"
    by (rule gq.pop_cons)
  note o = gfx_overflow [OF r4(3,2), of now]
  then obtain r7 where r7: "check_pops GFX_RING_CAPACITY (gfx_push (now (9 + GFX_RING_CAPACITY))
      (gfx_flip_complete 2 2) (fold (\<lambda>i. gfx_push (now (9 + i)) (gfx_flip_complete 1 1))
      [0..<GFX_RING_CAPACITY] r4)) = Some r7" "gfx_inv r7" "gfx_list r7 = []" using check_pops_ok by blast
  have "gfx_selftest now r = (True, r7)"
    using size r2(1) r4(1) o r7 gq.pop_empty [OF r7(2,3)]
    by (simp add: gfx_selftest_def Let_def gfx_error_def del: upt_rec_numeral)
  with r7 show ?thesis by blast
qed

theorem gfx_selftest_passes_witness: "fst (gfx_selftest (\<lambda>k. 0) gfx_ring_init)"
proof -
  have "gfx_inv gfx_ring_init" unfolding gfx_ring_init_def
    by (rule ring_inv_init) (simp add: GFX_RING_CAPACITY_def)
  from gfx_selftest_passes [OF this] show ?thesis by (metis fst_conv)
qed

end
