(* ===== verification/Pipe.thy ===== *)
theory Pipe
  imports Abi
begin

text \<open>
  The pipe table of \<^verbatim>\<open>src/kernel-core/src/vfs/pipe.rs\<close>: eight 512-byte buffers with a reference count
  per end. The locked bodies are functions on the table; the blocking wrappers \<open>read\<close> and \<open>write\<close>
  loop until they succeed, so they take the list of what happens during each \<^verbatim>\<open>task::sleep_ms(1)\<close>
  (whether a signal is pending before it, and what the other tasks do to the table during it) and
  return \<open>None\<close> when they are still blocked after all of it. Pipe ids come from \<open>alloc\<close>, so they
  index the table.
\<close>

section \<open>The table and its operations\<close>

definition ERR_WOULD_BLOCK :: u64 where [abi_defs]: "ERR_WOULD_BLOCK = - 1001"
definition MAX_PIPES :: nat where "MAX_PIPES = 8"
definition PIPE_BUF :: nat where "PIPE_BUF = 512"

record pipe =
  p_used :: bool
  p_len :: u16
  p_read_refs :: u8
  p_write_refs :: u8
  p_buf :: "u8 list"

definition EMPTY_PIPE :: pipe where
  "EMPTY_PIPE = \<lparr>p_used = False, p_len = 0, p_read_refs = 0, p_write_refs = 0, p_buf = replicate PIPE_BUF 0\<rparr>"

type_synonym pipes = "pipe list"

definition pipes_init :: pipes where
  "pipes_init = replicate MAX_PIPES EMPTY_PIPE"

definition pipe_alloc :: "pipes \<Rightarrow> nat option" where
  "pipe_alloc ps = find_below (\<lambda>i. \<not> p_used (ps ! i)) MAX_PIPES"

definition pipe_init :: "nat \<Rightarrow> pipes \<Rightarrow> pipes" where
  "pipe_init pn ps = ps[pn := EMPTY_PIPE\<lparr>p_used := True, p_read_refs := 1, p_write_refs := 1\<rparr>]"

text \<open>\<^verbatim>\<open>u8::saturating_sub(1)\<close>\<close>

definition sat_dec :: "u8 \<Rightarrow> u8" where
  "sat_dec n = (if n = 0 then 0 else n - 1)"

definition pipe_drop_end :: "nat \<Rightarrow> bool \<Rightarrow> pipes \<Rightarrow> pipes" where
  "pipe_drop_end pn write_end ps =
     (let p = ps ! pn in
      if \<not> p_used p then ps
      else
        let p' = (if write_end then p\<lparr>p_write_refs := sat_dec (p_write_refs p)\<rparr>
                  else p\<lparr>p_read_refs := sat_dec (p_read_refs p)\<rparr>) in
        if p_read_refs p' = 0 \<and> p_write_refs p' = 0 then ps[pn := EMPTY_PIPE] else ps[pn := p'])"

definition pipe_unread :: "nat \<Rightarrow> pipes \<Rightarrow> u64" where
  "pipe_unread pn ps = ucast (p_len (ps ! pn))"

text \<open>The bytes the reader takes out go to its buffer of \<open>n\<close> bytes: they are the result.\<close>

definition pipe_read_locked :: "nat \<Rightarrow> nat \<Rightarrow> pipes \<Rightarrow> u8 list res \<times> pipes" where
  "pipe_read_locked pn n ps =
     (let p = ps ! pn in
      if \<not> p_used p then (Inl SYS_ERR_BADF, ps)
      else if p_len p > 0 then
        let k = min (unat (p_len p)) n;
            out = take k (p_buf p);
            rest = unat (p_len p) - k;
            buf' = fold (\<lambda>i b. b[i := b ! (k + i)]) [0..<rest] (p_buf p)
        in (Inr out, ps[pn := p\<lparr>p_buf := buf', p_len := of_nat rest\<rparr>])
      else if p_write_refs p = 0 \<or> n = 0 then (Inr [], ps)
      else (Inl ERR_WOULD_BLOCK, ps))"

definition pipe_write_locked :: "nat \<Rightarrow> u8 list \<Rightarrow> pipes \<Rightarrow> nat res \<times> pipes" where
  "pipe_write_locked pn data ps =
     (let p = ps ! pn in
      if \<not> p_used p then (Inl SYS_ERR_BADF, ps)
      else if p_read_refs p = 0 then (Inl SYS_ERR_PIPE, ps)
      else
        let space = PIPE_BUF - unat (p_len p) in
        if space > 0 then
          let k = min (min space (length data)) PIPE_BUF; base = unat (p_len p) in
          (Inr k, ps[pn := p\<lparr>p_buf := take base (p_buf p) @ take k data @ drop (base + k) (p_buf p),
                             p_len := of_nat (base + k)\<rparr>])
        else (Inl ERR_WOULD_BLOCK, ps))"

text \<open>The blocking loop of \<open>read\<close> and \<open>write\<close> around a locked probe.\<close>

fun pipe_block :: "(pipes \<Rightarrow> 'a res \<times> pipes) \<Rightarrow> (bool \<times> (pipes \<Rightarrow> pipes)) list \<Rightarrow> pipes \<Rightarrow> ('a res \<times> pipes) option" where
  "pipe_block probe env ps =
     (case probe ps of
        (Inl e, ps') \<Rightarrow>
          if e = ERR_WOULD_BLOCK then
            (case env of
               [] \<Rightarrow> None
             | (pending, sleep) # env' \<Rightarrow>
                 if pending then Some (Inl SYS_ERR_INTR, ps') else pipe_block probe env' (sleep ps'))
          else Some (Inl e, ps')
      | (Inr v, ps') \<Rightarrow> Some (Inr v, ps'))"

declare pipe_block.simps [simp del]

definition pipe_read :: "nat \<Rightarrow> nat \<Rightarrow> (bool \<times> (pipes \<Rightarrow> pipes)) list \<Rightarrow> pipes \<Rightarrow> (u8 list res \<times> pipes) option" where
  "pipe_read pn n = pipe_block (pipe_read_locked pn n)"

definition pipe_write :: "nat \<Rightarrow> u8 list \<Rightarrow> (bool \<times> (pipes \<Rightarrow> pipes)) list \<Rightarrow> pipes \<Rightarrow> (nat res \<times> pipes) option" where
  "pipe_write pn data = pipe_block (pipe_write_locked pn data)"

section \<open>Invariant and abstraction\<close>

definition pipe_ok :: "pipe \<Rightarrow> bool" where
  "pipe_ok p \<longleftrightarrow> length (p_buf p) = PIPE_BUF \<and> unat (p_len p) \<le> PIPE_BUF
     \<and> (p_used p \<longleftrightarrow> p_read_refs p \<noteq> 0 \<or> p_write_refs p \<noteq> 0)"

definition pipes_inv :: "pipes \<Rightarrow> bool" where
  "pipes_inv ps \<longleftrightarrow> length ps = MAX_PIPES \<and> (\<forall>p\<in>set ps. pipe_ok p)"

text \<open>The unread bytes, oldest first.\<close>

definition pipe_data :: "nat \<Rightarrow> pipes \<Rightarrow> u8 list" where
  "pipe_data pn ps = take (unat (p_len (ps ! pn))) (p_buf (ps ! pn))"

lemma pipes_inv_nth: "pipes_inv ps \<Longrightarrow> pn < MAX_PIPES \<Longrightarrow> pipe_ok (ps ! pn)"
  by (simp add: pipes_inv_def)

lemma pipes_inv_update [keeps]: "pipes_inv ps \<Longrightarrow> pipe_ok p \<Longrightarrow> pipes_inv (ps[pn := p])"
  by (auto simp: pipes_inv_def dest: set_update_subset_insert [THEN subsetD])

lemma pipe_ok_EMPTY [simp]: "pipe_ok EMPTY_PIPE"
  by (simp add: pipe_ok_def EMPTY_PIPE_def)

lemma pipes_inv_init: "pipes_inv pipes_init"
  by (simp add: pipes_inv_def pipes_init_def)

lemma pipe_init_inv [keeps]: "pipes_inv ps \<Longrightarrow> pipes_inv (pipe_init pn ps)"
  unfolding pipe_init_def by (erule pipes_inv_update) (simp add: pipe_ok_def EMPTY_PIPE_def)

lemma pipe_drop_end_inv [keeps]:
  assumes "pipes_inv ps" "pn < MAX_PIPES"
  shows "pipes_inv (pipe_drop_end pn w ps)"
  using assms pipes_inv_nth [OF assms]
  by (auto simp: pipe_drop_end_def Let_def pipe_ok_def EMPTY_PIPE_def intro!: pipes_inv_update)

lemma shift_down_fold:
  assumes "k + n \<le> length b"
  shows "fold (\<lambda>i b. b[i := b ! (k + i)]) [0..<n] b = take n (drop k b) @ drop n b"
  using assms
proof (induction n)
  case (Suc n)
  have "(take n (drop k b) @ drop n b) ! (k + n) = b ! (k + n)"
    using Suc.prems by (simp add: nth_append add.commute)
  moreover have "drop n b = b ! n # drop (Suc n) b" "take (Suc n) (drop k b) = take n (drop k b) @ [b ! (k + n)]"
    using Suc.prems by (simp_all add: Cons_nth_drop_Suc take_Suc_conv_app_nth)
  ultimately show ?case using Suc by (simp add: list_update_append)
qed simp

text \<open>The locked read and write in terms of the unread bytes.\<close>

lemma pipe_read_locked_spec:
  assumes inv: "pipes_inv ps" and pn: "pn < MAX_PIPES" and r: "pipe_read_locked pn n ps = (r, ps')"
  shows "pipes_inv ps'" and "\<And>j. j \<noteq> pn \<Longrightarrow> ps' ! j = ps ! j"
    and "case r of Inr out \<Rightarrow> pipe_data pn ps = out @ pipe_data pn ps' \<and> length out \<le> n
           \<and> (out = [] \<longrightarrow> n = 0 \<or> pipe_data pn ps = [] \<and> p_write_refs (ps ! pn) = 0)
       | Inl e \<Rightarrow> ps' = ps \<and> (e = SYS_ERR_BADF \<and> \<not> p_used (ps ! pn)
           \<or> e = ERR_WOULD_BLOCK \<and> p_used (ps ! pn) \<and> pipe_data pn ps = [] \<and> n > 0 \<and> p_write_refs (ps ! pn) \<noteq> 0)"
proof -
  let ?p = "ps ! pn" let ?l = "unat (p_len ?p)" let ?k = "min ?l n"
  have ok: "length (p_buf ?p) = PIPE_BUF" "?l \<le> PIPE_BUF" "p_used ?p \<longleftrightarrow> p_read_refs ?p \<noteq> 0 \<or> p_write_refs ?p \<noteq> 0"
    using pipes_inv_nth [OF inv pn] by (simp_all add: pipe_ok_def)
  have len: "pn < length ps" using inv pn by (simp add: pipes_inv_def)
  have nz: "p_len ?p > 0 \<longleftrightarrow> 0 < ?l" by (simp add: word_gt_0 unat_gt_0)
  show "\<And>j. j \<noteq> pn \<Longrightarrow> ps' ! j = ps ! j"
    using r by (auto simp: pipe_read_locked_def Let_def split: if_splits)
  have "pipes_inv ps' \<and> (case r of Inr out \<Rightarrow> pipe_data pn ps = out @ pipe_data pn ps' \<and> length out \<le> n
           \<and> (out = [] \<longrightarrow> n = 0 \<or> pipe_data pn ps = [] \<and> p_write_refs (ps ! pn) = 0)
       | Inl e \<Rightarrow> ps' = ps \<and> (e = SYS_ERR_BADF \<and> \<not> p_used (ps ! pn)
           \<or> e = ERR_WOULD_BLOCK \<and> p_used (ps ! pn) \<and> pipe_data pn ps = [] \<and> n > 0 \<and> p_write_refs (ps ! pn) \<noteq> 0))"
  proof (cases "p_used ?p \<and> p_len ?p > 0")
    case True
    define k where "k = min ?l n"
    have k: "k \<le> ?l" "k \<le> n" "k = 0 \<Longrightarrow> n = 0" using True nz by (auto simp: k_def)
    let ?b = "take (?l - k) (drop k (p_buf ?p)) @ drop (?l - k) (p_buf ?p)"
    have r': "r = Inr (take k (p_buf ?p))" "ps' = ps[pn := ?p\<lparr>p_buf := ?b, p_len := of_nat (?l - k)\<rparr>]"
    proof -
      have sh: "fold (\<lambda>i b. b[i := b ! (k + i)]) [0..<?l - k] (p_buf ?p) = ?b"
        by (rule shift_down_fold) (use k ok in simp)
      have "pipe_read_locked pn n ps = (Inr (take k (p_buf ?p)), ps[pn := ?p\<lparr>p_buf := ?b, p_len := of_nat (?l - k)\<rparr>])"
        unfolding pipe_read_locked_def Let_def k_def [symmetric] sh using True by simp
      with r show "r = Inr (take k (p_buf ?p))" "ps' = ps[pn := ?p\<lparr>p_buf := ?b, p_len := of_nat (?l - k)\<rparr>]"
        by simp_all
    qed
    have u: "unat (of_nat (?l - k) :: u16) = ?l - k"
      by (rule unat_of_nat_u16) (use ok(2) in \<open>simp add: PIPE_BUF_def\<close>)
    have "length ?b = PIPE_BUF" using k ok by simp
    then have inv': "pipes_inv ps'" unfolding r'(2)
      using ok u True by (intro pipes_inv_update [OF inv]) (simp add: pipe_ok_def del: of_nat_diff)
    have d': "pipe_data pn ps' = take (?l - k) (drop k (p_buf ?p))"
      using len u ok k by (simp add: pipe_data_def r'(2) del: of_nat_diff)
    have sp: "pipe_data pn ps = take k (p_buf ?p) @ take (?l - k) (drop k (p_buf ?p))"
      unfolding pipe_data_def using take_add [of k "?l - k" "p_buf ?p"] k(1) by simp
    have "length (take k (p_buf ?p)) = k" using k ok by simp
    then have "length (take k (p_buf ?p)) \<le> n" "take k (p_buf ?p) = [] \<Longrightarrow> n = 0" using k(2,3) by auto
    with inv' sp show ?thesis unfolding r'(1) d' sum.case by blast
  next
    case False
    with r inv show ?thesis
      by (auto simp: pipe_read_locked_def Let_def pipe_data_def word_gt_0 split: if_splits)
  qed
  then show "pipes_inv ps'" and "case r of Inr out \<Rightarrow> pipe_data pn ps = out @ pipe_data pn ps' \<and> length out \<le> n
           \<and> (out = [] \<longrightarrow> n = 0 \<or> pipe_data pn ps = [] \<and> p_write_refs (ps ! pn) = 0)
       | Inl e \<Rightarrow> ps' = ps \<and> (e = SYS_ERR_BADF \<and> \<not> p_used (ps ! pn)
           \<or> e = ERR_WOULD_BLOCK \<and> p_used (ps ! pn) \<and> pipe_data pn ps = [] \<and> n > 0 \<and> p_write_refs (ps ! pn) \<noteq> 0)"
    by blast+
qed

lemma pipe_write_locked_spec:
  assumes inv: "pipes_inv ps" and pn: "pn < MAX_PIPES" and w: "pipe_write_locked pn data ps = (r, ps')"
  shows "pipes_inv ps'" and "\<And>j. j \<noteq> pn \<Longrightarrow> ps' ! j = ps ! j"
    and "case r of Inr k \<Rightarrow> k = min (PIPE_BUF - length (pipe_data pn ps)) (length data)
           \<and> pipe_data pn ps' = pipe_data pn ps @ take k data \<and> p_read_refs (ps ! pn) \<noteq> 0
       | Inl e \<Rightarrow> ps' = ps \<and> (e = SYS_ERR_BADF \<and> \<not> p_used (ps ! pn)
           \<or> e = SYS_ERR_PIPE \<and> p_used (ps ! pn) \<and> p_read_refs (ps ! pn) = 0
           \<or> e = ERR_WOULD_BLOCK \<and> p_read_refs (ps ! pn) \<noteq> 0 \<and> length (pipe_data pn ps) = PIPE_BUF)"
proof -
  let ?p = "ps ! pn" let ?l = "unat (p_len ?p)" let ?k = "min (min (PIPE_BUF - ?l) (length data)) PIPE_BUF"
  have ok: "length (p_buf ?p) = PIPE_BUF" "?l \<le> PIPE_BUF" "p_used ?p \<longleftrightarrow> p_read_refs ?p \<noteq> 0 \<or> p_write_refs ?p \<noteq> 0"
    using pipes_inv_nth [OF inv pn] by (simp_all add: pipe_ok_def)
  have len: "pn < length ps" using inv pn by (simp add: pipes_inv_def)
  have dl: "length (pipe_data pn ps) = ?l" using ok by (simp add: pipe_data_def)
  show "\<And>j. j \<noteq> pn \<Longrightarrow> ps' ! j = ps ! j"
    using w by (auto simp: pipe_write_locked_def Let_def split: if_splits)
  have "pipes_inv ps' \<and> (case r of Inr k \<Rightarrow> k = min (PIPE_BUF - length (pipe_data pn ps)) (length data)
           \<and> pipe_data pn ps' = pipe_data pn ps @ take k data \<and> p_read_refs (ps ! pn) \<noteq> 0
       | Inl e \<Rightarrow> ps' = ps \<and> (e = SYS_ERR_BADF \<and> \<not> p_used (ps ! pn)
           \<or> e = SYS_ERR_PIPE \<and> p_used (ps ! pn) \<and> p_read_refs (ps ! pn) = 0
           \<or> e = ERR_WOULD_BLOCK \<and> p_read_refs (ps ! pn) \<noteq> 0 \<and> length (pipe_data pn ps) = PIPE_BUF))"
  proof (cases "p_read_refs ?p \<noteq> 0 \<and> ?l < PIPE_BUF")
    case True
    let ?b = "take ?l (p_buf ?p) @ take ?k data @ drop (?l + ?k) (p_buf ?p)"
    have r': "r = Inr ?k" "ps' = ps[pn := ?p\<lparr>p_buf := ?b, p_len := of_nat (?l + ?k)\<rparr>]"
      using w True ok(3) by (simp_all add: pipe_write_locked_def Let_def)
    have u: "unat (of_nat (?l + ?k) :: u16) = ?l + ?k"
      by (rule unat_of_nat_u16) (use ok(2) in \<open>simp add: PIPE_BUF_def\<close>)
    have k: "?k \<le> length data" "?l + ?k \<le> PIPE_BUF" using ok(2) by auto
    have "pipes_inv ps'" unfolding r'(2)
      by (rule pipes_inv_update [OF inv]) (use ok u True k in \<open>auto simp: pipe_ok_def\<close>)
    moreover have "pipe_data pn ps' = take ?l (p_buf ?p) @ take ?k data"
      using len u ok k by (simp add: pipe_data_def r'(2))
    ultimately show ?thesis using True dl by (simp add: r'(1) pipe_data_def)
  next
    case False
    with w inv ok dl show ?thesis by (auto simp: pipe_write_locked_def Let_def split: if_splits)
  qed
  then show "pipes_inv ps'" and "case r of Inr k \<Rightarrow> k = min (PIPE_BUF - length (pipe_data pn ps)) (length data)
           \<and> pipe_data pn ps' = pipe_data pn ps @ take k data \<and> p_read_refs (ps ! pn) \<noteq> 0
       | Inl e \<Rightarrow> ps' = ps \<and> (e = SYS_ERR_BADF \<and> \<not> p_used (ps ! pn)
           \<or> e = SYS_ERR_PIPE \<and> p_used (ps ! pn) \<and> p_read_refs (ps ! pn) = 0
           \<or> e = ERR_WOULD_BLOCK \<and> p_read_refs (ps ! pn) \<noteq> 0 \<and> length (pipe_data pn ps) = PIPE_BUF)"
    by blast+
qed

section \<open>The contract of a family of byte channels\<close>

text \<open>A transfer on channel \<open>i\<close>: an attempt to send bytes, or to receive at most \<open>n\<close> bytes.\<close>

datatype transfer = Send nat "u8 list" | Receive nat nat

fun transfer_chan :: "transfer \<Rightarrow> nat" where
  "transfer_chan (Send i _) = i"
| "transfer_chan (Receive i _) = i"

text \<open>What a run moved: channel, direction (\<open>True\<close>: into the channel) and the bytes.\<close>

definition moved :: "nat \<Rightarrow> bool \<Rightarrow> (nat \<times> bool \<times> u8 list) list \<Rightarrow> u8 list" where
  "moved i w evs = concat (map (\<lambda>(j, w', b). if j = i \<and> w' = w then b else []) evs)"

lemma moved_simps [simp]:
  "moved i w [] = []"
  "moved i w ((j, w', b) # evs) = (if j = i \<and> w' = w then b else []) @ moved i w evs"
  by (simp_all add: moved_def)

locale byte_channels =
  fixes send :: "nat \<Rightarrow> u8 list \<Rightarrow> 's \<Rightarrow> u8 list \<times> 's" and receive :: "nat \<Rightarrow> nat \<Rightarrow> 's \<Rightarrow> u8 list \<times> 's"
    and data :: "nat \<Rightarrow> 's \<Rightarrow> u8 list" and inv :: "'s \<Rightarrow> bool" and chans :: nat
  assumes send_ok: "inv s \<Longrightarrow> i < chans \<Longrightarrow> send i d s = (b, s') \<Longrightarrow>
      inv s' \<and> data i s' = data i s @ b \<and> (\<exists>k. b = take k d)"
    and send_frame: "inv s \<Longrightarrow> i < chans \<Longrightarrow> send i d s = (b, s') \<Longrightarrow> j \<noteq> i \<Longrightarrow> data j s' = data j s"
    and receive_ok: "inv s \<Longrightarrow> i < chans \<Longrightarrow> receive i n s = (b, s') \<Longrightarrow>
      inv s' \<and> data i s = b @ data i s' \<and> length b \<le> n"
    and receive_frame: "inv s \<Longrightarrow> i < chans \<Longrightarrow> receive i n s = (b, s') \<Longrightarrow> j \<noteq> i \<Longrightarrow> data j s' = data j s"
begin

fun transfers :: "transfer list \<Rightarrow> 's \<Rightarrow> (nat \<times> bool \<times> u8 list) list \<times> 's" where
  "transfers [] s = ([], s)"
| "transfers (Send i d # ops) s = (case send i d s of (b, s') \<Rightarrow>
     (case transfers ops s' of (evs, t) \<Rightarrow> ((i, True, b) # evs, t)))"
| "transfers (Receive i n # ops) s = (case receive i n s of (b, s') \<Rightarrow>
     (case transfers ops s' of (evs, t) \<Rightarrow> ((i, False, b) # evs, t)))"

lemma streams:
  assumes "inv s" "list_all (\<lambda>op. transfer_chan op < chans) ops" "transfers ops s = (evs, t)"
  shows "inv t \<and> data c s @ moved c True evs = moved c False evs @ data c t"
  using assms
proof (induction ops arbitrary: s evs)
  case (Cons op ops)
  show ?case
  proof (cases op)
    case (Send i d)
    obtain b s' where b: "send i d s = (b, s')" by fastforce
    obtain evs' where e: "transfers ops s' = (evs', t)" "evs = (i, True, b) # evs'"
      using Cons.prems(3) b Send by (auto split: prod.splits)
    have i: "i < chans" using Cons.prems(2) Send by simp
    note ok = send_ok [OF Cons.prems(1) i b] and frame = send_frame [OF Cons.prems(1) i b]
    from Cons.IH [of s' evs'] ok e Cons.prems(2) have
      "inv t" "data c s' @ moved c True evs' = moved c False evs' @ data c t" by auto
    with ok frame [of c] show ?thesis by (cases "c = i") (auto simp: e(2))
  next
    case (Receive i n)
    obtain b s' where b: "receive i n s = (b, s')" by fastforce
    obtain evs' where e: "transfers ops s' = (evs', t)" "evs = (i, False, b) # evs'"
      using Cons.prems(3) b Receive by (auto split: prod.splits)
    have i: "i < chans" using Cons.prems(2) Receive by simp
    note ok = receive_ok [OF Cons.prems(1) i b] and frame = receive_frame [OF Cons.prems(1) i b]
    from Cons.IH [of s' evs'] ok e Cons.prems(2) have
      "inv t" "data c s' @ moved c True evs' = moved c False evs' @ data c t" by auto
    with ok frame [of c] show ?thesis by (cases "c = i") (auto simp: e(2))
  qed
qed simp

end

text \<open>The pipe calls as transfers: a refused call moves no bytes.\<close>

definition pipe_send :: "nat \<Rightarrow> u8 list \<Rightarrow> pipes \<Rightarrow> u8 list \<times> pipes" where
  "pipe_send pn d ps = (case pipe_write_locked pn d ps of (Inr k, ps') \<Rightarrow> (take k d, ps') | (Inl _, ps') \<Rightarrow> ([], ps'))"

definition pipe_receive :: "nat \<Rightarrow> nat \<Rightarrow> pipes \<Rightarrow> u8 list \<times> pipes" where
  "pipe_receive pn n ps = (case pipe_read_locked pn n ps of (Inr out, ps') \<Rightarrow> (out, ps') | (Inl _, ps') \<Rightarrow> ([], ps'))"

interpretation pc: byte_channels pipe_send pipe_receive pipe_data pipes_inv MAX_PIPES
proof unfold_locales
  fix s :: pipes and i d b s' j n
  assume inv: "pipes_inv s" and i: "i < MAX_PIPES"
  show "pipes_inv s' \<and> pipe_data i s' = pipe_data i s @ b \<and> (\<exists>k. b = take k d)" if "pipe_send i d s = (b, s')"
  proof (cases "pipe_write_locked i d s")
    case (Pair r t)
    note spec = pipe_write_locked_spec [OF inv i Pair]
    show ?thesis
    proof (cases r)
      case (Inl e)
      with Pair that spec(1,3) have "b = []" "s' = s" "pipes_inv s'" by (auto simp: pipe_send_def)
      then show ?thesis by (auto intro: exI [of _ 0])
    next
      case (Inr k)
      with Pair that spec(1,3) show ?thesis by (auto simp: pipe_send_def)
    qed
  qed
  show "pipe_data j s' = pipe_data j s" if "pipe_send i d s = (b, s')" "j \<noteq> i"
  proof (cases "pipe_write_locked i d s")
    case (Pair r t)
    with that have "s' = t" by (auto simp: pipe_send_def split: sum.splits)
    with pipe_write_locked_spec(2) [OF inv i Pair that(2)] show ?thesis by (simp add: pipe_data_def)
  qed
  show "pipes_inv s' \<and> pipe_data i s = b @ pipe_data i s' \<and> length b \<le> n" if "pipe_receive i n s = (b, s')"
  proof (cases "pipe_read_locked i n s")
    case (Pair r t)
    note spec = pipe_read_locked_spec [OF inv i Pair]
    from Pair that spec(1,3) show ?thesis by (cases r) (auto simp: pipe_receive_def)
  qed
  show "pipe_data j s' = pipe_data j s" if "pipe_receive i n s = (b, s')" "j \<noteq> i"
  proof (cases "pipe_read_locked i n s")
    case (Pair r t)
    with that have "s' = t" by (auto simp: pipe_receive_def split: sum.splits)
    with pipe_read_locked_spec(2) [OF inv i Pair that(2)] show ?thesis by (simp add: pipe_data_def)
  qed
qed

section \<open>Blocking\<close>

text \<open>The tables a blocked call probes, and when a reader of \<open>n\<close> bytes has to wait.\<close>

fun pipe_probes :: "(bool \<times> (pipes \<Rightarrow> pipes)) list \<Rightarrow> pipes \<Rightarrow> pipes list" where
  "pipe_probes [] ps = [ps]"
| "pipe_probes ((_, sleep) # env) ps = ps # pipe_probes env (sleep ps)"

definition reader_waits :: "nat \<Rightarrow> nat \<Rightarrow> pipes \<Rightarrow> bool" where
  "reader_waits pn n ps \<longleftrightarrow> p_used (ps ! pn) \<and> p_len (ps ! pn) = 0 \<and> p_write_refs (ps ! pn) \<noteq> 0 \<and> 0 < n"

definition writer_waits :: "nat \<Rightarrow> pipes \<Rightarrow> bool" where
  "writer_waits pn ps \<longleftrightarrow> p_used (ps ! pn) \<and> p_read_refs (ps ! pn) \<noteq> 0 \<and> PIPE_BUF \<le> unat (p_len (ps ! pn))"

lemma pipe_block_None:
  assumes "\<And>q. waits q \<Longrightarrow> probe q = (Inl ERR_WOULD_BLOCK, q)"
    and "\<And>q. \<not> waits q \<Longrightarrow> fst (probe q) \<noteq> Inl ERR_WOULD_BLOCK"
  shows "pipe_block probe env ps = None \<longleftrightarrow>
    list_all waits (pipe_probes env ps) \<and> list_all (\<lambda>(pending, _). \<not> pending) env"
proof (induction env arbitrary: ps)
  case Nil
  show ?case using assms [of ps] by (cases "waits ps") (auto simp: pipe_block.simps split: sum.splits prod.splits)
next
  case (Cons e env)
  obtain pend sleep where e: "e = (pend, sleep)" by fastforce
  show ?case
  proof (cases "waits ps")
    case True
    with assms(1) Cons e show ?thesis by (simp add: pipe_block.simps [of _ "_ # _"])
  next
    case False
    with assms(2) [OF this] e show ?thesis
      by (auto simp: pipe_block.simps [of _ "_ # _"] split: sum.splits prod.splits)
  qed
qed

lemma read_probe:
  "reader_waits pn n q \<Longrightarrow> pipe_read_locked pn n q = (Inl ERR_WOULD_BLOCK, q)"
  "\<not> reader_waits pn n q \<Longrightarrow> fst (pipe_read_locked pn n q) \<noteq> Inl ERR_WOULD_BLOCK"
  by (auto simp: reader_waits_def pipe_read_locked_def Let_def abi_defs word_gt_0)

lemma write_probe:
  "writer_waits pn q \<Longrightarrow> pipe_write_locked pn d q = (Inl ERR_WOULD_BLOCK, q)"
  "\<not> writer_waits pn q \<Longrightarrow> fst (pipe_write_locked pn d q) \<noteq> Inl ERR_WOULD_BLOCK"
  by (auto simp: writer_waits_def pipe_write_locked_def Let_def abi_defs)
lemma split_at_min:
  assumes "length a = min n (length xs)" "xs = a @ b"
  shows "a = take n xs" "b = drop n xs"
proof -
  have "a = take (length a) xs" "b = drop (length a) xs" using assms(2) by simp_all
  then show "a = take n xs" "b = drop n xs"
    using assms(1) by (cases "n \<le> length xs", simp_all)+
qed

lemma read_closed_pipe:
  assumes "pipes_inv ps" "pn < MAX_PIPES" "p_used (ps ! pn)" "p_write_refs (ps ! pn) = 0"
  shows "\<exists>ps'. pipe_read pn n env ps = Some (Inr (take n (pipe_data pn ps)), ps') \<and> pipe_data pn ps' = drop n (pipe_data pn ps)"
proof -
  obtain r ps' where r: "pipe_read_locked pn n ps = (r, ps')" by fastforce
  note spec = pipe_read_locked_spec(3) [OF assms(1,2) r]
  with assms(3,4) obtain out where out: "r = Inr out" by (cases r) auto
  have "length out = min n (length (pipe_data pn ps))"
    using r out assms(3) pipes_inv_nth [OF assms(1,2)]
    by (auto simp: pipe_read_locked_def pipe_data_def pipe_ok_def Let_def word_gt_0 min_def split: if_splits)
  moreover have "pipe_data pn ps = out @ pipe_data pn ps'" using spec out by simp
  ultimately have "out = take n (pipe_data pn ps)" "pipe_data pn ps' = drop n (pipe_data pn ps)"
    by (rule split_at_min)+
  with r out show ?thesis by (simp add: pipe_read_def pipe_block.simps [of _ env])
qed

section \<open>Properties\<close>

text \<open>C10. Pipes are lossless FIFO byte streams, isolated from each other: in every interleaving of
  locked reads and writes on all pipes, for each pipe the bytes already queued followed by the bytes
  the writes accepted are exactly the bytes the reads returned followed by the bytes still queued;
  and the table invariant (at most 512 queued bytes, a pipe is in use iff an end is open) is kept.\<close>

theorem pipe_streams_fifo:
  assumes "pipes_inv ps" and "list_all (\<lambda>op. transfer_chan op < MAX_PIPES) ops"
    and "pc.transfers ops ps = (evs, ps')"
  shows "pipes_inv ps' \<and> pipe_data pn ps @ moved pn True evs = moved pn False evs @ pipe_data pn ps'"
  using assms by (rule pc.streams)

definition demo_pipes :: pipes where
  "demo_pipes = pipe_init 1 (pipe_init 0 pipes_init)"

lemma demo_pipes_inv: "pipes_inv demo_pipes"
  by (simp add: demo_pipes_def keeps pipes_inv_init)

theorem pipe_streams_fifo_witness:
  "pipe_data 0 demo_pipes
     @ moved 0 True (fst (pc.transfers [Send 0 [7, 8], Send 1 [9], Receive 0 1] demo_pipes))
   = moved 0 False (fst (pc.transfers [Send 0 [7, 8], Send 1 [9], Receive 0 1] demo_pipes))
     @ pipe_data 0 (snd (pc.transfers [Send 0 [7, 8], Send 1 [9], Receive 0 1] demo_pipes))"
proof -
  have "list_all (\<lambda>op. transfer_chan op < MAX_PIPES) [Send 0 [7, 8], Send 1 [9], Receive 0 1]"
    by (simp add: MAX_PIPES_def)
  from pipe_streams_fifo [OF demo_pipes_inv this prod.collapse [symmetric]] show ?thesis by blast
qed

text \<open>C24. When a pipe call stays blocked: \<open>read\<close> is still waiting after a series of sleeps exactly when
  at every probe the pipe was open for writing and empty and the request non-empty, and no signal was
  pending; \<open>write\<close> exactly when at every probe a reader existed and the buffer was full, and no
  signal was pending. So a call never sleeps past data, free space, end-of-file or a broken pipe.\<close>

theorem pipe_blocked_iff:
  "(pipe_read pn n env ps = None \<longleftrightarrow>
      list_all (reader_waits pn n) (pipe_probes env ps) \<and> list_all (\<lambda>(pending, _). \<not> pending) env)
   \<and> (pipe_write pn d env ps = None \<longleftrightarrow>
      list_all (writer_waits pn) (pipe_probes env ps) \<and> list_all (\<lambda>(pending, _). \<not> pending) env)"
  unfolding pipe_read_def pipe_write_def
  by (intro conjI pipe_block_None) (simp_all add: read_probe write_probe)

text \<open>Closing the ends: when the last writer closes, queued bytes stay readable, every later \<open>read\<close>
  returns at once with the next bytes and then end-of-file (zero bytes); when the last reader closes,
  every later \<open>write\<close> fails at once with EPIPE; when both ends are closed the slot is free again.\<close>

theorem pipe_close_ends:
  assumes "pipes_inv ps" and "pn < MAX_PIPES" and "p_read_refs (ps ! pn) = 1" and "p_write_refs (ps ! pn) = 1"
  shows "(\<exists>ps'. pipe_read pn n env (pipe_drop_end pn True ps) = Some (Inr (take n (pipe_data pn ps)), ps')
            \<and> pipe_data pn ps' = drop n (pipe_data pn ps))
    \<and> pipe_write pn d env (pipe_drop_end pn False ps) = Some (Inl SYS_ERR_PIPE, pipe_drop_end pn False ps)
    \<and> pipe_drop_end pn True (pipe_drop_end pn False ps) = ps[pn := EMPTY_PIPE]"
proof -
  have used: "p_used (ps ! pn)" and len: "pn < length ps"
    using pipes_inv_nth [OF assms(1,2)] assms(1-3) by (auto simp: pipe_ok_def pipes_inv_def)
  let ?w = "pipe_drop_end pn True ps" and ?r = "pipe_drop_end pn False ps"
  have "?w = ps[pn := (ps ! pn)\<lparr>p_write_refs := 0\<rparr>]" "?r = ps[pn := (ps ! pn)\<lparr>p_read_refs := 0\<rparr>]"
    using used assms(3,4) by (simp_all add: pipe_drop_end_def Let_def sat_dec_def)
  then have w: "p_used (?w ! pn)" "p_write_refs (?w ! pn) = 0" "pipe_data pn ?w = pipe_data pn ps"
    and r: "p_used (?r ! pn)" "p_read_refs (?r ! pn) = 0" "p_write_refs (?r ! pn) = 1" "length ?r = length ps"
      "?r[pn := EMPTY_PIPE] = ps[pn := EMPTY_PIPE]"
    using used len assms(4) by (simp_all add: pipe_data_def)
  have "pipe_write pn d env ?r = Some (Inl SYS_ERR_PIPE, ?r)"
    using r by (simp add: pipe_write_def pipe_block.simps [of _ env] pipe_write_locked_def abi_defs)
  moreover have "pipe_drop_end pn True ?r = ps[pn := EMPTY_PIPE]"
    using r by (simp add: pipe_drop_end_def [of pn True] Let_def sat_dec_def)
  ultimately show ?thesis
    using read_closed_pipe [OF pipe_drop_end_inv [OF assms(1,2)] assms(2) w(1,2)] w(3) by simp
qed

theorem pipe_close_ends_witness:
  "pipe_write 0 [1, 2] [] (pipe_drop_end 0 False demo_pipes) = Some (Inl SYS_ERR_PIPE, pipe_drop_end 0 False demo_pipes)"
proof -
  have "p_read_refs (demo_pipes ! 0) = 1" "p_write_refs (demo_pipes ! 0) = 1"
    by (simp_all add: demo_pipes_def pipe_init_def pipes_init_def MAX_PIPES_def)
  with pipe_close_ends [OF demo_pipes_inv, of 0] show ?thesis by (simp add: MAX_PIPES_def)
qed

end
