(* ===== verification/Tmpfs.thy ===== *)
theory Tmpfs
  imports Abi
begin

text \<open>
  The in-memory file system of \<^verbatim>\<open>src/kernel-core/src/vfs/tmpfs.rs\<close> and \<^verbatim>\<open>tmpfs_file.rs\<close>: 32 nodes, 8 of
  them fixed, and a byte pool handed out in 8 KiB chunks. The state is the node table, the pool, its
  bump pointer and the \<open>INIT\<close> flag. Node ids are table indices. File offsets are 64-bit words, so
  the bound check of \<open>write\<close> is the wrapping one of the code, and a slice outside the pool is the
  result \<open>None\<close> (the code panics there).
\<close>

section \<open>State\<close>

definition NAME_MAX :: nat where "NAME_MAX = 31"
definition MAX_NODES :: nat where "MAX_NODES = 32"
definition MAX_FILES :: nat where "MAX_FILES = 8"
definition FILE_CAP :: nat where "FILE_CAP = 8 * 1024"
definition ROOT :: nat where "ROOT = 0"
definition CONSOLE :: nat where "CONSOLE = 2"
definition POOL_BYTES :: nat where "POOL_BYTES = MAX_FILES * FILE_CAP"

lemmas tmpfs_consts = NAME_MAX_def MAX_NODES_def MAX_FILES_def FILE_CAP_def ROOT_def POOL_BYTES_def

datatype kind = Dir | File | Console | Null

record node =
  n_used :: bool
  n_kind :: kind
  n_parent :: nat
  n_name_len :: u8
  n_name :: "u8 list"
  n_size :: u32
  n_off :: u32

definition EMPTY_NODE :: node where
  "EMPTY_NODE = \<lparr>n_used = False, n_kind = Dir, n_parent = 0, n_name_len = 0,
     n_name = replicate (NAME_MAX + 1) 0, n_size = 0, n_off = 0\<rparr>"

record tmpfs =
  tf_init :: bool
  tf_nodes :: "node list"
  tf_pool :: "u8 list"
  tf_pool_end :: nat

definition tmpfs_boot :: tmpfs where
  "tmpfs_boot = \<lparr>tf_init = False, tf_nodes = replicate MAX_NODES EMPTY_NODE,
     tf_pool = replicate POOL_BYTES 0, tf_pool_end = 0\<rparr>"

text \<open>Writing a name into the fixed-size array of a node leaves the bytes behind it.\<close>

definition set_name :: "u8 list \<Rightarrow> node \<Rightarrow> node" where
  "set_name name n = n\<lparr>n_name_len := of_nat (length name), n_name := name @ drop (length name) (n_name n)\<rparr>"

definition node_name :: "node \<Rightarrow> u8 list" where
  "node_name n = take (unat (n_name_len n)) (n_name n)"

definition fixed_node :: "kind \<Rightarrow> nat \<Rightarrow> string \<Rightarrow> node" where
  "fixed_node k parent name =
     set_name (bytes_of name) (EMPTY_NODE\<lparr>n_used := True, n_kind := k, n_parent := parent\<rparr>)"

definition fixed_nodes :: "node list" where
  "fixed_nodes = [fixed_node Dir ROOT ''/'', fixed_node Dir ROOT ''dev'', fixed_node Console 1 ''console'',
     fixed_node Null 1 ''null'', fixed_node Dir ROOT ''tmp'', fixed_node Dir ROOT ''etc'',
     fixed_node Dir ROOT ''bin'', fixed_node Dir ROOT ''usr'']"

definition tmpfs_ensure_init :: "tmpfs \<Rightarrow> tmpfs" where
  "tmpfs_ensure_init t =
     (if tf_init t then t
      else t\<lparr>tf_init := True, tf_nodes := fixed_nodes @ drop (length fixed_nodes) (tf_nodes t)\<rparr>)"

abbreviation node_at :: "tmpfs \<Rightarrow> nat \<Rightarrow> node" where
  "node_at t i \<equiv> tf_nodes t ! i"

definition tmpfs_kind :: "tmpfs \<Rightarrow> nat \<Rightarrow> kind" where
  "tmpfs_kind t i = n_kind (node_at (tmpfs_ensure_init t) i)"

definition tmpfs_parent :: "tmpfs \<Rightarrow> nat \<Rightarrow> nat" where
  "tmpfs_parent t i = n_parent (node_at t i)"

section \<open>Tree operations\<close>

definition find_child :: "tmpfs \<Rightarrow> nat \<Rightarrow> u8 list \<Rightarrow> nat option" where
  "find_child t dir name =
     find_below (\<lambda>i. n_used (node_at t i) \<and> n_parent (node_at t i) = dir \<and> node_name (node_at t i) = name) MAX_NODES"

abbreviation SLASH :: u8 where "SLASH \<equiv> 47"
abbreviation DOT :: u8 where "DOT \<equiv> 46"

definition valid_name :: "u8 list \<Rightarrow> bool" where
  "valid_name name \<longleftrightarrow> name \<noteq> [] \<and> length name \<le> NAME_MAX \<and> name \<noteq> [DOT] \<and> name \<noteq> [DOT, DOT]
     \<and> SLASH \<notin> set name"

lemma path_rest_shorter:
  assumes "dropWhile (\<lambda>b. b = s) path \<noteq> []"
  shows "length (dropWhile (\<lambda>b. b \<noteq> s) (dropWhile (\<lambda>b. b = s) path)) < length path"
proof -
  have "hd (dropWhile (\<lambda>b. b = s) path) \<noteq> s" using assms hd_dropWhile [of "\<lambda>b. b = s"] by blast
  then obtain x xs where "dropWhile (\<lambda>b. b = s) path = x # xs" "x \<noteq> s"
    using assms by (cases "dropWhile (\<lambda>b. b = s) path") auto
  moreover have "length (dropWhile (\<lambda>b. b = s) path) \<le> length path" by (rule length_dropWhile_le)
  ultimately show ?thesis using length_dropWhile_le [of "\<lambda>b. b \<noteq> s" xs] by simp
qed

text \<open>The component loop of \<open>lookup\<close>: skip slashes, take a component, step.\<close>

function lookup_from :: "tmpfs \<Rightarrow> nat \<Rightarrow> u8 list \<Rightarrow> nat res" where
  "lookup_from t cur path =
     (let p = dropWhile (\<lambda>b. b = SLASH) path;
          comp = takeWhile (\<lambda>b. b \<noteq> SLASH) p;
          rest = dropWhile (\<lambda>b. b \<noteq> SLASH) p in
      if p = [] then Inr cur
      else if comp = [DOT] then lookup_from t cur rest
      else if comp = [DOT, DOT] then lookup_from t (tmpfs_parent t cur) rest
      else if length comp > NAME_MAX then Inl SYS_ERR_NAMETOOLONG
      else if tmpfs_kind t cur \<noteq> Dir then Inl SYS_ERR_NOTDIR
      else (case find_child t cur comp of
              None \<Rightarrow> Inl SYS_ERR_NOENT
            | Some c \<Rightarrow> lookup_from t c rest))"
  by pat_completeness auto
termination
  by (relation "measure (\<lambda>(t, cur, path). length path)") (auto simp: path_rest_shorter)

declare lookup_from.simps [simp del]

definition tmpfs_lookup :: "nat \<Rightarrow> u8 list \<Rightarrow> tmpfs \<Rightarrow> nat res \<times> tmpfs" where
  "tmpfs_lookup cwd path t =
     (let t = tmpfs_ensure_init t in
      if path = [] then (Inl SYS_ERR_NOENT, t)
      else (lookup_from t (if hd path = SLASH then ROOT else cwd) path, t))"

definition count_files :: "tmpfs \<Rightarrow> nat" where
  "count_files t = length (filter (\<lambda>i. n_used (node_at t i) \<and> n_kind (node_at t i) = File) [0..<MAX_NODES])"

definition has_children :: "tmpfs \<Rightarrow> nat \<Rightarrow> bool" where
  "has_children t d \<longleftrightarrow> list_ex (\<lambda>i. n_used (node_at t i) \<and> i \<noteq> d \<and> n_parent (node_at t i) = d) [0..<MAX_NODES]"

definition pool_reserve :: "tmpfs \<Rightarrow> u32 res \<times> tmpfs" where
  "pool_reserve t =
     (let off = tf_pool_end t in
      if off + FILE_CAP > POOL_BYTES then (Inl SYS_ERR_NOSPC, t)
      else (Inr (of_nat off), t\<lparr>tf_pool_end := off + FILE_CAP\<rparr>))"

definition put_node :: "nat \<Rightarrow> node \<Rightarrow> tmpfs \<Rightarrow> tmpfs" where
  "put_node i n t = t\<lparr>tf_nodes := (tf_nodes t)[i := n]\<rparr>"

definition tmpfs_create :: "nat \<Rightarrow> u8 list \<Rightarrow> kind \<Rightarrow> tmpfs \<Rightarrow> nat res \<times> tmpfs" where
  "tmpfs_create parent_id name want t =
     (let t = tmpfs_ensure_init t in
      if want \<noteq> Dir \<and> want \<noteq> File then (Inl SYS_ERR_PERM, t)
      else if tmpfs_kind t parent_id \<noteq> Dir then (Inl SYS_ERR_NOTDIR, t)
      else if \<not> valid_name name then (Inl SYS_ERR_NAMETOOLONG, t)
      else if find_child t parent_id name \<noteq> None then (Inl SYS_ERR_EXIST, t)
      else if want = File \<and> count_files t \<ge> MAX_FILES then (Inl SYS_ERR_NOSPC, t)
      else case find_below (\<lambda>i. \<not> n_used (node_at t i)) MAX_NODES of
        None \<Rightarrow> (Inl SYS_ERR_NOSPC, t)
      | Some idx \<Rightarrow>
          let n = set_name name (EMPTY_NODE\<lparr>n_used := True, n_kind := want, n_parent := parent_id\<rparr>) in
          if want = File then
            (case pool_reserve t of
               (Inl e, t') \<Rightarrow> (Inl e, t')
             | (Inr off, t') \<Rightarrow> (Inr idx, put_node idx (n\<lparr>n_off := off\<rparr>) t'))
          else (Inr idx, put_node idx n t))"

definition tmpfs_remove :: "nat \<Rightarrow> tmpfs \<Rightarrow> unit res \<times> tmpfs" where
  "tmpfs_remove i t =
     (let t = tmpfs_ensure_init t; n = node_at t i in
      if \<not> n_used n \<or> i \<le> 7 then (Inl SYS_ERR_PERM, t)
      else if n_kind n = Dir \<and> has_children t i then (Inl SYS_ERR_NOTEMPTY, t)
      else (Inr (), put_node i (n\<lparr>n_used := False\<rparr>) t))"

definition tmpfs_rename :: "nat \<Rightarrow> nat \<Rightarrow> u8 list \<Rightarrow> tmpfs \<Rightarrow> unit res \<times> tmpfs" where
  "tmpfs_rename i new_parent new_name t =
     (let t = tmpfs_ensure_init t in
      if \<not> n_used (node_at t i) \<or> i \<le> 7 then (Inl SYS_ERR_PERM, t)
      else if tmpfs_kind t new_parent \<noteq> Dir then (Inl SYS_ERR_NOTDIR, t)
      else if \<not> valid_name new_name then (Inl SYS_ERR_NAMETOOLONG, t)
      else if (case find_child t new_parent new_name of Some other \<Rightarrow> other \<noteq> i | None \<Rightarrow> False)
      then (Inl SYS_ERR_EXIST, t)
      else (Inr (), put_node i (set_name new_name ((node_at t i)\<lparr>n_parent := new_parent\<rparr>)) t))"

section \<open>File contents, stat and directory listing\<close>

text \<open>\<open>&POOL[start..start + len]\<close>: \<open>None\<close> where the slice panics.\<close>

definition pool_slice :: "tmpfs \<Rightarrow> u64 \<Rightarrow> u64 \<Rightarrow> (nat \<times> nat) option" where
  "pool_slice t start len =
     (let fin = start + len in
      if start \<le> fin \<and> unat fin \<le> length (tf_pool t) then Some (unat start, unat fin) else None)"

definition tmpfs_read :: "nat \<Rightarrow> u64 \<Rightarrow> nat \<Rightarrow> tmpfs \<Rightarrow> u8 list res option" where
  "tmpfs_read i off buf_len t =
     (let n = node_at t i in
      if n_kind n \<noteq> File then Some (if n_kind n = Dir then Inl SYS_ERR_ISDIR else Inr [])
      else if off \<ge> ucast (n_size n) then Some (Inr [])
      else
        let start = ucast (n_off n) + off; tk = min (ucast (n_size n) - off) (of_nat buf_len) in
        (case pool_slice t start tk of
           None \<Rightarrow> None
         | Some (a, b) \<Rightarrow> Some (Inr (take (b - a) (drop a (tf_pool t))))))"

definition tmpfs_write :: "nat \<Rightarrow> u64 \<Rightarrow> u8 list \<Rightarrow> tmpfs \<Rightarrow> (nat res \<times> tmpfs) option" where
  "tmpfs_write i off data t =
     (let n = node_at t i; fin = off + of_nat (length data) in
      if n_kind n \<noteq> File then Some (Inl SYS_ERR_ISDIR, t)
      else if fin > of_nat FILE_CAP then Some (Inl SYS_ERR_NOSPC, t)
      else
        (case pool_slice t (ucast (n_off n) + off) (of_nat (length data)) of
           None \<Rightarrow> None
         | Some (a, b) \<Rightarrow>
             Some (Inr (length data),
               put_node i (n\<lparr>n_size := max (n_size n) (ucast fin)\<rparr>)
                 (t\<lparr>tf_pool := take a (tf_pool t) @ data @ drop b (tf_pool t)\<rparr>))))"

definition tmpfs_truncate :: "nat \<Rightarrow> tmpfs \<Rightarrow> tmpfs" where
  "tmpfs_truncate i t = put_node i ((node_at t i)\<lparr>n_size := 0\<rparr>) t"

definition tmpfs_size :: "nat \<Rightarrow> tmpfs \<Rightarrow> u64" where
  "tmpfs_size i t = ucast (n_size (node_at t i))"

record stat =
  st_dev :: u64
  st_ino :: u64
  st_size :: u64
  st_blocks :: u64
  st_blksize :: u64
  st_mode :: u32
  st_nlink :: u32
  st_uid :: u32
  st_gid :: u32
  st_atime_ns :: u64
  st_mtime_ns :: u64
  st_ctime_ns :: u64

definition tmpfs_stat :: "u64 \<Rightarrow> nat \<Rightarrow> tmpfs \<Rightarrow> stat" where
  "tmpfs_stat now i t =
     (let n = node_at t i;
          mode = (case n_kind n of Dir \<Rightarrow> S_IFDIR OR 0x1ED | File \<Rightarrow> S_IFREG OR 0x1A4 | _ \<Rightarrow> S_IFCHR OR 0x1B6) in
      \<lparr>st_dev = 1, st_ino = of_nat i + 1, st_size = ucast (n_size n), st_blocks = (ucast (n_size n) + 511) div 512,
       st_blksize = 512, st_mode = mode, st_nlink = (if n_kind n = Dir then 2 else 1), st_uid = 0, st_gid = 0,
       st_atime_ns = now, st_mtime_ns = now, st_ctime_ns = now\<rparr>)"

definition dir_children :: "nat \<Rightarrow> tmpfs \<Rightarrow> nat list" where
  "dir_children dir t = filter (\<lambda>i. n_used (node_at t i) \<and> n_parent (node_at t i) = dir \<and> i \<noteq> dir) [0..<MAX_NODES]"

definition dir_count :: "nat \<Rightarrow> tmpfs \<Rightarrow> nat" where
  "dir_count dir t = length (dir_children dir t)"

definition dir_entry :: "nat \<Rightarrow> nat \<Rightarrow> tmpfs \<Rightarrow> (nat \<times> nat) option" where
  "dir_entry dir index t =
     (if index < length (dir_children dir t)
      then let i = dir_children dir t ! index in Some (i, unat (n_name_len (node_at t i)))
      else None)"

definition copy_name :: "nat \<Rightarrow> nat \<Rightarrow> tmpfs \<Rightarrow> u8 list" where
  "copy_name i buf_len t = take (min (unat (n_name_len (node_at t i))) buf_len) (n_name (node_at t i))"

definition dirent_type :: "nat \<Rightarrow> tmpfs \<Rightarrow> u32" where
  "dirent_type i t = (case n_kind (node_at t i) of Dir \<Rightarrow> 4 | File \<Rightarrow> 8 | _ \<Rightarrow> 2)"

section \<open>Invariant\<close>

definition node_live :: "tmpfs \<Rightarrow> nat \<Rightarrow> bool" where
  "node_live t i \<longleftrightarrow> i < MAX_NODES \<and> n_used (node_at t i)"

definition node_ok :: "tmpfs \<Rightarrow> nat \<Rightarrow> bool" where
  "node_ok t i \<longleftrightarrow> length (n_name (node_at t i)) = NAME_MAX + 1 \<and> unat (n_name_len (node_at t i)) \<le> NAME_MAX
     \<and> (n_used (node_at t i) \<longrightarrow> node_live t (n_parent (node_at t i)) \<and> n_kind (node_at t (n_parent (node_at t i))) = Dir)"

definition names_unique :: "tmpfs \<Rightarrow> bool" where
  "names_unique t \<longleftrightarrow> (\<forall>i j. node_live t i \<and> node_live t j \<and> n_parent (node_at t i) = n_parent (node_at t j)
     \<and> node_name (node_at t i) = node_name (node_at t j) \<longrightarrow> i = j)"

definition chunk_ok :: "tmpfs \<Rightarrow> nat \<Rightarrow> bool" where
  "chunk_ok t i \<longleftrightarrow> FILE_CAP dvd unat (n_off (node_at t i)) \<and> unat (n_off (node_at t i)) + FILE_CAP \<le> tf_pool_end t
     \<and> unat (n_size (node_at t i)) \<le> FILE_CAP"

definition file_live :: "tmpfs \<Rightarrow> nat \<Rightarrow> bool" where
  "file_live t i \<longleftrightarrow> node_live t i \<and> n_kind (node_at t i) = File"

definition chunks_distinct :: "tmpfs \<Rightarrow> bool" where
  "chunks_distinct t \<longleftrightarrow> (\<forall>i j. file_live t i \<and> file_live t j \<and> n_off (node_at t i) = n_off (node_at t j) \<longrightarrow> i = j)"

definition fixed_ok :: "tmpfs \<Rightarrow> bool" where
  "fixed_ok t \<longleftrightarrow> (\<forall>i<8. n_used (node_at t i) \<and> n_kind (node_at t i) = n_kind (fixed_nodes ! i)
     \<and> n_parent (node_at t i) = n_parent (fixed_nodes ! i) \<and> node_name (node_at t i) = node_name (fixed_nodes ! i))"

definition tmpfs_inv :: "tmpfs \<Rightarrow> bool" where
  "tmpfs_inv t \<longleftrightarrow> tf_init t \<and> length (tf_nodes t) = MAX_NODES \<and> length (tf_pool t) = POOL_BYTES
     \<and> tf_pool_end t \<le> POOL_BYTES \<and> FILE_CAP dvd tf_pool_end t \<and> fixed_ok t
     \<and> (\<forall>i<MAX_NODES. node_ok t i) \<and> names_unique t
     \<and> (\<forall>i. file_live t i \<longrightarrow> chunk_ok t i) \<and> chunks_distinct t"

lemma ensure_init_id [simp]: "tf_init t \<Longrightarrow> tmpfs_ensure_init t = t"
  by (simp add: tmpfs_ensure_init_def)

lemma tmpfs_kind_init [simp]: "tf_init t \<Longrightarrow> tmpfs_kind t i = n_kind (node_at t i)"
  by (simp add: tmpfs_kind_def)

lemma tmpfs_invD:
  assumes "tmpfs_inv t"
  shows "tf_init t" "length (tf_nodes t) = MAX_NODES" "length (tf_pool t) = POOL_BYTES" "fixed_ok t"
    "i < MAX_NODES \<Longrightarrow> node_ok t i" "names_unique t" "file_live t i \<Longrightarrow> chunk_ok t i" "chunks_distinct t"
    "tf_pool_end t \<le> POOL_BYTES" "FILE_CAP dvd tf_pool_end t"
  using assms by (simp_all add: tmpfs_inv_def)

lemma put_node_simps [simp]:
  "tf_init (put_node i n t) = tf_init t" "tf_pool (put_node i n t) = tf_pool t"
  "tf_pool_end (put_node i n t) = tf_pool_end t" "length (tf_nodes (put_node i n t)) = length (tf_nodes t)"
  by (simp_all add: put_node_def)

lemma node_at_put:
  "i < length (tf_nodes t) \<Longrightarrow> node_at (put_node i n t) j = (if j = i then n else node_at t j)"
  by (auto simp: put_node_def)

lemma set_name_simps [simp]:
  "n_used (set_name nm n) = n_used n" "n_kind (set_name nm n) = n_kind n" "n_parent (set_name nm n) = n_parent n"
  "n_size (set_name nm n) = n_size n" "n_off (set_name nm n) = n_off n"
  by (simp_all add: set_name_def)

lemma node_name_set [simp]: "length nm \<le> NAME_MAX \<Longrightarrow> node_name (set_name nm n) = nm"
  by (simp add: node_name_def set_name_def unat_of_nat_u8 NAME_MAX_def)

lemma set_name_array:
  "length nm \<le> NAME_MAX \<Longrightarrow> length (n_name n) = NAME_MAX + 1 \<Longrightarrow> length (n_name (set_name nm n)) = NAME_MAX + 1"
  "length nm \<le> NAME_MAX \<Longrightarrow> unat (n_name_len (set_name nm n)) \<le> NAME_MAX"
  by (simp_all add: set_name_def unat_of_nat_u8 NAME_MAX_def)

lemma node_name_fields [simp]:
  "node_name (n\<lparr>n_used := a\<rparr>) = node_name n" "node_name (n\<lparr>n_size := b\<rparr>) = node_name n"
  "node_name (n\<lparr>n_off := c\<rparr>) = node_name n" "node_name (n\<lparr>n_parent := d\<rparr>) = node_name n"
  by (simp_all add: node_name_def)

subsection \<open>The booted tree\<close>

lemma EMPTY_NODE_simps [simp]:
  "n_used EMPTY_NODE = False" "n_kind EMPTY_NODE = Dir" "n_size EMPTY_NODE = 0" "n_off EMPTY_NODE = 0"
  "length (n_name EMPTY_NODE) = NAME_MAX + 1" "n_name_len EMPTY_NODE = 0"
  by (simp_all add: EMPTY_NODE_def)

lemma bytes_of_simps [simp]: "bytes_of [] = []" "bytes_of (c # s) = of_nat (of_char c) # bytes_of s"
  by (simp_all add: bytes_of_def)

lemma fixed_node_simps [simp]:
  "n_used (fixed_node k p s)" "n_kind (fixed_node k p s) = k" "n_parent (fixed_node k p s) = p"
  "length s \<le> 31 \<Longrightarrow> node_name (fixed_node k p s) = bytes_of s"
  "length s \<le> 31 \<Longrightarrow> length (n_name (fixed_node k p s)) = NAME_MAX + 1"
  "length s \<le> 31 \<Longrightarrow> unat (n_name_len (fixed_node k p s)) \<le> NAME_MAX"
proof -
  show "n_used (fixed_node k p s)" "n_kind (fixed_node k p s) = k" "n_parent (fixed_node k p s) = p"
    by (simp_all add: fixed_node_def)
  assume "length s \<le> 31"
  then have "length (bytes_of s) \<le> NAME_MAX" by (simp add: bytes_of_def NAME_MAX_def)
  then show "node_name (fixed_node k p s) = bytes_of s" "length (n_name (fixed_node k p s)) = NAME_MAX + 1"
    "unat (n_name_len (fixed_node k p s)) \<le> NAME_MAX"
    by (simp_all add: fixed_node_def set_name_array)
qed

definition tmpfs_fresh :: tmpfs where
  "tmpfs_fresh = tmpfs_ensure_init tmpfs_boot"

lemma fresh_nodes: "tf_nodes tmpfs_fresh = fixed_nodes @ replicate 24 EMPTY_NODE"
  by (simp add: tmpfs_fresh_def tmpfs_ensure_init_def tmpfs_boot_def fixed_nodes_def MAX_NODES_def)

lemma fresh_fields [simp]:
  "tf_init tmpfs_fresh" "length (tf_nodes tmpfs_fresh) = MAX_NODES"
  "tf_pool tmpfs_fresh = replicate POOL_BYTES 0" "tf_pool_end tmpfs_fresh = 0"
  by (simp_all add: tmpfs_fresh_def tmpfs_ensure_init_def tmpfs_boot_def fixed_nodes_def MAX_NODES_def)

lemma length_fixed_nodes [simp]: "length fixed_nodes = 8"
  by (simp add: fixed_nodes_def)

lemma fresh_node: "i < MAX_NODES \<Longrightarrow> node_at tmpfs_fresh i = (if i < 8 then fixed_nodes ! i else EMPTY_NODE)"
  by (simp add: fresh_nodes nth_append MAX_NODES_def)

lemma all_less_8: "(\<forall>i<8. P i) \<longleftrightarrow> P 0 \<and> P 1 \<and> P 2 \<and> P 3 \<and> P 4 \<and> P 5 \<and> P 6 \<and> P (7 :: nat)"
  by (auto simp: numeral_eq_Suc All_less_Suc)

lemma fresh_live: "node_live tmpfs_fresh i \<longleftrightarrow> i < 8"
proof -
  have "\<forall>i<8. n_used (fixed_nodes ! i)" unfolding all_less_8 by (simp add: fixed_nodes_def)
  then show ?thesis by (auto simp: node_live_def fresh_node MAX_NODES_def split: if_splits)
qed

lemma fixed_names_distinct:
  "\<forall>i<8. \<forall>j<8. n_parent (fixed_nodes ! i) = n_parent (fixed_nodes ! j)
     \<and> node_name (fixed_nodes ! i) = node_name (fixed_nodes ! j) \<longrightarrow> i = j"
  unfolding all_less_8 by (simp add: fixed_nodes_def ROOT_def)

lemma fixed_nodes_ok:
  "\<forall>i<8. length (n_name (fixed_nodes ! i)) = NAME_MAX + 1 \<and> unat (n_name_len (fixed_nodes ! i)) \<le> NAME_MAX
     \<and> n_kind (fixed_nodes ! i) \<noteq> File
     \<and> n_parent (fixed_nodes ! i) < 8 \<and> n_kind (fixed_nodes ! (n_parent (fixed_nodes ! i))) = Dir"
  unfolding all_less_8 by (simp add: fixed_nodes_def ROOT_def)

lemma tmpfs_inv_fresh: "tmpfs_inv tmpfs_fresh"
proof -
  have live8: "node_live tmpfs_fresh i \<Longrightarrow> node_at tmpfs_fresh i = fixed_nodes ! i" for i
    by (simp add: fresh_live fresh_node MAX_NODES_def)
  have nofile: "\<not> file_live tmpfs_fresh i" for i
    using fixed_nodes_ok live8 by (auto simp: file_live_def fresh_live)
  have "node_ok tmpfs_fresh i" if "i < MAX_NODES" for i
    using fixed_nodes_ok fresh_node [OF that] that live8
    by (cases "i < 8") (auto simp: node_ok_def fresh_live)
  moreover have "names_unique tmpfs_fresh"
    using fixed_names_distinct live8 by (auto simp: names_unique_def fresh_live)
  moreover have "fixed_ok tmpfs_fresh"
    unfolding fixed_ok_def using fresh_live live8 by (metis node_live_def)
  ultimately show ?thesis
    using nofile by (simp add: tmpfs_inv_def chunks_distinct_def MAX_NODES_def)
qed

subsection \<open>Every operation keeps the invariant\<close>

lemma find_child_Some:
  "find_child t d nm = Some c \<Longrightarrow> node_live t c \<and> n_parent (node_at t c) = d \<and> node_name (node_at t c) = nm"
  by (auto simp: find_child_def node_live_def)

lemma find_child_None:
  "find_child t d nm = None \<longleftrightarrow> (\<forall>c. node_live t c \<longrightarrow> n_parent (node_at t c) = d \<longrightarrow> node_name (node_at t c) \<noteq> nm)"
  by (auto simp: find_child_def node_live_def)

text \<open>With unique names the child search is a characterisation, not a first match.\<close>

lemma find_child_unique:
  assumes "names_unique t"
  shows "find_child t d nm = Some c \<longleftrightarrow> node_live t c \<and> n_parent (node_at t c) = d \<and> node_name (node_at t c) = nm"
proof
  assume r: "node_live t c \<and> n_parent (node_at t c) = d \<and> node_name (node_at t c) = nm"
  then have "find_child t d nm \<noteq> None" unfolding find_child_None by blast
  then obtain c' where c': "find_child t d nm = Some c'" by blast
  have "c' = c" using assms r find_child_Some [OF c'] unfolding names_unique_def by simp
  with c' show "find_child t d nm = Some c" by simp
qed (rule find_child_Some)

lemma has_children_iff: "has_children t d \<longleftrightarrow> (\<exists>i. node_live t i \<and> i \<noteq> d \<and> n_parent (node_at t i) = d)"
  by (auto simp: has_children_def list_ex_iff node_live_def)

lemma tmpfs_inv_put:
  assumes inv: "tmpfs_inv t" and i: "8 \<le> i" "i < MAX_NODES"
    and arr: "length (n_name n) = NAME_MAX + 1" "unat (n_name_len n) \<le> NAME_MAX"
    and par: "n_used n \<Longrightarrow> n_parent n = i \<and> n_kind n = Dir
      \<or> n_parent n \<noteq> i \<and> node_live t (n_parent n) \<and> n_kind (node_at t (n_parent n)) = Dir"
    and kids: "\<And>j. node_live t j \<Longrightarrow> j \<noteq> i \<Longrightarrow> n_parent (node_at t j) = i \<Longrightarrow> n_used n \<and> n_kind n = Dir"
    and uniq: "\<And>j. n_used n \<Longrightarrow> node_live t j \<Longrightarrow> j \<noteq> i \<Longrightarrow> n_parent (node_at t j) = n_parent n \<Longrightarrow>
      node_name (node_at t j) \<noteq> node_name n"
    and chunk: "n_used n \<Longrightarrow> n_kind n = File \<Longrightarrow> FILE_CAP dvd unat (n_off n)
      \<and> unat (n_off n) + FILE_CAP \<le> tf_pool_end t \<and> unat (n_size n) \<le> FILE_CAP"
    and sep: "\<And>j. n_used n \<Longrightarrow> n_kind n = File \<Longrightarrow> file_live t j \<Longrightarrow> j \<noteq> i \<Longrightarrow> n_off (node_at t j) \<noteq> n_off n"
  shows "tmpfs_inv (put_node i n t)"
proof -
  let ?t = "put_node i n t"
  note d = tmpfs_invD [OF inv]
  have at: "node_at ?t j = (if j = i then n else node_at t j)" for j
    using i d(2) by (simp add: node_at_put)
  have live: "node_live ?t j \<longleftrightarrow> (if j = i then n_used n else node_live t j)" for j
    using i by (simp add: node_live_def at)
  have fl: "file_live ?t j \<longleftrightarrow> (if j = i then n_used n \<and> n_kind n = File else file_live t j)" for j
    by (simp add: file_live_def live at)
  have "node_ok ?t j" if j: "j < MAX_NODES" for j
  proof (cases "j = i")
    case True
    then show ?thesis using arr par by (auto simp: node_ok_def at live)
  next
    case False
    have "node_live ?t (n_parent (node_at t j)) \<and> n_kind (node_at ?t (n_parent (node_at t j))) = Dir" if "n_used (node_at t j)"
      using d(5) [OF j] that kids [of j] False j by (auto simp: node_ok_def at live node_live_def [of t j])
    with d(5) [OF j] False show ?thesis by (simp add: node_ok_def [of ?t] at) (simp add: node_ok_def)
  qed
  moreover have "names_unique ?t"
    unfolding names_unique_def
  proof (intro allI impI, elim conjE)
    fix a b assume h: "node_live ?t a" "node_live ?t b" "n_parent (node_at ?t a) = n_parent (node_at ?t b)"
      "node_name (node_at ?t a) = node_name (node_at ?t b)"
    show "a = b"
    proof (cases "a = i \<or> b = i")
      case True
      with h uniq [of a] uniq [of b] show ?thesis by (auto simp: at live split: if_splits)
    next
      case False
      with h d(6) show ?thesis by (simp add: at live names_unique_def)
    qed
  qed
  moreover have "fixed_ok ?t" using d(4) i by (simp add: fixed_ok_def at)
  moreover have "chunk_ok ?t j" if "file_live ?t j" for j
    using that chunk d(7) [of j] by (auto simp: fl chunk_ok_def at split: if_splits)
  moreover have "chunks_distinct ?t"
    unfolding chunks_distinct_def
  proof (intro allI impI, elim conjE)
    fix a b assume h: "file_live ?t a" "file_live ?t b" "n_off (node_at ?t a) = n_off (node_at ?t b)"
    show "a = b"
    proof (cases "a = i \<or> b = i")
      case True
      with h sep [of a] sep [of b] show ?thesis by (auto simp: at fl split: if_splits)
    next
      case False
      with h d(8) show ?thesis by (simp add: at fl chunks_distinct_def)
    qed
  qed
  ultimately show ?thesis using d by (simp add: tmpfs_inv_def)
qed

text \<open>The bump pointer and the pool bytes can change without touching the tree.\<close>

lemma tmpfs_inv_pool:
  assumes "tmpfs_inv t" "tf_pool_end t \<le> e" "e \<le> POOL_BYTES" "FILE_CAP dvd e" "length p = POOL_BYTES"
  shows "tmpfs_inv (t\<lparr>tf_pool := p, tf_pool_end := e\<rparr>)"
proof -
  let ?t = "t\<lparr>tf_pool := p, tf_pool_end := e\<rparr>"
  have live: "node_live ?t = node_live t" by (simp add: node_live_def fun_eq_iff)
  then have fl: "file_live ?t = file_live t" by (simp add: file_live_def fun_eq_iff)
  have "chunk_ok ?t i" if "file_live t i" for i
    using tmpfs_invD(7) [OF assms(1) that] assms(2) by (simp add: chunk_ok_def)
  moreover have "names_unique ?t" using tmpfs_invD(6) [OF assms(1)] by (simp add: names_unique_def live)
  moreover have "chunks_distinct ?t" using tmpfs_invD(8) [OF assms(1)] by (simp add: chunks_distinct_def fl)
  moreover have "node_ok ?t i" if "i < MAX_NODES" for i
    using tmpfs_invD(5) [OF assms(1) that] by (simp add: node_ok_def live)
  moreover have "fixed_ok ?t" using tmpfs_invD(4) [OF assms(1)] by (simp add: fixed_ok_def)
  ultimately show ?thesis using assms by (simp add: tmpfs_inv_def fl)
qed

lemma fixed_not_file: "tmpfs_inv t \<Longrightarrow> i < 8 \<Longrightarrow> n_used (node_at t i) \<and> n_kind (node_at t i) \<noteq> File"
  using fixed_nodes_ok tmpfs_invD(4) [of t] by (auto simp: fixed_ok_def)

lemma free_node_high:
  assumes "tmpfs_inv t" "find_below (\<lambda>i. \<not> n_used (node_at t i)) MAX_NODES = Some idx"
  shows "8 \<le> idx" "idx < MAX_NODES" "\<not> n_used (node_at t idx)"
  using assms fixed_not_file [of t idx] by (auto simp: not_le [symmetric])

lemma live_parent: "tmpfs_inv t \<Longrightarrow> node_live t i \<Longrightarrow> node_live t (n_parent (node_at t i)) \<and> n_kind (node_at t (n_parent (node_at t i))) = Dir"
  using tmpfs_invD(5) [of t i] by (simp add: node_ok_def node_live_def)

text \<open>What a successful \<open>create\<close> did.\<close>

lemma tmpfs_create_Inr:
  assumes inv: "tmpfs_inv t" and c: "tmpfs_create p nm want t = (Inr idx, t')"
  obtains n e where "8 \<le> idx" "idx < MAX_NODES" "\<not> n_used (node_at t idx)" "valid_name nm"
    "n_kind (node_at t p) = Dir" "find_child t p nm = None" "want = Dir \<or> want = File"
    "n_used n" "n_kind n = want" "n_parent n = p" "node_name n = nm" "n_size n = 0"
    "length (n_name n) = NAME_MAX + 1" "unat (n_name_len n) \<le> NAME_MAX"
    "t' = put_node idx n (t\<lparr>tf_pool_end := e\<rparr>)"
    "if want = File then n_off n = of_nat (tf_pool_end t) \<and> e = tf_pool_end t + FILE_CAP \<and> e \<le> POOL_BYTES
     else e = tf_pool_end t"
proof -
  have i: "tf_init t" using tmpfs_invD(1) [OF inv] .
  let ?n = "set_name nm (EMPTY_NODE\<lparr>n_used := True, n_kind := want, n_parent := p\<rparr>)"
  from c i have g: "want = Dir \<or> want = File" "n_kind (node_at t p) = Dir" "valid_name nm" "find_child t p nm = None"
    by (auto simp: tmpfs_create_def Let_def split: if_splits)
  from c i g have f: "find_below (\<lambda>i. \<not> n_used (node_at t i)) MAX_NODES = Some idx"
    by (auto simp: tmpfs_create_def Let_def split: if_splits option.splits sum.splits prod.splits)
  note h = free_node_high [OF inv f]
  have nm: "length nm \<le> NAME_MAX" using g(3) by (simp add: valid_name_def)
  show thesis
  proof (cases "want = File")
    case True
    with c i g f have "t' = put_node idx (?n\<lparr>n_off := of_nat (tf_pool_end t)\<rparr>) (t\<lparr>tf_pool_end := tf_pool_end t + FILE_CAP\<rparr>)"
      "tf_pool_end t + FILE_CAP \<le> POOL_BYTES"
      by (auto simp: tmpfs_create_def pool_reserve_def Let_def simp del: find_below_Some split: if_splits)
    with g h nm True show ?thesis
      by (intro that [of "?n\<lparr>n_off := of_nat (tf_pool_end t)\<rparr>" "tf_pool_end t + FILE_CAP"]) (auto simp: set_name_array)
  next
    case False
    with c i g f have "t' = put_node idx ?n t"
      by (auto simp: tmpfs_create_def Let_def simp del: find_below_Some split: if_splits)
    with g h nm False show ?thesis
      by (intro that [of ?n "tf_pool_end t"]) (auto simp: set_name_array)
  qed
qed

lemma tmpfs_create_Inl: "tmpfs_inv t \<Longrightarrow> tmpfs_create p nm want t = (Inl e, t') \<Longrightarrow> t' = t"
  using tmpfs_invD(1) [of t]
  by (auto simp: tmpfs_create_def pool_reserve_def Let_def split: if_splits option.splits sum.splits prod.splits)

lemma tmpfs_create_inv [keeps]:
  assumes inv: "tmpfs_inv t" and p: "node_live t p"
  shows "tmpfs_inv (snd (tmpfs_create p nm want t))"
proof (cases "tmpfs_create p nm want t")
  case (Pair r t')
  show ?thesis
  proof (cases r)
    case (Inl e)
    with Pair tmpfs_create_Inl [OF inv, of p nm want e t'] inv show ?thesis by simp
  next
    case (Inr idx)
    with Pair have "tmpfs_create p nm want t = (Inr idx, t')" by simp
    then obtain n e where c: "8 \<le> idx" "idx < MAX_NODES" "\<not> n_used (node_at t idx)"
      "n_kind (node_at t p) = Dir" "find_child t p nm = None" 
      "n_kind n = want" "n_parent n = p" "node_name n = nm" "n_size n = 0"
      "length (n_name n) = NAME_MAX + 1" "unat (n_name_len n) \<le> NAME_MAX"
      "t' = put_node idx n (t\<lparr>tf_pool_end := e\<rparr>)"
      "if want = File then n_off n = of_nat (tf_pool_end t) \<and> e = tf_pool_end t + FILE_CAP \<and> e \<le> POOL_BYTES
       else e = tf_pool_end t" by (rule tmpfs_create_Inr [OF inv])
    let ?u = "t\<lparr>tf_pool_end := e\<rparr>"
    have e: "tf_pool_end t \<le> e" "e \<le> POOL_BYTES" "FILE_CAP dvd e"
      using c(13) tmpfs_invD(9,10) [OF inv] by (auto split: if_splits)
    have u: "tmpfs_inv ?u" using tmpfs_inv_pool [OF inv e, of "tf_pool t"] tmpfs_invD(3) [OF inv] by simp
    have off: "unat (of_nat (tf_pool_end t) :: u32) = tf_pool_end t"
      using tmpfs_invD(9) [OF inv] by (intro unat_of_nat_u32) (simp add: tmpfs_consts)
    have "p \<noteq> idx" using p c(3) by (auto simp: node_live_def)
    have "tmpfs_inv (put_node idx n ?u)"
    proof (rule tmpfs_inv_put [OF u c(1,2,10,11)])
      show "n_parent n = idx \<and> n_kind n = Dir \<or> n_parent n \<noteq> idx \<and> node_live ?u (n_parent n)
          \<and> n_kind (node_at ?u (n_parent n)) = Dir"
        using \<open>p \<noteq> idx\<close> p c(4,7) by (simp add: node_live_def)
      show "n_used n \<and> n_kind n = Dir" if "node_live ?u j" "n_parent (node_at ?u j) = idx" for j
        using live_parent [OF inv, of j] that c(3) by (auto simp: node_live_def)
      show "node_name (node_at ?u j) \<noteq> node_name n" if "node_live ?u j" "n_parent (node_at ?u j) = n_parent n" for j
        using that c(5,7,8) unfolding find_child_None by (simp add: node_live_def)
      show "FILE_CAP dvd unat (n_off n) \<and> unat (n_off n) + FILE_CAP \<le> tf_pool_end ?u \<and> unat (n_size n) \<le> FILE_CAP"
        if "n_kind n = File"
        using that c(6,9,13) off tmpfs_invD(10) [OF inv] by simp
      show "n_off (node_at ?u j) \<noteq> n_off n" if "n_kind n = File" "file_live ?u j" for j
        using that c(6,13) off tmpfs_invD(7) [OF inv, of j] FILE_CAP_def
        by (auto simp: file_live_def node_live_def chunk_ok_def)
    qed
    with c(12) Pair Inr show ?thesis by simp
  qed
qed

lemma tmpfs_remove_inv [keeps]:
  assumes inv: "tmpfs_inv t" and i: "i < MAX_NODES"
  shows "tmpfs_inv (snd (tmpfs_remove i t))"
proof (cases "\<not> n_used (node_at t i) \<or> i \<le> 7 \<or> n_kind (node_at t i) = Dir \<and> has_children t i")
  case True
  then show ?thesis using inv tmpfs_invD(1) [OF inv] by (auto simp: tmpfs_remove_def Let_def)
next
  case False
  let ?n = "(node_at t i)\<lparr>n_used := False\<rparr>"
  have "tmpfs_inv (put_node i ?n t)"
  proof (rule tmpfs_inv_put [OF inv _ i])
    show "8 \<le> i" using False by simp
    show "length (n_name ?n) = NAME_MAX + 1" "unat (n_name_len ?n) \<le> NAME_MAX"
      using tmpfs_invD(5) [OF inv i] by (simp_all add: node_ok_def)
    show "n_used ?n \<and> n_kind ?n = Dir" if "node_live t j" "j \<noteq> i" "n_parent (node_at t j) = i" for j
      using that False live_parent [OF inv, of j] by (auto simp: has_children_iff)
  qed simp_all
  with False show ?thesis using tmpfs_invD(1) [OF inv] by (auto simp: tmpfs_remove_def Let_def)
qed

lemma tmpfs_rename_Inr:
  assumes "tmpfs_inv t" "tmpfs_rename i p nm t = (r, t')"
  shows "if n_used (node_at t i) \<and> 8 \<le> i \<and> n_kind (node_at t p) = Dir \<and> valid_name nm \<and> find_child t p nm \<in> {None, Some i}
    then r = Inr () \<and> t' = put_node i (set_name nm ((node_at t i)\<lparr>n_parent := p\<rparr>)) t
    else (\<exists>e. r = Inl e) \<and> t' = t"
  using assms(2) tmpfs_invD(1) [OF assms(1)]
  by (auto simp: tmpfs_rename_def Let_def split: if_splits option.splits)

lemma tmpfs_rename_inv [keeps]:
  assumes inv: "tmpfs_inv t" and i: "i < MAX_NODES" and p: "node_live t p"
  shows "tmpfs_inv (snd (tmpfs_rename i p nm t))"
proof (cases "n_used (node_at t i) \<and> 8 \<le> i \<and> n_kind (node_at t p) = Dir \<and> valid_name nm \<and> find_child t p nm \<in> {None, Some i}")
  case False
  then show ?thesis using tmpfs_rename_Inr [OF inv surjective_pairing, of i p nm] inv by (auto simp del: prod.collapse split: if_splits)
next
  case True
  let ?n = "set_name nm ((node_at t i)\<lparr>n_parent := p\<rparr>)"
  have nm: "length nm \<le> NAME_MAX" using True by (simp add: valid_name_def)
  have arr: "length (n_name (node_at t i)) = NAME_MAX + 1" using tmpfs_invD(5) [OF inv i] by (simp add: node_ok_def)
  have "tmpfs_inv (put_node i ?n t)"
  proof (rule tmpfs_inv_put [OF inv _ i])
    show "8 \<le> i" using True by simp
    show "length (n_name ?n) = NAME_MAX + 1" "unat (n_name_len ?n) \<le> NAME_MAX"
      using nm arr by (simp_all add: set_name_array)
    show "n_parent ?n = i \<and> n_kind ?n = Dir \<or> n_parent ?n \<noteq> i \<and> node_live t (n_parent ?n) \<and> n_kind (node_at t (n_parent ?n)) = Dir"
      using True p by auto
    show "n_used ?n \<and> n_kind ?n = Dir" if "node_live t j" "n_parent (node_at t j) = i" for j
      using live_parent [OF inv that(1)] that(2) by (auto simp: node_live_def)
    show "node_name (node_at t j) \<noteq> node_name ?n" if "node_live t j" "j \<noteq> i" "n_parent (node_at t j) = n_parent ?n" for j
      using True that find_child_unique [OF tmpfs_invD(6) [OF inv], of p nm j] nm by auto
    have fl: "file_live t i" if "n_kind ?n = File" using that True i by (simp add: file_live_def node_live_def)
    show "FILE_CAP dvd unat (n_off ?n) \<and> unat (n_off ?n) + FILE_CAP \<le> tf_pool_end t \<and> unat (n_size ?n) \<le> FILE_CAP"
      if "n_kind ?n = File" using tmpfs_invD(7) [OF inv fl [OF that]] by (simp add: chunk_ok_def)
    show "n_off (node_at t j) \<noteq> n_off ?n" if "n_kind ?n = File" "file_live t j" "j \<noteq> i" for j
      using tmpfs_invD(8) [OF inv] fl [OF that(1)] that(2,3) by (auto simp: chunks_distinct_def)
  qed
  with True show ?thesis using tmpfs_rename_Inr [OF inv surjective_pairing, of i p nm] by (auto simp del: prod.collapse)
qed

lemma tmpfs_size_inv:
  assumes inv: "tmpfs_inv t" and i: "i < MAX_NODES" and sz: "file_live t i \<Longrightarrow> unat sz \<le> FILE_CAP"
  shows "tmpfs_inv (put_node i ((node_at t i)\<lparr>n_size := sz\<rparr>) t)"
proof -
  let ?t = "put_node i ((node_at t i)\<lparr>n_size := sz\<rparr>) t"
  note d = tmpfs_invD [OF inv]
  have at: "node_at ?t j = (if j = i then (node_at t i)\<lparr>n_size := sz\<rparr> else node_at t j)" for j
    using i d(2) by (simp add: node_at_put)
  have same: "n_used (node_at ?t j) = n_used (node_at t j)" "n_kind (node_at ?t j) = n_kind (node_at t j)"
    "n_parent (node_at ?t j) = n_parent (node_at t j)" "node_name (node_at ?t j) = node_name (node_at t j)"
    "n_off (node_at ?t j) = n_off (node_at t j)" "n_name (node_at ?t j) = n_name (node_at t j)"
    "n_name_len (node_at ?t j) = n_name_len (node_at t j)" for j
    by (simp_all add: at)
  have nl: "node_live ?t j = node_live t j" for j unfolding node_live_def same ..
  have fl: "file_live ?t j = file_live t j" for j unfolding file_live_def nl same ..
  note live = nl fl
  have "node_ok ?t j" if "j < MAX_NODES" for j using d(5) [OF that] unfolding node_ok_def same live .
  moreover have "chunk_ok ?t j" if "file_live t j" for j
    using d(7) [OF that] sz that by (auto simp: chunk_ok_def at)
  moreover have "fixed_ok ?t" "names_unique ?t" "chunks_distinct ?t"
    using d(4,6,8) unfolding names_unique_def chunks_distinct_def fixed_ok_def same live .
  ultimately show ?thesis using d(1-3,9,10) by (simp add: tmpfs_inv_def live)
qed

lemma tmpfs_truncate_inv [keeps]: "tmpfs_inv t \<Longrightarrow> i < MAX_NODES \<Longrightarrow> tmpfs_inv (tmpfs_truncate i t)"
  unfolding tmpfs_truncate_def by (rule tmpfs_size_inv) simp_all

subsection \<open>File contents\<close>

definition file_chunk :: "tmpfs \<Rightarrow> nat \<Rightarrow> u8 list" where
  "file_chunk t i = take FILE_CAP (drop (unat (n_off (node_at t i))) (tf_pool t))"

definition file_bytes :: "tmpfs \<Rightarrow> nat \<Rightarrow> u8 list" where
  "file_bytes t i = take (unat (n_size (node_at t i))) (file_chunk t i)"

lemma file_bounds:
  assumes "tmpfs_inv t" "file_live t i"
  shows "unat (n_off (node_at t i)) + FILE_CAP \<le> POOL_BYTES" "unat (n_size (node_at t i)) \<le> FILE_CAP"
    "length (file_chunk t i) = FILE_CAP" "length (file_bytes t i) = unat (n_size (node_at t i))"
  using tmpfs_invD(3,9) [OF assms(1)] tmpfs_invD(7) [OF assms] by (auto simp: chunk_ok_def file_chunk_def file_bytes_def)

lemma pool_slice_ok:
  assumes "tmpfs_inv t" "file_live t i" "unat off + k \<le> FILE_CAP"
  shows "pool_slice t (ucast (n_off (node_at t i)) + off) (of_nat k) =
    Some (unat (n_off (node_at t i)) + unat off, unat (n_off (node_at t i)) + unat off + k)"
proof -
  let ?o = "ucast (n_off (node_at t i)) :: u64"
  have b: "unat ?o + unat off + k \<le> POOL_BYTES" using file_bounds(1) [OF assms(1,2)] assms(3) by simp
  have k: "unat (of_nat k :: u64) = k" using b by (intro unat_of_nat_u64) (simp add: tmpfs_consts)
  have s: "unat (?o + off) = unat ?o + unat off"
    using b by (intro unat_add_lem [THEN iffD1]) (simp add: tmpfs_consts)
  have f: "unat (?o + off + of_nat k) = unat ?o + unat off + k"
    using b s k by (subst unat_add_lem [THEN iffD1]) (simp_all add: tmpfs_consts)
  show ?thesis using f s b tmpfs_invD(3) [OF assms(1)] by (simp add: pool_slice_def Let_def word_le_nat_alt)
qed

lemma min_of_nat_u64: "n < 2 ^ 64 \<Longrightarrow> min x (of_nat n) = (of_nat (min (unat x) n) :: u64)"
  by (cases "unat x \<le> n") (simp_all add: min_def word_le_nat_alt unat_of_nat_u64)

lemma tmpfs_read_spec:
  assumes inv: "tmpfs_inv t" and f: "file_live t i" and n: "n < 2 ^ 64"
  shows "tmpfs_read i off n t = Some (Inr (take n (drop (unat off) (file_bytes t i))))"
proof (cases "ucast (n_size (node_at t i)) \<le> off")
  case True
  then show ?thesis using f file_bounds(4) [OF inv f]
    by (simp add: tmpfs_read_def Let_def file_live_def word_le_nat_alt)
next
  case False
  let ?s = "unat (n_size (node_at t i))" and ?o = "unat (n_off (node_at t i))"
  have lt: "unat off < ?s" using False by (simp add: word_le_nat_alt)
  then have sub: "unat (ucast (n_size (node_at t i)) - off) = ?s - unat off"
    by (subst unat_sub) (simp_all add: word_le_nat_alt)
  let ?k = "min (?s - unat off) n"
  have "min (ucast (n_size (node_at t i)) - off) (of_nat n) = (of_nat ?k :: u64)"
    using min_of_nat_u64 [OF n, of "ucast (n_size (node_at t i)) - off"] sub by simp
  moreover have "unat off + ?k \<le> FILE_CAP" using lt file_bounds(2) [OF inv f] by simp
  ultimately have "tmpfs_read i off n t = Some (Inr (take ?k (drop (?o + unat off) (tf_pool t))))"
    using False f pool_slice_ok [OF inv f] by (simp add: tmpfs_read_def Let_def file_live_def)
  moreover have "take n (drop (unat off) (file_bytes t i)) = take ?k (drop (?o + unat off) (tf_pool t))"
    using lt file_bounds(2) [OF inv f]
    by (simp add: file_bytes_def file_chunk_def drop_take add.commute min.commute)
  ultimately show ?thesis by simp
qed

lemma splice_length: "a + k \<le> length p \<Longrightarrow> length d = k \<Longrightarrow> length (take a p @ d @ drop (a + k) p) = length p"
  by simp

text \<open>A splice inside \<open>[c, c + w)\<close> changes that window as a splice and leaves disjoint windows alone.\<close>

lemma splice_window:
  assumes "c \<le> a" "a + length d \<le> c + w" "c + w \<le> length p"
  shows "take w (drop c (take a p @ d @ drop (a + length d) p)) =
    take (a - c) (take w (drop c p)) @ d @ drop (a - c + length d) (take w (drop c p))"
proof -
  from assms(1) obtain k where a: "a = c + k" using le_Suc_ex by blast
  have "drop (k + length d) (take w (drop c p)) = take (w - (k + length d)) (drop (c + (k + length d)) p)"
    by (simp add: drop_take add.commute)
  moreover have "drop c (take a p @ d @ drop (a + length d) p) = take k (drop c p) @ d @ drop (c + (k + length d)) p"
    using assms(2,3) by (simp add: a drop_take add.assoc)
  moreover have "k \<le> w" "length (take k (drop c p)) = k" using assms(2,3) a by auto
  moreover have "take w (take k (drop c p) @ d @ drop (c + (k + length d)) p) =
      take k (drop c p) @ d @ take (w - (k + length d)) (drop (c + (k + length d)) p)"
    using calculation(3,4) assms(2) a by (simp del: length_take)
  ultimately show ?thesis using a by (simp add: min_absorb1)
qed

lemma splice_outside:
  assumes "a + length d \<le> length p" "c + w \<le> length p" "c + w \<le> a \<or> a + length d \<le> c"
  shows "take w (drop c (take a p @ d @ drop (a + length d) p)) = take w (drop c p)"
  using assms(3)
proof
  assume "c + w \<le> a"
  then have "take (w + c) (take a p @ d @ drop (a + length d) p) = take (w + c) p"
    using assms(1) by (simp add: min_absorb1)
  then show ?thesis by (simp only: take_drop)
next
  assume "a + length d \<le> c"
  then obtain k where "c = a + length d + k" using le_Suc_ex by blast
  then show ?thesis using assms(1) by (simp add: add.commute add.left_commute)
qed

lemma chunks_apart:
  assumes "tmpfs_inv t" "file_live t i" "file_live t j" "j \<noteq> i"
  shows "unat (n_off (node_at t j)) + FILE_CAP \<le> unat (n_off (node_at t i))
    \<or> unat (n_off (node_at t i)) + FILE_CAP \<le> unat (n_off (node_at t j))"
proof -
  obtain a b where ab: "unat (n_off (node_at t i)) = FILE_CAP * a" "unat (n_off (node_at t j)) = FILE_CAP * b"
    using tmpfs_invD(7) [OF assms(1,2)] tmpfs_invD(7) [OF assms(1,3)] unfolding chunk_ok_def dvd_def by blast
  have "n_off (node_at t i) \<noteq> n_off (node_at t j)"
    using assms tmpfs_invD(8) [OF assms(1)] unfolding chunks_distinct_def by blast
  with ab have "a \<noteq> b" by (metis word_unat_eq_iff)
  then have "Suc a \<le> b \<or> Suc b \<le> a" by auto
  then have "FILE_CAP * Suc a \<le> FILE_CAP * b \<or> FILE_CAP * Suc b \<le> FILE_CAP * a"
    using mult_le_mono2 by blast
  then show ?thesis using ab by (auto simp: algebra_simps)
qed

text \<open>\<open>write\<close> inside the capacity of a live file.\<close>

lemma tmpfs_write_ok:
  assumes inv: "tmpfs_inv t" and f: "file_live t i" and b: "unat off + length d \<le> FILE_CAP"
  obtains t' where "tmpfs_write i off d t = Some (Inr (length d), t')" "tmpfs_inv t'"
    "file_chunk t' i = take (unat off) (file_chunk t i) @ d @ drop (unat off + length d) (file_chunk t i)"
    "unat (n_size (node_at t' i)) = max (unat (n_size (node_at t i))) (unat off + length d)"
    "\<forall>j. j \<noteq> i \<longrightarrow> node_at t' j = node_at t j" "\<forall>j. file_live t j \<and> j \<noteq> i \<longrightarrow> file_bytes t' j = file_bytes t j"
    "node_at t' i = (node_at t i)\<lparr>n_size := n_size (node_at t' i)\<rparr>"
proof -
  let ?o = "unat (n_off (node_at t i))" and ?p = "tf_pool t"
  let ?p' = "take (?o + unat off) ?p @ d @ drop (?o + unat off + length d) ?p"
  let ?fin = "off + of_nat (length d) :: u64"
  let ?t1 = "t\<lparr>tf_pool := ?p'\<rparr>"
  let ?n = "(node_at t i)\<lparr>n_size := max (n_size (node_at t i)) (ucast ?fin)\<rparr>"
  let ?t' = "put_node i ?n ?t1"
  have im: "i < MAX_NODES" using f by (simp add: file_live_def node_live_def)
  have cap: "FILE_CAP = 8192" and capw: "unat (of_nat FILE_CAP :: u64) = FILE_CAP" by (simp_all add: FILE_CAP_def)
  have fin: "unat ?fin = unat off + length d"
    using b unat_of_nat_u64 [of "length d"] cap by (subst unat_add_lem [THEN iffD1]) simp_all
  have fin32: "unat (ucast ?fin :: u32) = unat off + length d"
    using fin b cap by (simp add: unat_ucast_mod)
  have len: "length ?p = POOL_BYTES" "?o + unat off + length d \<le> POOL_BYTES"
    using tmpfs_invD(3) [OF inv] file_bounds(1) [OF inv f] b by auto
  have w: "tmpfs_write i off d t = Some (Inr (length d), ?t')"
    using f b fin capw pool_slice_ok [OF inv f b] by (simp add: tmpfs_write_def Let_def file_live_def word_less_nat_alt)
  have sz: "unat (n_size ?n) = max (unat (n_size (node_at t i))) (unat off + length d)"
    using fin32 by (simp add: max_def word_le_nat_alt)
  have inv1: "tmpfs_inv ?t1"
    using tmpfs_inv_pool [OF inv order_refl tmpfs_invD(9,10) [OF inv], of ?p'] len splice_length [of "?o + unat off" "length d" ?p d]
    by (simp del: length_append)
  have inv': "tmpfs_inv ?t'"
    using tmpfs_size_inv [OF inv1 im, of "n_size ?n"] sz b file_bounds(2) [OF inv f] by simp
  have at: "node_at ?t' j = (if j = i then ?n else node_at t j)" for j
    using im tmpfs_invD(2) [OF inv] by (simp add: node_at_put)
  have p': "tf_pool ?t' = ?p'" by simp
  have chunk: "file_chunk ?t' i = take (unat off) (file_chunk t i) @ d @ drop (unat off + length d) (file_chunk t i)"
    using splice_window [of ?o "?o + unat off" d FILE_CAP ?p] b len file_bounds(1) [OF inv f]
    unfolding file_chunk_def p' at by simp
  have other: "file_bytes ?t' j = file_bytes t j" if j: "file_live t j" "j \<noteq> i" for j
  proof -
    have "take FILE_CAP (drop (unat (n_off (node_at t j))) ?p') = take FILE_CAP (drop (unat (n_off (node_at t j))) ?p)"
      by (rule splice_outside) (use chunks_apart [OF inv f j] file_bounds(1) [OF inv j(1)] len b in auto)
    with j(2) show ?thesis unfolding file_bytes_def file_chunk_def p' at by simp
  qed
  show thesis by (rule that [OF w inv' chunk]) (use sz other at in simp_all)
qed

lemma tmpfs_write_full:
  assumes "tmpfs_inv t" "file_live t i" "FILE_CAP < unat off + length d" "unat off + length d < 2 ^ 64"
  shows "tmpfs_write i off d t = Some (Inl SYS_ERR_NOSPC, t)"
proof -
  have "unat (off + of_nat (length d)) = unat off + length d"
    using assms(4) unat_of_nat_u64 [of "length d"] by (subst unat_add_lem [THEN iffD1]) simp_all
  with assms show ?thesis
    by (simp add: tmpfs_write_def Let_def file_live_def word_less_nat_alt FILE_CAP_def)
qed

lemma tmpfs_write_inv [keeps]:
  assumes inv: "tmpfs_inv t" and i: "i < MAX_NODES" and b: "unat off + length d < 2 ^ 64"
    and w: "tmpfs_write i off d t = Some (r, t')"
  shows "tmpfs_inv t'"
proof (cases "file_live t i")
  case True
  show ?thesis
  proof (cases "unat off + length d \<le> FILE_CAP")
    case True
    obtain u where "tmpfs_write i off d t = Some (Inr (length d), u)" "tmpfs_inv u"
      by (rule tmpfs_write_ok [OF inv \<open>file_live t i\<close> True])
    with w show ?thesis by simp
  next
    case False
    with tmpfs_write_full [OF inv True _ b] w inv show ?thesis by simp
  qed
next
  case False
  let ?s = "ucast (n_off (node_at t i)) + off :: u64" and ?fin = "off + of_nat (length d) :: u64"
  show ?thesis
  proof (cases "n_kind (node_at t i) \<noteq> File \<or> ?fin > of_nat FILE_CAP")
    case True
    with w have "t' = t" by (auto simp: tmpfs_write_def Let_def split: if_splits)
    with inv show ?thesis by simp
  next
    case gd: False
    with w have "pool_slice t ?s (of_nat (length d)) \<noteq> None" by (auto simp: tmpfs_write_def Let_def split: option.splits)
    then obtain a c where sl: "pool_slice t ?s (of_nat (length d)) = Some (a, c)" by auto
    let ?p = "take a (tf_pool t) @ d @ drop c (tf_pool t)"
    have t': "t' = put_node i ((node_at t i)\<lparr>n_size := max (n_size (node_at t i)) (ucast ?fin)\<rparr>) (t\<lparr>tf_pool := ?p\<rparr>)"
      using w gd sl by (simp add: tmpfs_write_def Let_def)
    have s: "?s \<le> ?s + of_nat (length d)" "a = unat ?s" "c = unat (?s + of_nat (length d))" "c \<le> length (tf_pool t)"
      using sl by (simp_all add: pool_slice_def Let_def split: if_splits)
    have "unat (of_nat (length d) :: u64) = length d" using b by (intro unat_of_nat_u64) simp
    then have "c = a + length d" using s(1-3) unat_plus_simple [of ?s "of_nat (length d)"] by simp
    then have "length ?p = POOL_BYTES" using s(4) tmpfs_invD(3) [OF inv] by simp
    then have "tmpfs_inv (t\<lparr>tf_pool := ?p\<rparr>)"
      using tmpfs_inv_pool [OF inv order_refl tmpfs_invD(9,10) [OF inv], of ?p] by simp
    moreover have "\<not> file_live (t\<lparr>tf_pool := ?p\<rparr>) i" using False by (simp add: file_live_def node_live_def)
    ultimately show ?thesis unfolding t' using tmpfs_size_inv [of "t\<lparr>tf_pool := ?p\<rparr>", OF _ i] by simp
  qed
qed

subsection \<open>Path resolution\<close>

definition path_end :: "u8 list \<Rightarrow> bool" where
  "path_end path \<longleftrightarrow> dropWhile (\<lambda>b. b = SLASH) path = []"

definition path_comp :: "u8 list \<Rightarrow> u8 list" where
  "path_comp path = takeWhile (\<lambda>b. b \<noteq> SLASH) (dropWhile (\<lambda>b. b = SLASH) path)"

definition path_rest :: "u8 list \<Rightarrow> u8 list" where
  "path_rest path = dropWhile (\<lambda>b. b \<noteq> SLASH) (dropWhile (\<lambda>b. b = SLASH) path)"

lemma path_rest_less: "\<not> path_end path \<Longrightarrow> length (path_rest path) < length path"
  by (simp add: path_end_def path_rest_def path_rest_shorter)

lemma lookup_unfold:
  "lookup_from t cur path =
     (if path_end path then Inr cur
      else if path_comp path = [DOT] then lookup_from t cur (path_rest path)
      else if path_comp path = [DOT, DOT] then lookup_from t (tmpfs_parent t cur) (path_rest path)
      else if length (path_comp path) > NAME_MAX then Inl SYS_ERR_NAMETOOLONG
      else if tmpfs_kind t cur \<noteq> Dir then Inl SYS_ERR_NOTDIR
      else (case find_child t cur (path_comp path) of
              None \<Rightarrow> Inl SYS_ERR_NOENT | Some c \<Rightarrow> lookup_from t c (path_rest path)))"
  unfolding path_end_def path_comp_def path_rest_def lookup_from.simps [of t cur path] Let_def by (rule refl)

text \<open>One rewrite rule per branch of the component loop.\<close>

lemma lookup_steps:
  "path_end path \<Longrightarrow> lookup_from t cur path = Inr cur"
  "\<not> path_end path \<Longrightarrow> path_comp path = [DOT] \<Longrightarrow> lookup_from t cur path = lookup_from t cur (path_rest path)"
  "\<not> path_end path \<Longrightarrow> path_comp path = [DOT, DOT] \<Longrightarrow>
     lookup_from t cur path = lookup_from t (tmpfs_parent t cur) (path_rest path)"
  "\<not> path_end path \<Longrightarrow> path_comp path \<notin> {[DOT], [DOT, DOT]} \<Longrightarrow> lookup_from t cur path =
     (if length (path_comp path) > NAME_MAX then Inl SYS_ERR_NAMETOOLONG
      else if tmpfs_kind t cur \<noteq> Dir then Inl SYS_ERR_NOTDIR
      else (case find_child t cur (path_comp path) of
              None \<Rightarrow> Inl SYS_ERR_NOENT | Some c \<Rightarrow> lookup_from t c (path_rest path)))"
  by (subst lookup_unfold, simp)+

lemma lookup_simple:
  assumes "valid_name nm" "tf_init t" "n_kind (node_at t d) = Dir" "find_child t d nm = Some c"
  shows "lookup_from t d nm = Inr c"
proof -
  have f: "\<not> path_end nm" "path_comp nm = nm" "path_rest nm = []"
  proof -
    have n: "nm \<noteq> []" "\<forall>x\<in>set nm. x \<noteq> SLASH" using assms(1) by (auto simp: valid_name_def)
    then have "hd nm \<noteq> SLASH" by simp
    then have "dropWhile (\<lambda>b. b = SLASH) nm = nm" using n(1) by (simp add: dropWhile_eq_self_iff)
    with n show "\<not> path_end nm" "path_comp nm = nm" "path_rest nm = []"
      by (simp_all add: path_end_def path_comp_def path_rest_def)
  qed
  then show ?thesis
    using assms lookup_steps(1) [of "[]" t c] lookup_steps(4) [OF f(1), of t d]
    by (simp add: valid_name_def path_end_def)
qed

text \<open>A change that keeps parents, kinds and names of the live nodes keeps every resolution.\<close>

lemma lookup_mono:
  assumes inv: "tmpfs_inv t" and inv': "tmpfs_inv t'"
    and same: "\<And>j. node_live t j \<Longrightarrow> node_live t' j \<and> n_kind (node_at t' j) = n_kind (node_at t j)
      \<and> n_parent (node_at t' j) = n_parent (node_at t j) \<and> node_name (node_at t' j) = node_name (node_at t j)"
  shows "node_live t cur \<Longrightarrow> lookup_from t cur path = Inr c \<Longrightarrow> lookup_from t' cur path = Inr c \<and> node_live t c"
proof (induction path arbitrary: cur rule: measure_induct_rule [of length])
  case (less path)
  note i = tmpfs_invD(1) [OF inv] tmpfs_invD(1) [OF inv']
  show ?case
  proof (cases "path_end path")
    case True
    then show ?thesis using less.prems by (simp add: lookup_steps(1))
  next
    case False
    note short = path_rest_less [OF this]
    have par: "tmpfs_parent t' cur = tmpfs_parent t cur" "node_live t (tmpfs_parent t cur)"
      using same [OF less.prems(1)] live_parent [OF inv less.prems(1)] by (simp_all add: tmpfs_parent_def)
    consider (dot) "path_comp path = [DOT]" | (dotdot) "path_comp path = [DOT, DOT]"
      | (name) "path_comp path \<notin> {[DOT], [DOT, DOT]}" by blast
    then show ?thesis
    proof cases
      case dot
      from less.IH [OF short less.prems(1)] less.prems(2) show ?thesis
        unfolding lookup_steps(2) [OF False dot] by simp
    next
      case dotdot
      from less.IH [OF short par(2)] less.prems(2) show ?thesis
        unfolding lookup_steps(3) [OF False dotdot] par(1) by simp
    next
      case name
      from less.prems(2) i have g: "length (path_comp path) \<le> NAME_MAX" "n_kind (node_at t cur) = Dir"
        unfolding lookup_steps(4) [OF False name] by (simp_all split: if_splits)
      with less.prems(2) i obtain x where x: "find_child t cur (path_comp path) = Some x"
        "lookup_from t x (path_rest path) = Inr c"
        unfolding lookup_steps(4) [OF False name] by (auto split: option.splits)
      note fx = find_child_Some [OF x(1)]
      have "find_child t' cur (path_comp path) = Some x"
        using find_child_unique [OF tmpfs_invD(6) [OF inv']] same [of x] fx by simp
      then have "lookup_from t' cur path = lookup_from t' x (path_rest path)"
        using g i same [OF less.prems(1)] unfolding lookup_steps(4) [OF False name] by simp
      with less.IH [OF short _ x(2)] fx show ?thesis by simp
    qed
  qed
qed

section \<open>Properties\<close>

text \<open>The calls other kernel code makes, in any order. A parent is a live node; offsets and lengths
  do not exceed the address space.\<close>

inductive tmpfs_reach :: "tmpfs \<Rightarrow> bool" where
  fresh: "tmpfs_reach (tmpfs_ensure_init tmpfs_boot)"
| create: "tmpfs_reach t \<Longrightarrow> node_live t p \<Longrightarrow> tmpfs_reach (snd (tmpfs_create p nm k t))"
| remove: "tmpfs_reach t \<Longrightarrow> i < MAX_NODES \<Longrightarrow> tmpfs_reach (snd (tmpfs_remove i t))"
| rename: "tmpfs_reach t \<Longrightarrow> i < MAX_NODES \<Longrightarrow> node_live t p \<Longrightarrow> tmpfs_reach (snd (tmpfs_rename i p nm t))"
| truncate: "tmpfs_reach t \<Longrightarrow> i < MAX_NODES \<Longrightarrow> tmpfs_reach (tmpfs_truncate i t)"
| overwrite: "tmpfs_reach t \<Longrightarrow> i < MAX_NODES \<Longrightarrow> unat off + length d < 2 ^ 64 \<Longrightarrow>
    tmpfs_write i off d t = Some (r, t') \<Longrightarrow> tmpfs_reach t'"



text \<open>C25. \<open>create\<close> and \<open>lookup\<close>: a created entry is a node that was free, it has the requested kind, its
  name resolves to it in its directory, a new file is empty, every path that resolved before still
  resolves to the same node, and no other file changes.\<close>

theorem tmpfs_create_lookup:
  assumes "tmpfs_inv t" and "node_live t p" and "tmpfs_create p nm k t = (Inr idx, t')"
  shows "\<not> node_live t idx \<and> node_live t' idx \<and> tmpfs_kind t' idx = k
    \<and> lookup_from t' p nm = Inr idx \<and> file_bytes t' idx = []
    \<and> (\<forall>cur path c. node_live t cur \<and> lookup_from t cur path = Inr c \<longrightarrow> lookup_from t' cur path = Inr c)
    \<and> (\<forall>j. file_live t j \<longrightarrow> file_bytes t' j = file_bytes t j)"
proof -
  have inv': "tmpfs_inv t'" using tmpfs_create_inv [OF assms(1,2), of nm k] assms(3) by simp
  obtain n e where c: "idx < MAX_NODES" "\<not> n_used (node_at t idx)" "valid_name nm" "n_kind (node_at t p) = Dir"
    "n_used n" "n_kind n = k" "n_parent n = p" "node_name n = nm" "n_size n = 0"
    and t': "t' = put_node idx n (t\<lparr>tf_pool_end := e\<rparr>)"
    by (rule tmpfs_create_Inr [OF assms(1,3)])
  have at: "node_at t' j = (if j = idx then n else node_at t j)" for j
    using c(1) tmpfs_invD(2) [OF assms(1)] by (simp add: t' node_at_put)
  have old: "j \<noteq> idx" if "node_live t j" for j using that c(2) by (auto simp: node_live_def)
  have same: "node_live t' j \<and> node_at t' j = node_at t j" if "node_live t j" for j
    using that old [OF that] by (simp add: at node_live_def)
  have live: "node_live t' idx" using c(1,5) by (simp add: node_live_def at)
  have "find_child t' p nm = Some idx"
    using find_child_unique [OF tmpfs_invD(6) [OF inv']] live c(7,8) by (simp add: at)
  then have "lookup_from t' p nm = Inr idx"
    using lookup_simple [OF c(3) tmpfs_invD(1) [OF inv']] old [OF assms(2)] c(4) by (simp add: at)
  moreover have "lookup_from t' cur path = Inr x" if "node_live t cur" "lookup_from t cur path = Inr x" for cur path x
    using lookup_mono [OF assms(1) inv' _ that] same by simp
  moreover have "file_bytes t' j = file_bytes t j" if "file_live t j" for j
    using same [of j] that by (simp add: file_bytes_def file_chunk_def file_live_def t')
  ultimately show ?thesis
    using live c(2,6,9) tmpfs_invD(1) [OF inv'] by (auto simp: at node_live_def file_bytes_def)
qed

lemma demo_create: "tmpfs_create 4 [97] Dir tmpfs_fresh = (Inr 8, snd (tmpfs_create 4 [97] Dir tmpfs_fresh))"
proof -
  have used: "n_used (fixed_nodes ! i)" if "i < 8" for i using that fresh_live [of i] fresh_node [of i] by (simp add: node_live_def)
  have "find_below (\<lambda>i. \<not> n_used (node_at tmpfs_fresh i)) MAX_NODES = Some 8"
    using used by (simp add: fresh_node MAX_NODES_def)
  moreover have "find_child tmpfs_fresh 4 [97] = None"
    unfolding find_child_None fresh_live
    by (simp add: fresh_node MAX_NODES_def all_less_8 fixed_nodes_def ROOT_def)
  moreover have "n_kind (node_at tmpfs_fresh 4) = Dir" by (simp add: fresh_node MAX_NODES_def fixed_nodes_def)
  ultimately have "fst (tmpfs_create 4 [97] Dir tmpfs_fresh) = Inr 8"
    by (simp add: tmpfs_create_def Let_def valid_name_def NAME_MAX_def del: find_below_Some)
  then show ?thesis by (metis prod.collapse)
qed

theorem tmpfs_create_lookup_witness:
  "lookup_from (snd (tmpfs_create 4 [97] Dir tmpfs_fresh)) 4 [97] = Inr 8"
  using tmpfs_create_lookup [OF tmpfs_inv_fresh _ demo_create] fresh_live [of 4] by simp

text \<open>File contents: \<open>write\<close> of bytes that fit the 8 KiB capacity succeeds in full, extends the size
  to cover them, replaces exactly those bytes of the file's chunk and changes no other file; reading
  back at the same offset returns them. A write that does not fit is refused with ENOSPC and changes
  nothing. No call panics on an out-of-range slice.\<close>

theorem tmpfs_write_read:
  assumes "tmpfs_inv t" and "file_live t i" and "unat off + length d < 2 ^ 64"
  shows "if unat off + length d \<le> FILE_CAP then
      \<exists>t'. tmpfs_write i off d t = Some (Inr (length d), t') \<and> tmpfs_inv t'
        \<and> file_chunk t' i = take (unat off) (file_chunk t i) @ d @ drop (unat off + length d) (file_chunk t i)
        \<and> length (file_bytes t' i) = max (length (file_bytes t i)) (unat off + length d)
        \<and> (\<forall>j. file_live t j \<and> j \<noteq> i \<longrightarrow> file_bytes t' j = file_bytes t j)
        \<and> tmpfs_read i off (length d) t' = Some (Inr d)
    else tmpfs_write i off d t = Some (Inl SYS_ERR_NOSPC, t)"
proof (cases "unat off + length d \<le> FILE_CAP")
  case True
  obtain t' where w: "tmpfs_write i off d t = Some (Inr (length d), t')" "tmpfs_inv t'"
    and ch: "file_chunk t' i = take (unat off) (file_chunk t i) @ d @ drop (unat off + length d) (file_chunk t i)"
    and sz: "unat (n_size (node_at t' i)) = max (unat (n_size (node_at t i))) (unat off + length d)"
    and other: "\<forall>j. file_live t j \<and> j \<noteq> i \<longrightarrow> file_bytes t' j = file_bytes t j"
    and self: "node_at t' i = (node_at t i)\<lparr>n_size := n_size (node_at t' i)\<rparr>"
    by (rule tmpfs_write_ok [OF assms(1,2) True])
  have f': "file_live t' i" using assms(2) arg_cong [OF self, of n_used] arg_cong [OF self, of n_kind]
    by (simp add: file_live_def node_live_def)
  have "length (take (unat off) (file_chunk t i)) = unat off" using file_bounds(3) [OF assms(1,2)] True by simp
  then have "take (length d) (drop (unat off) (file_bytes t' i)) = d"
    using sz unfolding file_bytes_def ch by (simp add: drop_take del: length_take)
  moreover have "length d < 2 ^ 64" using assms(3) by simp
  ultimately have "tmpfs_read i off (length d) t' = Some (Inr d)"
    using tmpfs_read_spec [OF w(2) f'] by simp
  with w ch sz other True file_bounds(4) [OF w(2) f'] file_bounds(4) [OF assms(1,2)] show ?thesis by auto
next
  case False
  with tmpfs_write_full [OF assms(1,2) _ assms(3)] show ?thesis by simp
qed

lemma demo_create_file: "tmpfs_create 4 [97] File tmpfs_fresh = (Inr 8, snd (tmpfs_create 4 [97] File tmpfs_fresh))"
proof -
  have used: "n_used (fixed_nodes ! i)" "n_kind (fixed_nodes ! i) \<noteq> File" if "i < 8" for i
    using that fresh_live [of i] fresh_node [of i] fixed_nodes_ok by (simp_all add: node_live_def)
  have "find_below (\<lambda>i. \<not> n_used (node_at tmpfs_fresh i)) MAX_NODES = Some 8"
    using used by (simp add: fresh_node MAX_NODES_def)
  moreover have "find_child tmpfs_fresh 4 [97] = None"
    unfolding find_child_None fresh_live
    by (simp add: fresh_node MAX_NODES_def all_less_8 fixed_nodes_def ROOT_def)
  moreover have "count_files tmpfs_fresh = 0"
    using used by (auto simp: count_files_def fresh_node filter_empty_conv)
  moreover have "n_kind (node_at tmpfs_fresh 4) = Dir" by (simp add: fresh_node MAX_NODES_def fixed_nodes_def)
  ultimately have "fst (tmpfs_create 4 [97] File tmpfs_fresh) = Inr 8"
    by (simp add: tmpfs_create_def pool_reserve_def Let_def valid_name_def tmpfs_consts del: find_below_Some)
  then show ?thesis by (metis prod.collapse)
qed

theorem tmpfs_write_read_witness:
  "\<exists>t'. tmpfs_write 8 100 [1, 2, 3] (snd (tmpfs_create 4 [97] File tmpfs_fresh)) = Some (Inr 3, t')
     \<and> tmpfs_read 8 100 3 t' = Some (Inr [1, 2, 3])"
proof -
  let ?t = "snd (tmpfs_create 4 [97] File tmpfs_fresh)"
  have p: "node_live tmpfs_fresh 4" by (simp add: fresh_live)
  obtain n e where "8 < MAX_NODES" "n_used n" "n_kind n = File" "?t = put_node 8 n (tmpfs_fresh\<lparr>tf_pool_end := e\<rparr>)"
    by (rule tmpfs_create_Inr [OF tmpfs_inv_fresh demo_create_file])
  then have "file_live ?t 8" by (simp add: file_live_def node_live_def node_at_put)
  from tmpfs_write_read [OF tmpfs_create_inv [OF tmpfs_inv_fresh p] this, of 100 "[1, 2, 3]"] show ?thesis
    by (auto simp: FILE_CAP_def numeral_3_eq_3)
qed

lemma lookup_avoids:
  assumes par: "\<And>j. node_live t j \<Longrightarrow> j \<noteq> i \<Longrightarrow> n_parent (node_at t j) \<noteq> i" and self: "n_parent (node_at t i) = i"
    and live: "\<And>j. node_live t j \<Longrightarrow> node_live t (n_parent (node_at t j))"
  shows "node_live t cur \<Longrightarrow> cur \<noteq> i \<Longrightarrow> lookup_from t cur path \<noteq> Inr i"
proof (induction path arbitrary: cur rule: measure_induct_rule [of length])
  case (less path)
  show ?case
  proof (cases "path_end path")
    case True
    with less.prems show ?thesis by (simp add: lookup_steps(1))
  next
    case False
    note IH = less.IH [OF path_rest_less [OF False]]
    have p: "node_live t (tmpfs_parent t cur)" "tmpfs_parent t cur \<noteq> i"
      using par [OF less.prems] live [OF less.prems(1)] by (simp_all add: tmpfs_parent_def)
    have c: "node_live t x \<and> x \<noteq> i" if "find_child t cur nm = Some x" for nm x
      using find_child_Some [OF that] self less.prems(2) by auto
    show ?thesis
      using IH [OF less.prems] IH [OF p] IH c
      by (subst lookup_unfold) (auto simp: False split: option.splits)
  qed
qed

text \<open>C26. \<open>rename\<close> has no ancestor check: moving an empty directory into itself is reported as success,
  and afterwards the directory is its own parent and no path from any other live node reaches it.\<close>

theorem tmpfs_rename_into_itself:
  assumes "tmpfs_inv t" and "node_live t i" and "8 \<le> i" and "tmpfs_kind t i = Dir" and "\<not> has_children t i"
    and "valid_name nm"
  shows "\<exists>t'. tmpfs_rename i i nm t = (Inr (), t') \<and> n_parent (node_at t' i) = i
    \<and> (\<forall>cur path. node_live t' cur \<and> cur \<noteq> i \<longrightarrow> lookup_from t' cur path \<noteq> Inr i)"
proof -
  have k: "n_kind (node_at t i) = Dir" and im: "i < MAX_NODES" and u: "n_used (node_at t i)"
    using assms(2,4) tmpfs_invD(1) [OF assms(1)] by (simp_all add: node_live_def)
  have nochild: "n_parent (node_at t j) \<noteq> i" if "node_live t j" "j \<noteq> i" for j
    using assms(5) that by (auto simp: has_children_iff)
  have "find_child t i nm \<in> {None, Some i}"
    using nochild find_child_Some [of t i nm] by (cases "find_child t i nm") auto
  then have r: "tmpfs_rename i i nm t = (Inr (), put_node i (set_name nm ((node_at t i)\<lparr>n_parent := i\<rparr>)) t)" (is "_ = (_, ?t)")
    using tmpfs_rename_Inr [OF assms(1) surjective_pairing, of i i nm] u k assms(3,6) by (simp add: prod_eq_iff)
  have inv': "tmpfs_inv ?t" using tmpfs_rename_inv [OF assms(1) im assms(2), of nm] r by simp
  have at: "node_at ?t j = (if j = i then set_name nm ((node_at t i)\<lparr>n_parent := i\<rparr>) else node_at t j)" for j
    using im tmpfs_invD(2) [OF assms(1)] by (simp add: node_at_put)
  have "lookup_from ?t cur path \<noteq> Inr i" if "node_live ?t cur" "cur \<noteq> i" for cur path
  proof (rule lookup_avoids [OF _ _ _ that])
    show "n_parent (node_at ?t j) \<noteq> i" if "node_live ?t j" "j \<noteq> i" for j
      using nochild that by (simp add: at node_live_def)
    show "n_parent (node_at ?t i) = i" by (simp add: at)
    show "node_live ?t (n_parent (node_at ?t j))" if "node_live ?t j" for j using live_parent [OF inv' that] by simp
  qed
  with r show ?thesis by (auto simp: at)
qed

theorem tmpfs_rename_into_itself_witness:
  "fst (tmpfs_rename 8 8 [98] (snd (tmpfs_create 4 [97] Dir tmpfs_fresh))) = Inr ()"
proof -
  let ?t = "snd (tmpfs_create 4 [97] Dir tmpfs_fresh)"
  have p: "node_live tmpfs_fresh 4" by (simp add: fresh_live)
  obtain n e where n: "8 < MAX_NODES" "n_used n" "n_kind n = Dir" "n_parent n = 4" "?t = put_node 8 n (tmpfs_fresh\<lparr>tf_pool_end := e\<rparr>)"
    by (rule tmpfs_create_Inr [OF tmpfs_inv_fresh demo_create])
  have inv: "tmpfs_inv ?t" by (rule tmpfs_create_inv [OF tmpfs_inv_fresh p])
  have at: "node_at ?t j = (if j = 8 then n else node_at tmpfs_fresh j)" for j
    using n(1) by (simp add: n(5) node_at_put)
  have "n_parent (node_at ?t j) \<noteq> 8" if "node_live ?t j" "j \<noteq> 8" for j
  proof -
    have "j < 8" using that fresh_live [of j] by (simp add: node_live_def at)
    moreover from this have "node_at tmpfs_fresh j = fixed_nodes ! j" by (simp add: fresh_node MAX_NODES_def)
    ultimately show ?thesis using fixed_nodes_ok that(2) by (auto simp: at)
  qed
  then have nc: "\<not> has_children ?t 8" unfolding has_children_iff by blast
  have l8: "node_live ?t 8" and k8: "tmpfs_kind ?t 8 = Dir"
    using n(1-3) tmpfs_invD(1) [OF inv] by (simp_all add: node_live_def at)
  have v: "valid_name [98]" by (simp add: valid_name_def NAME_MAX_def)
  from tmpfs_rename_into_itself [OF inv l8 order_refl k8 nc v] show ?thesis by (elim exE conjE) simp
qed

section \<open>Names of reachable nodes\<close>

definition names_valid :: "tmpfs \<Rightarrow> bool" where
  "names_valid t \<longleftrightarrow> (\<forall>i. node_live t i \<and> i \<noteq> ROOT \<longrightarrow> valid_name (node_name (node_at t i)))"

lemma names_valid_put:
  assumes "names_valid t" "n_used n \<Longrightarrow> i \<noteq> ROOT \<Longrightarrow> valid_name (node_name n)" "i < length (tf_nodes t)"
  shows "names_valid (put_node i n t)"
  using assms by (auto simp: names_valid_def node_live_def node_at_put)

lemma names_valid_pool [simp]:
  "names_valid (t\<lparr>tf_pool := p\<rparr>) = names_valid t" "names_valid (t\<lparr>tf_pool_end := e\<rparr>) = names_valid t"
  by (simp_all add: names_valid_def node_live_def)

lemma names_valid_fresh: "names_valid tmpfs_fresh"
proof -
  have "\<forall>i<8. i \<noteq> ROOT \<longrightarrow> valid_name (node_name (fixed_nodes ! i))"
    unfolding all_less_8 by (simp add: fixed_nodes_def ROOT_def fixed_node_def valid_name_def NAME_MAX_def)
  moreover have "node_at tmpfs_fresh i = fixed_nodes ! i" if "i < 8" for i using that by (simp add: fresh_node MAX_NODES_def)
  ultimately show ?thesis using fresh_live by (auto simp: names_valid_def)
qed

lemma tmpfs_reach_names: "tmpfs_reach t \<Longrightarrow> tmpfs_inv t \<and> names_valid t"
proof (induction rule: tmpfs_reach.induct)
  case fresh
  show ?case using tmpfs_inv_fresh names_valid_fresh by (simp add: tmpfs_fresh_def)
next
  case (create t p nm k)
  then have inv: "tmpfs_inv t" and nv: "names_valid t" by simp_all
  have "names_valid (snd (tmpfs_create p nm k t))"
  proof (cases "tmpfs_create p nm k t")
    case (Pair r t')
    show ?thesis
    proof (cases r)
      case (Inr idx)
      obtain n e where "idx < MAX_NODES" "valid_name nm" "node_name n = nm" "t' = put_node idx n (t\<lparr>tf_pool_end := e\<rparr>)"
        by (rule tmpfs_create_Inr [OF inv Pair [unfolded Inr]])
      then show ?thesis using nv tmpfs_invD(2) [OF inv] Pair by (auto intro!: names_valid_put)
    next
      case (Inl e)
      then show ?thesis using Pair nv tmpfs_invD(1) [OF inv]
        by (auto simp: tmpfs_create_def Let_def pool_reserve_def split: if_splits option.splits prod.splits)
    qed
  qed
  then show ?case using tmpfs_create_inv [OF inv create.hyps(2)] by simp
next
  case (remove t i)
  then show ?case using tmpfs_invD(1,2) [of t]
    by (auto simp: keeps) (auto simp: tmpfs_remove_def Let_def intro: names_valid_put)
next
  case (rename t i p nm)
  then show ?case using tmpfs_invD(1,2) [of t]
    by (auto simp: keeps) (auto simp: tmpfs_rename_def Let_def valid_name_def intro!: names_valid_put split: option.splits)
next
  case (truncate t i)
  then show ?case using tmpfs_invD(2) [of t]
    by (auto simp: keeps) (auto simp: tmpfs_truncate_def names_valid_def node_live_def node_at_put)
next
  case (overwrite t i off d r t')
  have "names_valid t'" using overwrite tmpfs_invD(2) [of t]
    by (auto simp: tmpfs_write_def Let_def split: if_splits option.splits prod.splits intro!: names_valid_put)
      (auto simp: names_valid_def node_live_def)
  then show ?case using overwrite tmpfs_write_inv by blast
qed

end
