(* ===== verification/Process.thy ===== *)
theory Process
  imports Abi
begin

text \<open>
  The process table of \<^verbatim>\<open>src/kernel-core/src/process\<close>: the \<open>Proc\<close> record of \<^verbatim>\<open>mod.rs\<close>, identity and
  exit bookkeeping (\<^verbatim>\<open>identity.rs\<close>), process groups and the terminal's foreground group
  (\<^verbatim>\<open>group.rs\<close>), signal dispositions and masks (\<^verbatim>\<open>sigstate.rs\<close>), \<open>kill\<close> and \<open>wait4\<close>
  (\<^verbatim>\<open>lifecycle.rs\<close>). The slot of the running task, \<^verbatim>\<open>task::current_slot()\<close>, is an argument. Each section
  under \<open>PROC_LOCK\<close> is one step. Signed pids are 64-bit words read as two's complement, so the
  negations of the code are the word's. \<open>pr_vmas\<close> is the used part \<^verbatim>\<open>vmas[..vma_n]\<close> of the fixed array: the
  code never reads an entry behind it.
\<close>

section \<open>The table\<close>

definition MAX_TASKS :: nat where "MAX_TASKS = 16"

record action =
  a_handler :: u64
  a_mask :: u64
  a_flags :: u32
  a_restorer :: u64

record vma =
  v_start :: u64
  v_end :: u64
  v_prot :: u64

record proc =
  pr_used :: bool
  pr_alive :: bool
  pr_id :: u64
  pr_ppid :: u64
  pr_pgid :: u64
  pr_sid :: u64
  pr_exit_status :: u64
  pr_waited :: bool
  pr_pending :: u32
  pr_blocked :: u32
  pr_actions :: "action list"
  pr_vmas :: "vma list"
  pr_mmap_next :: u64

definition DEFAULT_ACTION :: action where
  "DEFAULT_ACTION = \<lparr>a_handler = SIG_DFL, a_mask = 0, a_flags = 0, a_restorer = 0\<rparr>"

definition EMPTY_PROC :: proc where
  "EMPTY_PROC = \<lparr>pr_used = False, pr_alive = False, pr_id = 0, pr_ppid = 0, pr_pgid = 0, pr_sid = 0,
     pr_exit_status = 0, pr_waited = False, pr_pending = 0, pr_blocked = 0,
     pr_actions = replicate (unat NSIG) DEFAULT_ACTION,
     pr_vmas = [],
     pr_mmap_next = USER_MMAP_BASE\<rparr>"

type_synonym procs = "proc list"

definition procs_boot :: procs where
  "procs_boot = replicate MAX_TASKS EMPTY_PROC"

text \<open>\<^verbatim>\<open>let p = &mut procs()[slot]; ...\<close>\<close>

definition upd_proc :: "nat \<Rightarrow> (proc \<Rightarrow> proc) \<Rightarrow> procs \<Rightarrow> procs" where
  "upd_proc slot f ps = ps[slot := f (ps ! slot)]"

section \<open>Identity, exit and reaping\<close>

definition slot_of_id :: "u64 \<Rightarrow> procs \<Rightarrow> nat option" where
  "slot_of_id i ps = find_below (\<lambda>s. pr_used (ps ! s) \<and> pr_id (ps ! s) = i) MAX_TASKS"

definition proc_init_boot :: "procs \<Rightarrow> procs" where
  "proc_init_boot ps = upd_proc 0 (\<lambda>p. p\<lparr>pr_used := True, pr_alive := True, pr_id := 0, pr_pgid := 0, pr_sid := 0\<rparr>) ps"

text \<open>The parent is looked up after the slot has been rewritten, as in the code.\<close>

definition proc_init_task :: "nat \<Rightarrow> u64 \<Rightarrow> u64 \<Rightarrow> procs \<Rightarrow> procs" where
  "proc_init_task slot i ppid ps =
     (let ps1 = ps[slot := EMPTY_PROC\<lparr>pr_used := True, pr_alive := True, pr_id := i, pr_ppid := ppid\<rparr>];
          parent = (\<lambda>qs. qs ! (case slot_of_id ppid qs of Some s \<Rightarrow> s | None \<Rightarrow> 0));
          ps2 = upd_proc slot (\<lambda>p. p\<lparr>pr_pgid := if ppid = 0 then i else pr_pgid (parent ps1)\<rparr>) ps1
      in upd_proc slot (\<lambda>p. p\<lparr>pr_sid := if ppid = 0 then i else pr_sid (parent ps2)\<rparr>) ps2)"

definition proc_clone_task :: "nat \<Rightarrow> nat \<Rightarrow> u64 \<Rightarrow> procs \<Rightarrow> procs" where
  "proc_clone_task parent_slot child_slot i ps =
     (let parent = ps ! parent_slot in
      ps[child_slot := parent\<lparr>pr_id := i, pr_ppid := pr_id parent, pr_alive := True, pr_waited := False,
                              pr_exit_status := 0, pr_pending := 0\<rparr>])"

definition status_exited :: "u64 \<Rightarrow> u64" where
  "status_exited code = push_bit 8 (code AND 0xff)"

definition status_signaled :: "u32 \<Rightarrow> u64" where
  "status_signaled sig = ucast sig"

definition sig_mask :: "u32 \<Rightarrow> u32" where
  "sig_mask sig = (if sig < NSIG then push_bit (unat sig) 1 else 0)"

definition on_exit :: "nat \<Rightarrow> u64 \<Rightarrow> procs \<Rightarrow> procs" where
  "on_exit slot status ps =
     (let p = ps ! slot;
          ps1 = (if pr_used p then ps[slot := p\<lparr>pr_alive := False, pr_exit_status := status\<rparr>] else ps) in
      if pr_used p \<and> pr_ppid p \<noteq> 0 then
        (case slot_of_id (pr_ppid p) ps1 of
           Some s \<Rightarrow> upd_proc s (\<lambda>q. q\<lparr>pr_pending := pr_pending q OR sig_mask SIGCHLD\<rparr>) ps1
         | None \<Rightarrow> ps1)
      else ps1)"

definition reapable :: "nat \<Rightarrow> procs \<Rightarrow> bool" where
  "reapable slot ps =
     (let p = ps ! slot in
      if \<not> pr_used p \<or> pr_alive p then False
      else pr_waited p \<or> pr_ppid p = 0 \<or> slot_of_id (pr_ppid p) ps = None)"

definition proc_on_reap :: "nat \<Rightarrow> procs \<Rightarrow> procs" where
  "proc_on_reap slot ps = ps[slot := EMPTY_PROC]"

definition alive_by_id :: "u64 \<Rightarrow> procs \<Rightarrow> bool" where
  "alive_by_id i ps = (case slot_of_id i ps of Some s \<Rightarrow> pr_alive (ps ! s) | None \<Rightarrow> False)"

definition id_of :: "nat \<Rightarrow> procs \<Rightarrow> u64" where
  "id_of slot ps = pr_id (ps ! slot)"

section \<open>Signal state\<close>

definition default_ignored :: "u32 \<Rightarrow> bool" where
  "default_ignored sig \<longleftrightarrow> sig \<in> {SIGCHLD, SIGCONT, 23, SIGWINCH, SIGSTOP, SIGTSTP, SIGTTIN, SIGTTOU}"

definition sigaction_set :: "nat \<Rightarrow> u32 \<Rightarrow> action \<Rightarrow> procs \<Rightarrow> u64 \<times> procs" where
  "sigaction_set slot sig act ps =
     (if sig = 0 \<or> sig \<ge> NSIG \<or> sig = SIGKILL then (SYS_ERR_INVAL, ps)
      else (SYS_OK, upd_proc slot (\<lambda>p. p\<lparr>pr_actions := (pr_actions p)[unat sig := act]\<rparr>) ps))"

definition sigaction_get :: "nat \<Rightarrow> u32 \<Rightarrow> procs \<Rightarrow> action option" where
  "sigaction_get slot sig ps =
     (if sig = 0 \<or> sig \<ge> NSIG \<or> sig = SIGKILL then None else Some (pr_actions (ps ! slot) ! unat sig))"

definition sigprocmask :: "nat \<Rightarrow> u64 \<Rightarrow> u32 \<Rightarrow> procs \<Rightarrow> u64 \<times> procs" where
  "sigprocmask slot how set' ps =
     (let b = pr_blocked (ps ! slot);
          nb = (if how = SIG_BLOCK then Some (b OR set')
                else if how = SIG_UNBLOCK then Some (b AND NOT set')
                else if how = SIG_SETMASK then Some set' else None) in
      case nb of
        None \<Rightarrow> (SYS_ERR_INVAL, ps)
      | Some v \<Rightarrow> (SYS_OK, upd_proc slot (\<lambda>p. p\<lparr>pr_blocked := v AND NOT (sig_mask SIGKILL)\<rparr>) ps))"

definition blocked_of :: "nat \<Rightarrow> procs \<Rightarrow> u32" where
  "blocked_of slot ps = pr_blocked (ps ! slot)"

definition set_blocked :: "nat \<Rightarrow> u32 \<Rightarrow> procs \<Rightarrow> procs" where
  "set_blocked slot mask' ps = upd_proc slot (\<lambda>p. p\<lparr>pr_blocked := mask' AND NOT (sig_mask SIGKILL)\<rparr>) ps"

definition queue_slot :: "nat \<Rightarrow> u32 \<Rightarrow> procs \<Rightarrow> procs" where
  "queue_slot slot sig ps =
     (if sig = 0 \<or> sig \<ge> NSIG then ps
      else upd_proc slot (\<lambda>p. p\<lparr>pr_pending := pr_pending p OR sig_mask sig\<rparr>) ps)"

text \<open>\<^verbatim>\<open>u32::trailing_zeros\<close>\<close>

definition trailing_zeros :: "u32 \<Rightarrow> u32" where
  "trailing_zeros w = (case find_below (bit w) 32 of Some i \<Rightarrow> of_nat i | None \<Rightarrow> 32)"

definition dequeue :: "nat \<Rightarrow> procs \<Rightarrow> u32 option \<times> procs" where
  "dequeue slot ps =
     (let p = ps ! slot; kill = sig_mask SIGKILL in
      if pr_pending p AND kill \<noteq> 0 then
        (Some SIGKILL, upd_proc slot (\<lambda>p. p\<lparr>pr_pending := pr_pending p AND NOT kill\<rparr>) ps)
      else
        let ready = pr_pending p AND NOT (pr_blocked p) in
        if ready = 0 then (None, ps)
        else
          let sig = trailing_zeros ready in
          (Some sig, upd_proc slot (\<lambda>p. p\<lparr>pr_pending := pr_pending p AND NOT (push_bit (unat sig) 1)\<rparr>) ps))"

definition pending_handled :: "nat \<Rightarrow> procs \<Rightarrow> bool" where
  "pending_handled slot ps =
     (let ready = pr_pending (ps ! slot) AND NOT (pr_blocked (ps ! slot)) in
      list_ex (\<lambda>s. ready AND push_bit s 1 \<noteq> 0 \<and> \<not> default_ignored (of_nat s)) [1..<unat NSIG])"

definition action_of :: "nat \<Rightarrow> u32 \<Rightarrow> procs \<Rightarrow> action" where
  "action_of slot sig ps = pr_actions (ps ! slot) ! unat sig"

definition set_action :: "nat \<Rightarrow> u32 \<Rightarrow> action \<Rightarrow> procs \<Rightarrow> procs" where
  "set_action slot sig a ps = upd_proc slot (\<lambda>p. p\<lparr>pr_actions := (pr_actions p)[unat sig := a]\<rparr>) ps"

definition block_for_handler :: "nat \<Rightarrow> u32 \<Rightarrow> u64 \<Rightarrow> procs \<Rightarrow> procs" where
  "block_for_handler slot sig mask' ps =
     upd_proc slot (\<lambda>p. p\<lparr>pr_blocked := (pr_blocked p OR (sig_mask sig OR ucast mask')) AND NOT (sig_mask SIGKILL)\<rparr>) ps"

definition has_deliverable :: "nat \<Rightarrow> procs \<Rightarrow> bool" where
  "has_deliverable slot ps \<longleftrightarrow>
     pr_pending (ps ! slot) AND (NOT (pr_blocked (ps ! slot)) OR sig_mask SIGKILL) \<noteq> 0"

text \<open>\<open>execve\<close>: caught handlers go back to the default, ignored ones stay ignored.\<close>

definition signal_reset_for_exec :: "nat \<Rightarrow> procs \<Rightarrow> procs" where
  "signal_reset_for_exec slot ps =
     upd_proc slot (\<lambda>p. p\<lparr>pr_actions := fold (\<lambda>s acts. if a_handler (acts ! s) \<noteq> SIG_IGN
         then acts[s := DEFAULT_ACTION] else acts) [1..<unat NSIG] (pr_actions p), pr_pending := 0\<rparr>) ps"

section \<open>Groups and sessions\<close>

definition getpgrp :: "nat \<Rightarrow> procs \<Rightarrow> u64" where
  "getpgrp cur ps = pr_pgid (ps ! cur)"

definition getpgid :: "nat \<Rightarrow> u64 \<Rightarrow> procs \<Rightarrow> u64 res" where
  "getpgid cur pid ps =
     (if pid = 0 then Inr (pr_pgid (ps ! cur))
      else case slot_of_id pid ps of Some s \<Rightarrow> Inr (pr_pgid (ps ! s)) | None \<Rightarrow> Inl SYS_ERR_SRCH)"

definition getppid :: "nat \<Rightarrow> procs \<Rightarrow> u64" where
  "getppid cur ps = pr_ppid (ps ! cur)"

definition slot_pgrp_exists :: "u64 \<Rightarrow> procs \<Rightarrow> nat option" where
  "slot_pgrp_exists pgid ps = find_below (\<lambda>s. pr_used (ps ! s) \<and> pr_pgid (ps ! s) = pgid) MAX_TASKS"

definition setpgid :: "nat \<Rightarrow> u64 \<Rightarrow> u64 \<Rightarrow> procs \<Rightarrow> u64 \<times> procs" where
  "setpgid cur pid pgid ps =
     (case (if pid = 0 then Some cur else slot_of_id pid ps) of
        None \<Rightarrow> (SYS_ERR_SRCH, ps)
      | Some s \<Rightarrow>
          if s \<noteq> cur \<and> pr_ppid (ps ! s) \<noteq> pr_id (ps ! cur) then (SYS_ERR_SRCH, ps)
          else
            let g = (if pgid = 0 then pr_id (ps ! s) else pgid) in
            if g \<noteq> pr_id (ps ! s) \<and> slot_pgrp_exists g ps = None then (SYS_ERR_SRCH, ps)
            else (SYS_OK, upd_proc s (\<lambda>p. p\<lparr>pr_pgid := g\<rparr>) ps))"

definition setsid :: "nat \<Rightarrow> procs \<Rightarrow> u64 \<times> procs" where
  "setsid cur ps =
     (let i = pr_id (ps ! cur) in (i, upd_proc cur (\<lambda>p. p\<lparr>pr_sid := i, pr_pgid := i\<rparr>) ps))"

section \<open>kill\<close>

definition kill_hit :: "u64 \<Rightarrow> u64 \<Rightarrow> u64 \<Rightarrow> proc \<Rightarrow> bool" where
  "kill_hit pid cur_id cur_pgid p \<longleftrightarrow> pr_used p \<and> pr_alive p \<and>
     (if pid = 0 then pr_pgid p = cur_pgid
      else if pid = - 1 then pr_id p \<noteq> 0 \<and> pr_id p \<noteq> cur_id
      else if 0 < sint pid then pr_id p = pid
      else pr_pgid p = - pid)"

definition kill :: "nat \<Rightarrow> u64 \<Rightarrow> u32 \<Rightarrow> procs \<Rightarrow> u64 \<times> procs" where
  "kill cur pid sig ps =
     (if sig \<ge> NSIG then (SYS_ERR_INVAL, ps)
      else
        let victims = filter (\<lambda>s. kill_hit pid (pr_id (ps ! cur)) (pr_pgid (ps ! cur)) (ps ! s)) [0..<MAX_TASKS] in
        if victims = [] then (SYS_ERR_SRCH, ps)
        else if sig = 0 then (SYS_OK, ps)
        else (SYS_OK, fold (\<lambda>s qs. queue_slot s sig qs) victims ps))"

text \<open>Console interrupt: the foreground group, or the current task while there is none.\<close>

definition signal_console :: "nat \<Rightarrow> u64 \<Rightarrow> u32 \<Rightarrow> procs \<Rightarrow> procs" where
  "signal_console cur tty_pgrp sig ps =
     (if tty_pgrp \<noteq> 0 then snd (kill cur (- tty_pgrp) sig ps) else queue_slot cur sig ps)"

section \<open>wait4\<close>

definition wait_hit :: "u64 \<Rightarrow> u64 \<Rightarrow> u64 \<Rightarrow> proc \<Rightarrow> bool" where
  "wait_hit pid my_id my_pgid p \<longleftrightarrow> pr_used p \<and> \<not> pr_alive p \<and> \<not> pr_waited p \<and> pr_ppid p = my_id \<and>
     (if 0 < sint pid then pr_id p = pid
      else if pid = 0 then pr_pgid p = my_pgid
      else if pid = - 1 then True
      else pr_pgid p = - pid)"

text \<open>The loop: \<open>env\<close> lists what the other tasks do to the table during each sleep; \<open>None\<close> is "still
  sleeping after all of it".\<close>

fun wait4_loop :: "nat \<Rightarrow> u64 \<Rightarrow> u64 \<Rightarrow> u64 \<Rightarrow> u64 \<Rightarrow> (procs \<Rightarrow> procs) list \<Rightarrow> procs \<Rightarrow> ((u64 \<times> u64) res \<times> procs) option" where
  "wait4_loop cur my_id my_pgid pid options env ps =
     (case find_below (\<lambda>s. wait_hit pid my_id my_pgid (ps ! s)) MAX_TASKS of
        Some s \<Rightarrow> Some (Inr (pr_id (ps ! s), pr_exit_status (ps ! s)), upd_proc s (\<lambda>p. p\<lparr>pr_waited := True\<rparr>) ps)
      | None \<Rightarrow>
          if options AND WNOHANG \<noteq> 0 then Some (Inr (0, 0), ps)
          else if \<not> list_ex (\<lambda>s. pr_used (ps ! s) \<and> pr_ppid (ps ! s) = my_id) [0..<MAX_TASKS]
          then Some (Inl SYS_ERR_CHILD, ps)
          else if pending_handled cur ps then Some (Inl SYS_ERR_INTR, ps)
          else (case env of [] \<Rightarrow> None
                | sleep # env' \<Rightarrow> wait4_loop cur my_id my_pgid pid options env' (sleep ps)))"

declare wait4_loop.simps [simp del]

definition wait4 :: "nat \<Rightarrow> u64 \<Rightarrow> u64 \<Rightarrow> (procs \<Rightarrow> procs) list \<Rightarrow> procs \<Rightarrow> ((u64 \<times> u64) res \<times> procs) option" where
  "wait4 cur pid options env ps =
     wait4_loop cur (pr_id (ps ! cur)) (pr_pgid (ps ! cur)) pid options env ps"

section \<open>Invariant\<close>

definition proc_ok :: "proc \<Rightarrow> bool" where
  "proc_ok p \<longleftrightarrow> length (pr_actions p) = 32 \<and> \<not> bit (pr_blocked p) 9 \<and> pr_actions p ! 9 = DEFAULT_ACTION
     \<and> \<not> bit (pr_pending p) 0"

definition procs_inv :: "procs \<Rightarrow> bool" where
  "procs_inv ps \<longleftrightarrow> length ps = MAX_TASKS \<and> (\<forall>p\<in>set ps. proc_ok p)"

lemma procs_inv_nth: "procs_inv ps \<Longrightarrow> s < MAX_TASKS \<Longrightarrow> proc_ok (ps ! s)"
  by (simp add: procs_inv_def)

lemma procs_inv_length: "procs_inv ps \<Longrightarrow> length ps = MAX_TASKS"
  by (simp add: procs_inv_def)

lemma procs_inv_put [keeps]: "procs_inv ps \<Longrightarrow> proc_ok p \<Longrightarrow> procs_inv (ps[s := p])"
  by (auto simp: procs_inv_def dest: set_update_subset_insert [THEN subsetD])

lemma procs_inv_upd [keeps]:
  assumes "procs_inv ps" "\<And>p. proc_ok p \<Longrightarrow> proc_ok (f p)"
  shows "procs_inv (upd_proc s f ps)"
proof (cases "s < MAX_TASKS")
  case True
  with assms show ?thesis unfolding upd_proc_def by (intro procs_inv_put) (simp_all add: procs_inv_nth)
next
  case False
  with assms(1) show ?thesis by (simp add: upd_proc_def procs_inv_def list_update_beyond)
qed

lemma upd_proc_nth: "s < length ps \<Longrightarrow> upd_proc s f ps ! j = (if j = s then f (ps ! s) else ps ! j)"
  by (simp add: upd_proc_def)

lemma length_upd_proc [simp]: "length (upd_proc s f ps) = length ps"
  by (simp add: upd_proc_def)

lemma NSIG_nat [simp]: "unat NSIG = 32" by (simp add: NSIG_def)

lemma bit_sig_mask: "sig < NSIG \<Longrightarrow> bit (sig_mask sig) n \<longleftrightarrow> n = unat sig"
  by (auto simp: sig_mask_def bit_simps word_less_nat_alt)

lemma bit_mask_kill [simp]: "bit (sig_mask SIGKILL) n \<longleftrightarrow> n = 9"
  by (subst bit_sig_mask) (auto simp: abi_defs)

lemma bit_mask_chld [simp]: "bit (sig_mask SIGCHLD) n \<longleftrightarrow> n = 17"
  by (subst bit_sig_mask) (auto simp: abi_defs)

lemma proc_ok_EMPTY: "proc_ok EMPTY_PROC"
  by (simp add: proc_ok_def EMPTY_PROC_def)

lemma procs_inv_boot: "procs_inv procs_boot"
  by (simp add: procs_inv_def procs_boot_def proc_ok_EMPTY)

lemma unat_sig_pos: "sig \<noteq> 0 \<Longrightarrow> 0 < unat (sig :: u32)"
  by (simp add: unat_gt_0)

lemma proc_ok_fields [simp]:
  "proc_ok (p\<lparr>pr_used := a\<rparr>) = proc_ok p" "proc_ok (p\<lparr>pr_alive := a\<rparr>) = proc_ok p" "proc_ok (p\<lparr>pr_id := b\<rparr>) = proc_ok p"
  "proc_ok (p\<lparr>pr_ppid := b\<rparr>) = proc_ok p" "proc_ok (p\<lparr>pr_pgid := b\<rparr>) = proc_ok p" "proc_ok (p\<lparr>pr_sid := b\<rparr>) = proc_ok p"
  "proc_ok (p\<lparr>pr_exit_status := b\<rparr>) = proc_ok p" "proc_ok (p\<lparr>pr_waited := a\<rparr>) = proc_ok p"
  "proc_ok (p\<lparr>pr_vmas := c\<rparr>) = proc_ok p" "proc_ok (p\<lparr>pr_mmap_next := b\<rparr>) = proc_ok p"
  by (simp_all add: proc_ok_def)

lemma proc_init_boot_inv [keeps]: "procs_inv ps \<Longrightarrow> procs_inv (proc_init_boot ps)"
  unfolding proc_init_boot_def by (rule procs_inv_upd) simp_all

lemma proc_init_task_inv [keeps]: "procs_inv ps \<Longrightarrow> procs_inv (proc_init_task slot i ppid ps)"
  unfolding proc_init_task_def Let_def by (intro procs_inv_upd procs_inv_put) (simp_all add: proc_ok_EMPTY)

lemma proc_clone_task_inv [keeps]: "procs_inv ps \<Longrightarrow> parent < MAX_TASKS \<Longrightarrow> procs_inv (proc_clone_task parent child i ps)"
  unfolding proc_clone_task_def Let_def
  by (rule procs_inv_put) (use procs_inv_nth [of ps parent] in \<open>simp_all add: proc_ok_def\<close>)

lemma proc_on_reap_inv [keeps]: "procs_inv ps \<Longrightarrow> procs_inv (proc_on_reap slot ps)"
  unfolding proc_on_reap_def by (rule procs_inv_put) (simp_all add: proc_ok_EMPTY)

lemma setsid_inv [keeps]: "procs_inv ps \<Longrightarrow> procs_inv (snd (setsid cur ps))"
  unfolding setsid_def Let_def snd_conv by (rule procs_inv_upd) simp_all

lemma setpgid_inv [keeps]: "procs_inv ps \<Longrightarrow> procs_inv (snd (setpgid cur pid pgid ps))"
  by (auto simp: setpgid_def Let_def procs_inv_upd split: option.splits)

lemma sigprocmask_inv [keeps]: "procs_inv ps \<Longrightarrow> procs_inv (snd (sigprocmask slot how m ps))"
  by (auto simp: sigprocmask_def Let_def proc_ok_def bit_simps split: option.splits intro!: procs_inv_upd)

lemma sig_fields_inv [keeps]:
  "procs_inv ps \<Longrightarrow> procs_inv (set_blocked slot m ps)"
  "procs_inv ps \<Longrightarrow> procs_inv (block_for_handler slot sig hm ps)"
  by (auto simp: set_blocked_def block_for_handler_def proc_ok_def bit_simps intro!: procs_inv_upd)

lemma queue_slot_inv [keeps]: "procs_inv ps \<Longrightarrow> procs_inv (queue_slot slot sig ps)"
  by (auto simp: queue_slot_def proc_ok_def bit_simps bit_sig_mask dest: unat_sig_pos intro!: procs_inv_upd)

lemma sigaction_set_inv [keeps]: "procs_inv ps \<Longrightarrow> procs_inv (snd (sigaction_set slot sig act ps))"
proof -
  have "unat sig \<noteq> 9" if "sig \<noteq> SIGKILL"
    using that by (simp add: SIGKILL_def word_unat_eq_iff)
  then show "procs_inv ps \<Longrightarrow> procs_inv (snd (sigaction_set slot sig act ps))"
    by (auto simp: sigaction_set_def proc_ok_def intro!: procs_inv_upd)
qed
lemma dequeue_inv [keeps]: "procs_inv ps \<Longrightarrow> procs_inv (snd (dequeue slot ps))"
  by (auto simp: dequeue_def Let_def proc_ok_def bit_simps intro!: procs_inv_upd)

lemma on_exit_inv [keeps]:
  assumes "procs_inv ps" shows "procs_inv (on_exit slot status ps)"
proof -
  have "proc_ok (ps ! slot) \<or> length ps \<le> slot" using assms by (auto simp: procs_inv_def not_le)
  then have "procs_inv (ps[slot := (ps ! slot)\<lparr>pr_alive := False, pr_exit_status := status\<rparr>])"
    using assms by (auto intro: procs_inv_put simp: list_update_beyond)
  with assms show ?thesis
    by (auto simp: on_exit_def Let_def proc_ok_def bit_simps split: option.splits intro!: procs_inv_upd)
qed

lemma kill_inv [keeps]: "procs_inv ps \<Longrightarrow> procs_inv (snd (kill cur pid sig ps))"
proof -
  have "procs_inv (fold (\<lambda>s qs. queue_slot s sig qs) xs qs)" if "procs_inv qs" for xs qs
    using that by (induction xs arbitrary: qs) (simp_all add: queue_slot_inv)
  then show "procs_inv ps \<Longrightarrow> procs_inv (snd (kill cur pid sig ps))" by (simp add: kill_def Let_def)
qed

subsection \<open>Which signal is taken\<close>

lemma word_zero_iff_bits: "(w :: u32) = 0 \<longleftrightarrow> (\<forall>n<32. \<not> bit w n)"
  by (auto simp: bit_eq_iff intro: ccontr dest: bit_imp_le_length)

lemma and_push_bit_one: "n < 32 \<Longrightarrow> (w :: u32) AND push_bit n 1 \<noteq> 0 \<longleftrightarrow> bit w n"
  unfolding word_zero_iff_bits by (auto simp: bit_simps)

lemma and_mask_kill: "(w :: u32) AND sig_mask SIGKILL \<noteq> 0 \<longleftrightarrow> bit w 9"
  unfolding word_zero_iff_bits by (auto simp: bit_simps)

lemma trailing_zeros_bit:
  assumes "w \<noteq> 0"
  obtains k where "trailing_zeros w = of_nat k" "unat (trailing_zeros w) = k" "k < 32" "bit w k" "\<forall>j<k. \<not> bit w j"
proof -
  have "find_below (bit w) 32 \<noteq> None" using assms word_zero_iff_bits [of w] by auto
  then obtain k where k: "find_below (bit w) 32 = Some k" by blast
  then have "k < 32" "bit w k" "\<forall>j<k. \<not> bit w j" by simp_all
  moreover from this have "unat (of_nat k :: u32) = k" by (simp add: unat_of_nat_u32)
  ultimately show ?thesis using that k by (simp add: trailing_zeros_def del: find_below_Some)
qed

lemma has_deliverable_iff:
  "has_deliverable slot ps \<longleftrightarrow> (\<exists>n<32. bit (pr_pending (ps ! slot)) n \<and> (\<not> bit (pr_blocked (ps ! slot)) n \<or> n = 9))"
  unfolding has_deliverable_def word_zero_iff_bits by (auto simp: bit_simps)

lemma dequeue_None: "dequeue slot ps = (None, ps') \<Longrightarrow> ps' = ps \<and> \<not> has_deliverable slot ps"
proof -
  assume d: "dequeue slot ps = (None, ps')"
  let ?p = "ps ! slot"
  from d have "\<not> bit (pr_pending ?p) 9" "pr_pending ?p AND NOT (pr_blocked ?p) = 0" "ps' = ps"
    by (auto simp: dequeue_def Let_def and_mask_kill split: if_splits)
  then show ?thesis unfolding has_deliverable_iff word_zero_iff_bits by (auto simp: bit_simps)
qed

lemma dequeue_Some:
  assumes "slot < length ps" "dequeue slot ps = (Some sig, ps')"
  shows "unat sig < 32" "bit (pr_pending (ps ! slot)) (unat sig)"
    "sig = SIGKILL \<or> \<not> bit (pr_pending (ps ! slot)) 9 \<and> \<not> bit (pr_blocked (ps ! slot)) (unat sig)
       \<and> (\<forall>j<unat sig. bit (pr_pending (ps ! slot)) j \<longrightarrow> bit (pr_blocked (ps ! slot)) j)"
    "ps' = ps[slot := (ps ! slot)\<lparr>pr_pending := pr_pending (ps ! slot) AND NOT (push_bit (unat sig) 1)\<rparr>]"
proof -
  let ?p = "ps ! slot" let ?r = "pr_pending ?p AND NOT (pr_blocked ?p)"
  have kill: "sig_mask SIGKILL = push_bit 9 1" "unat SIGKILL = 9" by (simp_all add: sig_mask_def abi_defs)
  have "unat sig < 32 \<and> bit (pr_pending ?p) (unat sig) \<and>
    (sig = SIGKILL \<or> \<not> bit (pr_pending ?p) 9 \<and> \<not> bit (pr_blocked ?p) (unat sig)
       \<and> (\<forall>j<unat sig. bit (pr_pending ?p) j \<longrightarrow> bit (pr_blocked ?p) j)) \<and>
    ps' = ps[slot := ?p\<lparr>pr_pending := pr_pending ?p AND NOT (push_bit (unat sig) 1)\<rparr>]"
  proof (cases "bit (pr_pending ?p) 9")
    case True
    with assms(2) have "sig = SIGKILL"
      "ps' = ps[slot := ?p\<lparr>pr_pending := pr_pending ?p AND NOT (sig_mask SIGKILL)\<rparr>]"
      by (auto simp: dequeue_def Let_def and_mask_kill upd_proc_def)
    with True kill show ?thesis by simp
  next
    case False
    with assms(2) have r: "?r \<noteq> 0" "sig = trailing_zeros ?r"
      "ps' = ps[slot := ?p\<lparr>pr_pending := pr_pending ?p AND NOT (push_bit (unat sig) 1)\<rparr>]"
      by (auto simp: dequeue_def Let_def and_mask_kill upd_proc_def split: if_splits)
    obtain k where "unat (trailing_zeros ?r) = k" "k < 32" "bit ?r k" "\<forall>j<k. \<not> bit ?r j"
      by (rule trailing_zeros_bit [OF r(1)])
    with r(2,3) False show ?thesis by (auto simp: bit_simps)
  qed
  then show "unat sig < 32" "bit (pr_pending (ps ! slot)) (unat sig)"
    "sig = SIGKILL \<or> \<not> bit (pr_pending (ps ! slot)) 9 \<and> \<not> bit (pr_blocked (ps ! slot)) (unat sig)
       \<and> (\<forall>j<unat sig. bit (pr_pending (ps ! slot)) j \<longrightarrow> bit (pr_blocked (ps ! slot)) j)"
    "ps' = ps[slot := (ps ! slot)\<lparr>pr_pending := pr_pending (ps ! slot) AND NOT (push_bit (unat sig) 1)\<rparr>]"
    by blast+
qed

subsection \<open>Who gets a signal\<close>

lemma fold_queue:
  assumes "sig \<noteq> 0" "sig < NSIG" "distinct xs" "\<forall>x\<in>set xs. x < length ps"
  shows "length (fold (\<lambda>s qs. queue_slot s sig qs) xs ps) = length ps
    \<and> (\<forall>j. fold (\<lambda>s qs. queue_slot s sig qs) xs ps ! j =
       (if j \<in> set xs then (ps ! j)\<lparr>pr_pending := pr_pending (ps ! j) OR sig_mask sig\<rparr> else ps ! j))"
  using assms
proof (induction xs arbitrary: ps)
  case (Cons x xs)
  let ?ps = "queue_slot x sig ps"
  have q: "?ps ! j = (if j = x then (ps ! x)\<lparr>pr_pending := pr_pending (ps ! x) OR sig_mask sig\<rparr> else ps ! j)"
    "length ?ps = length ps" for j
    using Cons.prems by (simp_all add: queue_slot_def upd_proc_nth not_le)
  from Cons.IH [of ?ps] Cons.prems q show ?case by auto
qed simp

lemma slot_of_id_Some: "slot_of_id i ps = Some s \<Longrightarrow> s < MAX_TASKS \<and> pr_used (ps ! s) \<and> pr_id (ps ! s) = i"
  by (simp add: slot_of_id_def)

subsection \<open>Waiting\<close>

text \<open>The tables \<open>wait4\<close> probes, and when it has to sleep.\<close>

fun env_states :: "(procs \<Rightarrow> procs) list \<Rightarrow> procs \<Rightarrow> procs list" where
  "env_states [] ps = [ps]"
| "env_states (f # env) ps = ps # env_states env (f ps)"

definition has_child :: "u64 \<Rightarrow> procs \<Rightarrow> bool" where
  "has_child i ps \<longleftrightarrow> (\<exists>s<MAX_TASKS. pr_used (ps ! s) \<and> pr_ppid (ps ! s) = i)"

definition zombie_ready :: "u64 \<Rightarrow> u64 \<Rightarrow> u64 \<Rightarrow> procs \<Rightarrow> bool" where
  "zombie_ready pid i g ps \<longleftrightarrow> (\<exists>s<MAX_TASKS. wait_hit pid i g (ps ! s))"

lemma wait4_step:
  "wait4_loop cur i g pid opts (f # env) ps =
     (case wait4_loop cur i g pid opts [] ps of
        None \<Rightarrow> wait4_loop cur i g pid opts env (f ps) | Some x \<Rightarrow> Some x)"
  by (cases "find_below (\<lambda>s. wait_hit pid i g (ps ! s)) MAX_TASKS")
    (simp_all add: wait4_loop.simps [of _ _ _ _ _ "_ # _" ps] wait4_loop.simps [of _ _ _ _ _ "[]" ps]
       del: find_below_Some find_below_None)

lemma wait4_loop_None:
  "wait4_loop cur i g pid opts env ps = None \<longleftrightarrow> opts AND WNOHANG = 0 \<and>
     list_all (\<lambda>qs. \<not> zombie_ready pid i g qs \<and> has_child i qs \<and> \<not> pending_handled cur qs) (env_states env ps)"
proof (induction env arbitrary: ps)
  case Nil
  show ?case
    by (subst wait4_loop.simps) (auto simp: zombie_ready_def has_child_def list_ex_iff split: option.splits)
next
  case (Cons f env)
  have "wait4_loop cur i g pid opts [] ps = None \<longleftrightarrow> opts AND WNOHANG = 0 \<and>
      \<not> zombie_ready pid i g ps \<and> has_child i ps \<and> \<not> pending_handled cur ps"
    by (subst wait4_loop.simps) (auto simp: zombie_ready_def has_child_def list_ex_iff split: option.splits)
  with Cons.IH [of "f ps"] show ?case by (auto simp: wait4_step split: option.splits)
qed

lemma wait4_loop_Some:
  assumes "wait4_loop cur i g pid opts env ps = Some (r, ps')"
  shows "\<exists>qs\<in>set (env_states env ps).
     (\<exists>s<MAX_TASKS. wait_hit pid i g (qs ! s) \<and> (\<forall>j < s. \<not> wait_hit pid i g (qs ! j))
        \<and> r = Inr (pr_id (qs ! s), pr_exit_status (qs ! s)) \<and> ps' = upd_proc s (\<lambda>p. p\<lparr>pr_waited := True\<rparr>) qs)
   \<or> \<not> zombie_ready pid i g qs \<and> ps' = qs \<and>
     (r = Inr (0, 0) \<and> opts AND WNOHANG \<noteq> 0
      \<or> opts AND WNOHANG = 0 \<and> (r = Inl SYS_ERR_CHILD \<and> \<not> has_child i qs
        \<or> r = Inl SYS_ERR_INTR \<and> has_child i qs \<and> pending_handled cur qs))"
  using assms
proof (induction env arbitrary: ps)
  case Nil
  then show ?case
    by (subst (asm) wait4_loop.simps)
      (auto simp: zombie_ready_def has_child_def list_ex_iff split: option.splits if_splits)
next
  case (Cons f env)
  show ?case
  proof (cases "wait4_loop cur i g pid opts [] ps")
    case None
    with Cons.IH [of "f ps"] Cons.prems show ?thesis by (auto simp: wait4_step)
  next
    case (Some x)
    with Cons.prems have "wait4_loop cur i g pid opts [] ps = Some (r, ps')" by (simp add: wait4_step)
    then show ?thesis
      by (subst (asm) wait4_loop.simps)
        (auto simp: zombie_ready_def has_child_def list_ex_iff split: option.splits if_splits)
  qed
qed

section \<open>Properties\<close>

text \<open>Every operation of this theory that other kernel code calls, on any slot and in any order.\<close>

inductive proc_reach :: "procs \<Rightarrow> bool" where
  boot: "proc_reach (proc_init_boot procs_boot)"
| init_task: "proc_reach ps \<Longrightarrow> proc_reach (proc_init_task s i pp ps)"
| clone_task: "proc_reach ps \<Longrightarrow> parent < MAX_TASKS \<Longrightarrow> proc_reach (proc_clone_task parent s i ps)"
| exit: "proc_reach ps \<Longrightarrow> proc_reach (on_exit s st ps)"
| reap: "proc_reach ps \<Longrightarrow> proc_reach (proc_on_reap s ps)"
| sigaction: "proc_reach ps \<Longrightarrow> proc_reach (snd (sigaction_set s sig act ps))"
| mask_change: "proc_reach ps \<Longrightarrow> proc_reach (snd (sigprocmask s how m ps))"
| mask_set: "proc_reach ps \<Longrightarrow> proc_reach (set_blocked s m ps)"
| handler: "proc_reach ps \<Longrightarrow> proc_reach (block_for_handler s sig hm ps)"
| queue: "proc_reach ps \<Longrightarrow> proc_reach (queue_slot s sig ps)"
| take_signal: "proc_reach ps \<Longrightarrow> proc_reach (snd (dequeue s ps))"
| exec: "proc_reach ps \<Longrightarrow> proc_reach (signal_reset_for_exec s ps)"
| group: "proc_reach ps \<Longrightarrow> proc_reach (snd (setpgid cur pid g ps))"
| session: "proc_reach ps \<Longrightarrow> proc_reach (snd (setsid cur ps))"
| send: "proc_reach ps \<Longrightarrow> proc_reach (snd (kill cur pid sig ps))"
| console: "proc_reach ps \<Longrightarrow> proc_reach (signal_console cur tty sig ps)"
| waited: "proc_reach ps \<Longrightarrow> proc_reach (upd_proc s (\<lambda>p. p\<lparr>pr_waited := True\<rparr>) ps)"

lemma fold_reset:
  assumes "9 < length acts" "acts ! 9 = DEFAULT_ACTION"
  shows "length (fold (\<lambda>s acts. if a_handler (acts ! s) \<noteq> SIG_IGN then acts[s := DEFAULT_ACTION] else acts) xs acts) = length acts
    \<and> fold (\<lambda>s acts. if a_handler (acts ! s) \<noteq> SIG_IGN then acts[s := DEFAULT_ACTION] else acts) xs acts ! 9 = DEFAULT_ACTION"
  using assms
proof (induction xs arbitrary: acts)
  case (Cons x xs)
  then show ?case by (cases "x = 9") simp_all
qed simp

lemma signal_reset_inv [keeps]: "procs_inv ps \<Longrightarrow> procs_inv (signal_reset_for_exec s ps)"
  unfolding signal_reset_for_exec_def by (erule procs_inv_upd) (simp add: proc_ok_def fold_reset)

lemma proc_reach_inv: "proc_reach ps \<Longrightarrow> procs_inv ps"
proof (induction rule: proc_reach.induct)
  case boot
  show ?case by (rule proc_init_boot_inv [OF procs_inv_boot])
next
  case (console ps cur tty sig)
  then show ?case by (simp add: signal_console_def kill_inv queue_slot_inv)
next
  case (waited ps s)
  then show ?case by (intro procs_inv_upd) simp_all
qed (simp_all only: keeps)

text \<open>C15. SIGKILL cannot be escaped: whatever sequence of signal, group, fork, exec, exit and wait
  operations ran, SIGKILL is in no blocked mask, no task has another disposition for it than the
  default, and once it is queued for a task it is the next signal the task takes.\<close>

theorem sigkill_inescapable:
  assumes "proc_reach ps" and "s < MAX_TASKS"
  shows "\<not> bit (blocked_of s ps) (unat SIGKILL) \<and> action_of s SIGKILL ps = DEFAULT_ACTION
    \<and> fst (dequeue s (queue_slot s SIGKILL ps)) = Some SIGKILL"
proof -
  have inv: "procs_inv ps" by (rule proc_reach_inv [OF assms(1)])
  have u: "unat SIGKILL = 9" "SIGKILL \<noteq> 0" "\<not> NSIG \<le> SIGKILL" by (simp_all add: abi_defs)
  have "queue_slot s SIGKILL ps ! s = (ps ! s)\<lparr>pr_pending := pr_pending (ps ! s) OR sig_mask SIGKILL\<rparr>"
    using u assms(2) procs_inv_length [OF inv] by (simp add: queue_slot_def upd_proc_nth)
  then have "bit (pr_pending (queue_slot s SIGKILL ps ! s)) 9" by (simp add: bit_simps)
  then have "fst (dequeue s (queue_slot s SIGKILL ps)) = Some SIGKILL"
    by (simp add: dequeue_def Let_def and_mask_kill)
  with procs_inv_nth [OF inv assms(2)] u show ?thesis by (simp add: proc_ok_def blocked_of_def action_of_def)
qed

theorem sigkill_inescapable_witness:
  "fst (dequeue 3 (queue_slot 3 SIGKILL (snd (sigprocmask 3 SIG_SETMASK 0xFFFFFFFF (proc_init_boot procs_boot))))) = Some SIGKILL"
  using sigkill_inescapable [OF proc_reach.mask_change [OF proc_reach.boot], of 3] by (simp add: MAX_TASKS_def)

text \<open>Which signal a task takes: nothing exactly when nothing is deliverable (pending and not
  blocked, or SIGKILL); otherwise SIGKILL if it is pending, else the lowest-numbered pending signal
  that is not blocked; the taken signal is removed from the pending mask and nothing else changes.\<close>

theorem dequeue_lowest:
  assumes "slot < length ps"
  shows "case dequeue slot ps of
      (None, ps') \<Rightarrow> ps' = ps \<and> \<not> has_deliverable slot ps
    | (Some sig, ps') \<Rightarrow> has_deliverable slot ps \<and> bit (pr_pending (ps ! slot)) (unat sig)
        \<and> (sig = SIGKILL \<or> \<not> bit (pr_pending (ps ! slot)) (unat SIGKILL) \<and> \<not> bit (blocked_of slot ps) (unat sig)
            \<and> (\<forall>j<unat sig. bit (pr_pending (ps ! slot)) j \<longrightarrow> bit (blocked_of slot ps) j))
        \<and> ps' = ps[slot := (ps ! slot)\<lparr>pr_pending := pr_pending (ps ! slot) AND NOT (push_bit (unat sig) 1)\<rparr>]"
proof (cases "dequeue slot ps")
  case (Pair r ps')
  have nine: "unat SIGKILL = 9" by (simp add: abi_defs)
  show ?thesis
  proof (cases r)
    case None
    with Pair dequeue_None [of slot ps ps'] show ?thesis by simp
  next
    case (Some sig)
    with Pair have "dequeue slot ps = (Some sig, ps')" by simp
    note d = dequeue_Some [OF assms this]
    then have "has_deliverable slot ps" unfolding has_deliverable_iff using nine by blast
    with d Pair Some nine show ?thesis by (simp add: blocked_of_def)
  qed
qed

theorem dequeue_lowest_witness:
  "\<exists>ps'. dequeue 0 [EMPTY_PROC\<lparr>pr_pending := 0x24, pr_blocked := 0x04\<rparr>] = (Some 5, ps') \<and> pr_pending (ps' ! 0) = 0x04"
proof -
  let ?ps = "[EMPTY_PROC\<lparr>pr_pending := 0x24, pr_blocked := 0x04\<rparr>]"
  have "fst (dequeue 0 ?ps) = Some 5" by code_simp
  then obtain ps' where "dequeue 0 ?ps = (Some 5, ps')" by (metis prod.collapse)
  with dequeue_lowest [of 0 ?ps] show ?thesis by auto
qed


text \<open>A table with a shell in slot 1 and its child in slot 2.\<close>

definition demo_procs :: procs where
  "demo_procs = procs_boot[1 := EMPTY_PROC\<lparr>pr_used := True, pr_alive := True, pr_id := 1, pr_pgid := 1\<rparr>,
     2 := EMPTY_PROC\<lparr>pr_used := True, pr_alive := True, pr_id := 2, pr_ppid := 1, pr_pgid := 2\<rparr>]"

lemma demo_procs_nth:
  "demo_procs ! 1 = EMPTY_PROC\<lparr>pr_used := True, pr_alive := True, pr_id := 1, pr_pgid := 1\<rparr>"
  "demo_procs ! 2 = EMPTY_PROC\<lparr>pr_used := True, pr_alive := True, pr_id := 2, pr_ppid := 1, pr_pgid := 2\<rparr>"
  "j < MAX_TASKS \<Longrightarrow> j \<noteq> 1 \<Longrightarrow> j \<noteq> 2 \<Longrightarrow> demo_procs ! j = EMPTY_PROC"
  "length demo_procs = MAX_TASKS"
  by (simp_all add: demo_procs_def procs_boot_def MAX_TASKS_def)

lemma demo_procs_used: "j < MAX_TASKS \<Longrightarrow> pr_used (demo_procs ! j) \<Longrightarrow> j = 1 \<or> j = 2"
proof (rule ccontr)
  assume a: "j < MAX_TASKS" "pr_used (demo_procs ! j)" "\<not> (j = 1 \<or> j = 2)"
  then have "demo_procs ! j = EMPTY_PROC" by (intro demo_procs_nth) auto
  with a(2) show False by (simp add: EMPTY_PROC_def)
qed

lemma demo_procs_inv: "procs_inv demo_procs"
  unfolding demo_procs_def by (intro procs_inv_put procs_inv_boot) (simp_all add: proc_ok_EMPTY)





text \<open>C30. Exit, wait, reap: when a live child exits, its parent gets SIGCHLD; the parent's \<open>wait4\<close> for that
  pid returns at once with the pid and the exit status; after that the slot may be reaped, and a
  second \<open>wait4\<close> does not return it again.\<close>

theorem exit_wait_reap:
  assumes "procs_inv ps" and "c < MAX_TASKS" and "p < MAX_TASKS" and "c \<noteq> p"
    and "pr_used (ps ! c)" and "pr_alive (ps ! c)" and "\<not> pr_waited (ps ! c)" and "0 < sint (pr_id (ps ! c))"
    and "pr_ppid (ps ! c) \<noteq> 0" and "pr_used (ps ! p)"
    and "\<forall>j<MAX_TASKS. pr_used (ps ! j) \<longrightarrow> (pr_id (ps ! j) = pr_ppid (ps ! c)) = (j = p)"
    and "\<forall>j<MAX_TASKS. pr_used (ps ! j) \<longrightarrow> (pr_id (ps ! j) = pr_id (ps ! c)) = (j = c)"
  shows "let qs = on_exit c st ps in bit (pr_pending (qs ! p)) (unat SIGCHLD)
    \<and> (\<exists>rs. wait4 p (pr_id (ps ! c)) opts env qs = Some (Inr (pr_id (ps ! c), st), rs) \<and> reapable c rs
        \<and> \<not> zombie_ready (pr_id (ps ! c)) (pr_id (rs ! p)) (pr_pgid (rs ! p)) rs)"
proof -
  let ?qs = "on_exit c st ps" and ?i = "pr_id (ps ! c)"
  have len: "length ps = MAX_TASKS" using assms(1) by (simp add: procs_inv_def)
  let ?q1 = "ps[c := (ps ! c)\<lparr>pr_alive := False, pr_exit_status := st\<rparr>]"
  have idp: "pr_id (ps ! p) = pr_ppid (ps ! c)" using assms(3,10,11) by blast
  have q1: "?q1 ! j = (if j = c then (ps ! c)\<lparr>pr_alive := False, pr_exit_status := st\<rparr> else ps ! j)" for j
    using assms(2) len by simp
  have "slot_of_id (pr_ppid (ps ! c)) ?q1 = Some p"
    unfolding slot_of_id_def find_below_Some using assms(3,4,10,11) idp assms(2,5)
    by (auto simp: q1 less_trans dest: less_trans [of _ p MAX_TASKS])
  then have qs: "?qs = upd_proc p (\<lambda>q. q\<lparr>pr_pending := pr_pending q OR sig_mask SIGCHLD\<rparr>) ?q1"
    using assms(5,9) by (simp add: on_exit_def Let_def)
  have at: "?qs ! j = (if j = p then (ps ! p)\<lparr>pr_pending := pr_pending (ps ! p) OR sig_mask SIGCHLD\<rparr> else ?q1 ! j)" for j
    unfolding qs using assms(3,4) len q1 by (simp add: upd_proc_nth)
  have hit: "wait_hit ?i (pr_id (?qs ! p)) (pr_pgid (?qs ! p)) (?qs ! j) \<longleftrightarrow> j = c" if "j < MAX_TASKS" for j
    using that assms(4-8,10,12) idp by (auto simp: at q1 wait_hit_def)
  let ?rs = "upd_proc c (\<lambda>p. p\<lparr>pr_waited := True\<rparr>) ?qs"
  have "find_below (\<lambda>s. wait_hit ?i (pr_id (?qs ! p)) (pr_pgid (?qs ! p)) (?qs ! s)) MAX_TASKS = Some c"
    unfolding find_below_Some using hit assms(2) by (auto dest: less_trans)
  moreover have "pr_id (?qs ! c) = ?i" "pr_exit_status (?qs ! c) = st" using assms(4) by (simp_all add: at q1)
  ultimately have "wait4 p ?i opts env ?qs = Some (Inr (?i, st), ?rs)"
    by (simp add: wait4_def wait4_loop.simps del: find_below_Some)
  moreover have lenq: "length ?qs = MAX_TASKS" unfolding qs by (simp add: len)
  then have rs: "?rs ! j = (if j = c then (?qs ! c)\<lparr>pr_waited := True\<rparr> else ?qs ! j)" for j
    using assms(2) by (simp add: upd_proc_nth)
  have "reapable c ?rs" using assms(4,5) by (simp add: reapable_def Let_def rs at q1)
  moreover have "\<not> zombie_ready ?i (pr_id (?rs ! p)) (pr_pgid (?rs ! p)) ?rs"
    unfolding zombie_ready_def using hit assms(4) by (auto simp: rs) (auto simp: wait_hit_def)
  moreover have "bit (pr_pending (?qs ! p)) (unat SIGCHLD)" by (simp add: at bit_simps) (simp add: abi_defs)
  ultimately show ?thesis by (auto simp: Let_def)
qed

theorem exit_wait_reap_witness:
  "\<exists>rs. wait4 1 2 0 [] (on_exit 2 0x100 demo_procs) = Some (Inr (2, 0x100), rs) \<and> reapable 2 rs"
proof -
  have s2: "0 < sint (2 :: u64)" by simp
  have n: "1 < MAX_TASKS" "2 < MAX_TASKS" by (simp_all add: MAX_TASKS_def)
  have id: "pr_id (demo_procs ! 1) = 1" "pr_id (demo_procs ! 2) = 2" "pr_ppid (demo_procs ! 2) = 1"
    "pr_used (demo_procs ! 1)" "pr_used (demo_procs ! 2)" "pr_alive (demo_procs ! 2)" "\<not> pr_waited (demo_procs ! 2)"
    unfolding demo_procs_nth by (simp_all add: EMPTY_PROC_def)
  have "\<forall>j<MAX_TASKS. pr_used (demo_procs ! j) \<longrightarrow> (pr_id (demo_procs ! j) = pr_ppid (demo_procs ! 2)) = (j = 1)"
    "\<forall>j<MAX_TASKS. pr_used (demo_procs ! j) \<longrightarrow> (pr_id (demo_procs ! j) = pr_id (demo_procs ! 2)) = (j = 2)"
    using demo_procs_used id by fastforce+
  from exit_wait_reap [OF demo_procs_inv n(2,1) _ id(5-7) _ _ id(4) this, where st = "0x100" and opts = 0 and env = "[]"]
  show ?thesis unfolding Let_def id using s2 by fastforce
qed

end
