(* ===== verification/User_Vm.thy ===== *)
theory User_Vm
  imports Frame
begin

text \<open>
  User address spaces as the arch-neutral kernel sees them (\<^verbatim>\<open>src/kernel-core/src/user.rs\<close>): page
  protections and their union, the copy bridge to user memory (the x86-64 bodies of
  \<^verbatim>\<open>src/kernel/src/arch/x86_64/syscall.rs\<close>) and the page loops the memory calls run. User memory is a
  total byte function: page faults are not modelled. The operations of the page tables are recorded
  as a list of calls in the order the code makes them.
\<close>

section \<open>Protections\<close>

datatype prot = Ro | Rw | Rx | Rwx

definition prot_write :: "prot \<Rightarrow> bool" where
  "prot_write p \<longleftrightarrow> (case p of Rw \<Rightarrow> True | Rwx \<Rightarrow> True | _ \<Rightarrow> False)"

definition prot_exec :: "prot \<Rightarrow> bool" where
  "prot_exec p \<longleftrightarrow> (case p of Rx \<Rightarrow> True | Rwx \<Rightarrow> True | _ \<Rightarrow> False)"

fun prot_of_rights :: "bool \<Rightarrow> bool \<Rightarrow> prot" where
  "prot_of_rights False False = Ro"
| "prot_of_rights True False = Rw"
| "prot_of_rights False True = Rx"
| "prot_of_rights True True = Rwx"

definition prot_union :: "prot \<Rightarrow> prot \<Rightarrow> prot" where
  "prot_union a b = prot_of_rights (prot_write a \<or> prot_write b) (prot_exec a \<or> prot_exec b)"

lemma prot_of_rights [simp]:
  "prot_write (prot_of_rights w x) = w" "prot_exec (prot_of_rights w x) = x"
  "prot_of_rights (prot_write p) (prot_exec p) = p"
proof -
  show "prot_write (prot_of_rights w x) = w" "prot_exec (prot_of_rights w x) = x"
    by (cases w; cases x; simp add: prot_write_def prot_exec_def)+
  show "prot_of_rights (prot_write p) (prot_exec p) = p"
    by (cases p) (simp_all add: prot_write_def prot_exec_def)
qed

lemma prot_union_rights [simp]:
  "prot_write (prot_union a b) \<longleftrightarrow> prot_write a \<or> prot_write b"
  "prot_exec (prot_union a b) \<longleftrightarrow> prot_exec a \<or> prot_exec b"
  by (simp_all add: prot_union_def)

lemma prot_eqI: "prot_write a = prot_write b \<Longrightarrow> prot_exec a = prot_exec b \<Longrightarrow> a = b"
  by (cases a; cases b) (simp_all add: prot_write_def prot_exec_def)

text \<open>Protections ordered by the rights they give; the union of the source is the join.\<close>

instantiation prot :: semilattice_sup
begin

definition less_eq_prot :: "prot \<Rightarrow> prot \<Rightarrow> bool" where
  "less_eq_prot a b \<longleftrightarrow> (prot_write a \<longrightarrow> prot_write b) \<and> (prot_exec a \<longrightarrow> prot_exec b)"

definition less_prot :: "prot \<Rightarrow> prot \<Rightarrow> bool" where
  "less_prot a b \<longleftrightarrow> a \<le> b \<and> a \<noteq> b"

definition sup_prot :: "prot \<Rightarrow> prot \<Rightarrow> prot" where
  "sup_prot = prot_union"

instance
  by standard (auto simp: less_eq_prot_def less_prot_def sup_prot_def intro: prot_eqI)

end

section \<open>The copy bridge\<close>

type_synonym umem = "u64 \<Rightarrow> u8"

definition copy_in :: "nat \<Rightarrow> u64 \<Rightarrow> umem \<Rightarrow> u8 list option" where
  "copy_in n src m =
     (case checked_add src (of_nat n) of
        None \<Rightarrow> None
      | Some e \<Rightarrow> if src = 0 \<or> e > PHYS_OFFSET then None else Some (map (\<lambda>i. m (src + of_nat i)) [0..<n]))"

definition write_bytes :: "u64 \<Rightarrow> u8 list \<Rightarrow> umem \<Rightarrow> umem" where
  "write_bytes dst bs m = fold (\<lambda>i m. m(dst + of_nat i := bs ! i)) [0..<length bs] m"

definition copy_out :: "u64 \<Rightarrow> u8 list \<Rightarrow> umem \<Rightarrow> umem option" where
  "copy_out dst bs m =
     (case checked_add dst (of_nat (length bs)) of
        None \<Rightarrow> None
      | Some e \<Rightarrow> if dst = 0 \<or> e > PHYS_OFFSET then None else Some (write_bytes dst bs m))"

lemma length_copy_in: "copy_in n src m = Some bs \<Longrightarrow> length bs = n"
  by (auto simp: copy_in_def split: option.splits if_splits)

lemma fold_write_other:
  "(\<And>i. i \<in> set xs \<Longrightarrow> dst + of_nat i \<noteq> a) \<Longrightarrow> fold (\<lambda>i m. m(dst + of_nat i := bs ! i)) xs m a = m (a :: u64)"
  by (induction xs arbitrary: m) auto

lemma write_bytes_at:
  assumes "i < length bs" "length bs < 2 ^ 64"
  shows "write_bytes dst bs m (dst + of_nat i) = bs ! i"
proof -
  have "[0..<length bs] = [0..<i] @ i # [Suc i..<length bs]"
    using assms(1) upt_add_eq_append [of 0 i "length bs - i"] by (simp add: upt_conv_Cons)
  moreover have "(of_nat j :: u64) \<noteq> of_nat i" if "j \<in> set [Suc i..<length bs]" for j
    using that assms by (auto simp: word_unat_eq_iff unat_of_nat_u64)
  ultimately show ?thesis
    unfolding write_bytes_def by (simp, subst fold_write_other) auto
qed

lemma write_bytes_outside:
  "(\<And>i. i < length bs \<Longrightarrow> dst + of_nat i \<noteq> a) \<Longrightarrow> write_bytes dst bs m a = m a"
  unfolding write_bytes_def by (rule fold_write_other) simp

lemma copy_out_in:
  assumes "copy_out dst bs m = Some m'" "length bs < 2 ^ 64"
  shows "copy_in (length bs) dst m' = Some bs"
  using assms by (auto simp: copy_out_def copy_in_def write_bytes_at intro!: nth_equalityI split: option.splits if_splits)

section \<open>Page loops\<close>

datatype vm_call = VmMap u64 u64 u64 prot | VmUnmap u64 u64 | VmProtect u64 u64 prot | VmZero u64

definition page_down :: "u64 \<Rightarrow> u64" where
  "page_down a = a AND NOT 0xFFF"

definition page_up :: "u64 \<Rightarrow> u64" where
  "page_up a = (a + 0xFFF) AND NOT 0xFFF"

text \<open>\<^verbatim>\<open>let mut va = a; while va < end { ...; va += 0x1000; }\<close>: the pages visited, in order; \<open>None\<close> for a
  loop that does not end.\<close>

partial_function (option) page_walk :: "u64 \<Rightarrow> u64 \<Rightarrow> u64 list option" where
  "page_walk va end =
     (if va < end then
        Option.bind (page_walk (va + 0x1000) end) (\<lambda>vs. Some (va # vs))
      else Some [])"

text \<open>The body of the mapping loops: a zeroed frame per page, until the frames run out. The pages
  mapped are counted.\<close>

fun map_pages :: "u64 \<Rightarrow> prot \<Rightarrow> u64 list \<Rightarrow> frame_state \<Rightarrow> nat \<times> frame_state \<times> vm_call list" where
  "map_pages root pr [] fs = (0, fs, [])"
| "map_pages root pr (va # vs) fs =
     (case frame_alloc fs of
        (None, fs1) \<Rightarrow> (0, fs1, [])
      | (Some f, fs1) \<Rightarrow>
          (case map_pages root pr vs fs1 of
             (n, fs2, calls) \<Rightarrow> (Suc n, fs2, VmMap root va f pr # VmZero f # calls)))"

subsection \<open>Alignment and the walk\<close>

definition page_aligned :: "u64 \<Rightarrow> bool" where
  "page_aligned a \<longleftrightarrow> unat a mod 4096 = 0"

lemma unat_page_down: "unat (page_down a) = unat a - unat a mod 4096"
proof -
  have "(0xFFF :: u64) = mask 12" by (simp add: mask_eq_exp_minus_1)
  then have "page_down a = push_bit 12 (drop_bit 12 a)"
    unfolding page_down_def by (simp only: bit_eq_iff) (auto simp: bit_simps)
  moreover have "push_bit 12 (drop_bit 12 a) = a - take_bit 12 a"
    by (metis bits_ident add_diff_cancel_right')
  moreover have "unat (take_bit 12 a) = unat a mod 4096"
    by (simp add: take_bit_eq_mod unat_mod_distrib)
  ultimately show ?thesis by (simp add: unat_sub word_le_nat_alt)
qed

lemma page_down_aligned [simp]: "page_aligned (page_down a)"
  by (simp add: page_aligned_def unat_page_down minus_mod_eq_mult_div)

lemma page_up_down: "page_up a = page_down (a + 0xFFF)"
  by (simp add: page_up_def page_down_def)

lemma page_up_aligned [simp]: "page_aligned (page_up a)"
  by (simp add: page_up_down)

lemma page_down_le: "page_down a \<le> a"
  by (simp add: word_le_nat_alt unat_page_down)

lemma page_aligned_down: "page_aligned a \<Longrightarrow> page_down a = a"
  by (simp add: word_unat_eq_iff unat_page_down page_aligned_def)

lemma page_up_bounds:
  assumes "unat a + 0xFFF < 2 ^ 64"
  shows "unat a \<le> unat (page_up a)" and "unat (page_up a) < unat a + 4096"
proof -
  have "unat (a + 0xFFF) = unat a + 0xFFF" using assms by (simp add: unat_word_ariths)
  then show "unat a \<le> unat (page_up a)" "unat (page_up a) < unat a + 4096"
    by (simp_all add: page_up_down unat_page_down)
qed

lemma page_aligned_dvd: "page_aligned a \<longleftrightarrow> 4096 dvd unat a"
  by (simp add: page_aligned_def mod_eq_0_iff_dvd)

lemma page_aligned_add: "page_aligned a \<Longrightarrow> page_aligned b \<Longrightarrow> page_aligned (a + b)"
  unfolding page_aligned_dvd unat_word_ariths by (rule dvd_mod) (simp_all add: dvd_add)

lemma page_aligned_step: "page_aligned a \<Longrightarrow> page_aligned (a + 0x1000)"
  by (rule page_aligned_add) (simp_all add: page_aligned_def)

lemma page_aligned_less:
  assumes "page_aligned a" "page_aligned b" "a < b"
  shows "unat (a + 0x1000) = unat a + 4096" and "unat a + 4096 \<le> unat b"
proof -
  obtain x y where "unat a = 4096 * x" "unat b = 4096 * y" using assms(1,2) unfolding page_aligned_dvd by (auto elim!: dvdE)
  moreover have "unat a < unat b" using assms(3) by (simp add: word_less_nat_alt)
  ultimately show le: "unat a + 4096 \<le> unat b" by simp
  moreover have "unat b < 2 ^ 64" using unsigned_less [of b] by simp
  ultimately show "unat (a + 0x1000) = unat a + 4096" by (simp add: unat_word_ariths)
qed

text \<open>With page-aligned bounds, as every caller has them, the loop ends after exactly the pages of the
  range.\<close>

lemma page_walk_pages:
  assumes "page_aligned va" "page_aligned end" "n = (unat end - unat va) div 4096"
  shows "page_walk va end = Some (map (\<lambda>i. va + 0x1000 * of_nat i) [0..<n])"
  using assms
proof (induction n arbitrary: va)
  case 0
  then have "\<not> va < end" using page_aligned_less(2) [of va "end"] by auto
  then show ?case by (simp add: page_walk.simps)
next
  case (Suc n)
  then have lt: "va < end" by (cases "va < end") (auto simp: word_less_nat_alt not_less)
  note b = page_aligned_less [OF Suc.prems(1,2) lt]
  have "n = (unat end - unat (va + 0x1000)) div 4096" using Suc.prems(3) b by simp
  from Suc.IH [OF page_aligned_step [OF Suc.prems(1)] Suc.prems(2) this] lt
  show ?case by (simp add: page_walk.simps [of va] upt_conv_Cons map_Suc_upt [symmetric] algebra_simps del: upt_Suc)
qed

lemma page_walk_total: "page_aligned va \<Longrightarrow> page_aligned end \<Longrightarrow> \<exists>vs. page_walk va end = Some vs"
  using page_walk_pages by blast

lemma page_walk_empty: "end \<le> va \<Longrightarrow> page_walk va end = Some []"
  by (subst page_walk.simps) (simp add: leD)

end
