(* ===== verification/Vma.thy ===== *)
theory Vma
  imports Process User_Vm
begin

text \<open>
  The address-space calls of \<^verbatim>\<open>src/kernel-core/src/process/vma.rs\<close>: the VMA list of a process and
  \<open>mmap2\<close>, \<open>munmap\<close>, \<open>mprotect\<close>. \<open>None\<close> is a call that does not return. Page-table
  operations are the list of calls made, frames come from the frame allocator.
\<close>

section \<open>The VMA list\<close>

definition vma_clear :: "nat \<Rightarrow> procs \<Rightarrow> procs" where
  "vma_clear slot ps = upd_proc slot (\<lambda>p. p\<lparr>pr_vmas := [], pr_mmap_next := USER_MMAP_BASE\<rparr>) ps"

definition vma_overlaps :: "vma list \<Rightarrow> u64 \<Rightarrow> u64 \<Rightarrow> bool" where
  "vma_overlaps vs start end \<longleftrightarrow> list_ex (\<lambda>v. start < v_end v \<and> end > v_start v) vs"

definition vma_hits :: "u64 \<Rightarrow> u64 \<Rightarrow> vma \<Rightarrow> bool" where
  "vma_hits start end v \<longleftrightarrow> \<not> (v_end v \<le> start \<or> v_start v \<ge> end)"

lemma filter_drop_update:
  "i < length vs \<Longrightarrow> \<not> P w \<Longrightarrow> P (vs ! i) \<Longrightarrow>
   length (filter P (drop (Suc i) (vs[i := w]))) < length (filter P (drop i vs))"
  by (simp add: Cons_nth_drop_Suc [symmetric])

lemma filter_drop_remove:
  assumes "i < length vs"
  shows "length (filter P (drop i (butlast (vs[i := last vs])))) < Suc (length (filter P (drop (Suc i) vs)))"
proof (cases "Suc i = length vs")
  case True
  then have "drop i (butlast (vs[i := last vs])) = []" by simp
  then show ?thesis by simp
next
  case False
  then obtain us u where vs: "vs = us @ [u]" "i < length us" using assms(1)
    by (metis append_butlast_last_id length_append_singleton less_SucE list.size(3) not_less_zero)
  then have "butlast (vs[i := last vs]) = us[i := u]" by (simp add: list_update_append)
  moreover have "length (filter P (drop i (us[i := u]))) = length (filter P (u # drop (Suc i) us))"
    using vs(2) by (simp add: Cons_nth_drop_Suc [symmetric])
  ultimately show ?thesis using vs by simp
qed

text \<open>The loop of \<open>vma_forget\<close>, with the index it has reached.\<close>

function vma_forget_loop :: "u64 \<Rightarrow> u64 \<Rightarrow> nat \<Rightarrow> vma list \<Rightarrow> vma list" where
  "vma_forget_loop start end i vs =
     (if i < length vs then
        let v = vs ! i in
        if v_end v \<le> start \<or> v_start v \<ge> end then vma_forget_loop start end (Suc i) vs
        else if v_start v < start \<and> v_end v > end then
          if length vs \<ge> MAX_VMAS then vs
          else vma_forget_loop start end (Suc i)
                 (vs[i := v\<lparr>v_end := start\<rparr>] @ [v\<lparr>v_start := end\<rparr>])
        else if v_start v < start then vma_forget_loop start end (Suc i) (vs[i := v\<lparr>v_end := start\<rparr>])
        else if v_end v > end then vma_forget_loop start end (Suc i) (vs[i := v\<lparr>v_start := end\<rparr>])
        else vma_forget_loop start end i (butlast (vs[i := last vs]))
      else vs)"
  by pat_completeness auto
termination
proof (relation "measures [\<lambda>(s, e, i, vs). length (filter (vma_hits s e) (drop i vs)), \<lambda>(s, e, i, vs). length vs - i]")
qed (auto simp: vma_hits_def filter_drop_update filter_drop_remove Cons_nth_drop_Suc [symmetric] not_le)

declare vma_forget_loop.simps [simp del]

definition vma_forget :: "nat \<Rightarrow> u64 \<Rightarrow> u64 \<Rightarrow> procs \<Rightarrow> procs" where
  "vma_forget slot start end ps =
     upd_proc slot (\<lambda>p. p\<lparr>pr_vmas := vma_forget_loop start end 0 (pr_vmas p)\<rparr>) ps"

definition vma_reprotect :: "nat \<Rightarrow> u64 \<Rightarrow> u64 \<Rightarrow> u64 \<Rightarrow> procs \<Rightarrow> procs" where
  "vma_reprotect slot start end pr ps =
     upd_proc slot (\<lambda>p. p\<lparr>pr_vmas := map (\<lambda>v. if v_start v < end \<and> v_end v > start then v\<lparr>v_prot := pr\<rparr> else v) (pr_vmas p)\<rparr>) ps"

definition vma_holds :: "u64 \<Rightarrow> vma \<Rightarrow> bool" where
  "vma_holds x v \<longleftrightarrow> v_start v \<le> x \<and> x < v_end v"

function vma_contains_loop :: "vma list \<Rightarrow> u64 \<Rightarrow> u64 \<Rightarrow> bool" where
  "vma_contains_loop vs cur end =
     (if cur < end then
        (case List.find (vma_holds cur) vs of
           Some v \<Rightarrow>
             let step = min (v_end v) end in
             if step \<le> cur then False else vma_contains_loop vs step end
         | None \<Rightarrow> False)
      else True)"
  by pat_completeness auto
termination
  by (relation "measure (\<lambda>(vs, cur, end). unat end - unat cur)") (auto simp: word_less_nat_alt not_le)

declare vma_contains_loop.simps [simp del]

definition vma_contains :: "nat \<Rightarrow> u64 \<Rightarrow> u64 \<Rightarrow> procs \<Rightarrow> bool" where
  "vma_contains slot start end ps = vma_contains_loop (pr_vmas (ps ! slot)) start end"

section \<open>mmap2, munmap, mprotect\<close>

definition kprot :: "u64 \<Rightarrow> prot option" where
  "kprot pr = (if pr = 0 then None
     else Some (prot_of_rights (pr AND PROT_WRITE \<noteq> 0) (pr AND PROT_EXEC \<noteq> 0)))"

text \<open>\<^verbatim>\<open>while vma_overlaps(p, probe, probe + rounded) { probe += 0x1000; }\<close>\<close>

partial_function (option) mmap_probe :: "vma list \<Rightarrow> u64 \<Rightarrow> u64 \<Rightarrow> u64 option" where
  "mmap_probe vs probe rounded =
     (if vma_overlaps vs probe (probe + rounded) then mmap_probe vs (probe + 0x1000) rounded else Some probe)"

text \<open>The locked section of \<open>mmap2\<close>: choose and reserve the range.\<close>

definition mmap_reserve :: "u64 \<Rightarrow> u64 \<Rightarrow> u64 \<Rightarrow> u64 \<Rightarrow> proc \<Rightarrow> ((u64 \<times> u64) res \<times> proc) option" where
  "mmap_reserve addr rounded pr flags p =
     (let start = (if flags AND MAP_FIXED \<noteq> 0 then page_down addr else page_down (pr_mmap_next p)) in
      if start < USER_MMAP_BASE \<or> start + rounded > PHYS_OFFSET then Some (Inl SYS_ERR_NOMEM, p)
      else Option.bind (mmap_probe (pr_vmas p) start rounded) (\<lambda>probe.
        if flags AND MAP_FIXED \<noteq> 0 \<and> probe \<noteq> start then Some (Inl SYS_ERR_NOMEM, p)
        else
          let end = probe + rounded in
          if length (pr_vmas p) \<ge> MAX_VMAS then Some (Inl SYS_ERR_NOMEM, p)
          else Some (Inr (probe, end),
            p\<lparr>pr_vmas := pr_vmas p @ [\<lparr>v_start = probe, v_end = end, v_prot = pr\<rparr>], pr_mmap_next := end\<rparr>)))"

record vm_state =
  vm_procs :: procs
  vm_frames :: frame_state
  vm_calls :: "vm_call list"

text \<open>The rest of \<open>mmap2\<close>, outside the lock: map a zeroed frame at each page of the reserved range.\<close>

definition mmap_commit :: "nat \<Rightarrow> u64 \<Rightarrow> u64 \<Rightarrow> (u64 \<times> u64) res \<times> proc \<Rightarrow> vm_state \<Rightarrow> (u64 \<times> vm_state) option" where
  "mmap_commit slot root pr = (\<lambda>(r, p) st.
     let st1 = st\<lparr>vm_procs := (vm_procs st)[slot := p]\<rparr> in
     case r of
       Inl e \<Rightarrow> Some (e, st1)
     | Inr (base, end) \<Rightarrow>
         (case kprot pr of
            None \<Rightarrow> Some (SYS_ERR_INVAL, st1)
          | Some kp \<Rightarrow> Option.bind (page_walk base end) (\<lambda>vs.
              case map_pages root kp vs (vm_frames st1) of (n, fs, calls) \<Rightarrow>
                Some (if n = length vs then base else SYS_ERR_NOMEM,
                  st1\<lparr>vm_frames := fs, vm_calls := vm_calls st1 @ calls\<rparr>))))"

definition mmap2 :: "nat \<Rightarrow> u64 \<Rightarrow> u64 \<Rightarrow> u64 \<Rightarrow> u64 \<Rightarrow> u64 \<Rightarrow> u64 \<Rightarrow> vm_state \<Rightarrow> (u64 \<times> vm_state) option" where
  "mmap2 slot root addr len pr flags fd st =
     (if len = 0 \<or> len > push_bit 20 64 then Some (SYS_ERR_INVAL, st)
      else if flags AND MAP_ANONYMOUS = 0 \<or> flags AND MAP_SHARED \<noteq> 0 \<or> 0 \<le> sint fd then Some (SYS_ERR_NOSYS, st)
      else Option.bind (mmap_reserve addr (page_up len) pr flags (vm_procs st ! slot)) (\<lambda>rp. mmap_commit slot root pr rp st))"

definition munmap :: "nat \<Rightarrow> u64 \<Rightarrow> u64 \<Rightarrow> u64 \<Rightarrow> vm_state \<Rightarrow> (u64 \<times> vm_state) option" where
  "munmap slot root addr len st =
     (if len = 0 then Some (SYS_ERR_INVAL, st)
      else
        let start = page_down addr; end = page_up (addr + len) in
        if \<not> vma_contains slot start end (vm_procs st) then Some (SYS_ERR_INVAL, st)
        else Option.bind (page_walk start end) (\<lambda>vs.
          Some (SYS_OK, st\<lparr>vm_procs := vma_forget slot start end (vm_procs st),
                           vm_calls := vm_calls st @ map (VmUnmap root) vs\<rparr>)))"

definition mprotect :: "nat \<Rightarrow> u64 \<Rightarrow> u64 \<Rightarrow> u64 \<Rightarrow> u64 \<Rightarrow> vm_state \<Rightarrow> (u64 \<times> vm_state) option" where
  "mprotect slot root addr len pr st =
     (case kprot pr of
        None \<Rightarrow> Some (SYS_ERR_INVAL, st)
      | Some kp \<Rightarrow>
          let start = page_down addr; end = page_up (addr + len) in
          if \<not> vma_contains slot start end (vm_procs st) then Some (SYS_ERR_INVAL, st)
          else Option.bind (page_walk start end) (\<lambda>vs.
            Some (SYS_OK, st\<lparr>vm_procs := vma_reprotect slot start end pr (vm_procs st),
                             vm_calls := vm_calls st @ map (\<lambda>va. VmProtect root va kp) vs\<rparr>)))"

section \<open>Well-formed VMA lists\<close>

definition vma_apart :: "vma \<Rightarrow> vma \<Rightarrow> bool" where
  "vma_apart v w \<longleftrightarrow> v_end v \<le> v_start w \<or> v_end w \<le> v_start v"

definition vma_ok :: "vma \<Rightarrow> bool" where
  "vma_ok v \<longleftrightarrow> v_start v < v_end v \<and> page_aligned (v_start v) \<and> page_aligned (v_end v)"

definition vmas_ok :: "vma list \<Rightarrow> bool" where
  "vmas_ok vs \<longleftrightarrow> distinct vs \<and> (\<forall>v\<in>set vs. vma_ok v) \<and> (\<forall>v\<in>set vs. \<forall>w\<in>set vs. v \<noteq> w \<longrightarrow> vma_apart v w)"

text \<open>Address \<open>x\<close> is mapped with protection word \<open>q\<close>.\<close>

definition vma_prot_at :: "vma list \<Rightarrow> u64 \<Rightarrow> u64 \<Rightarrow> bool" where
  "vma_prot_at vs x q \<longleftrightarrow> (\<exists>v\<in>set vs. vma_holds x v \<and> v_prot v = q)"

definition in_area :: "u64 \<Rightarrow> u64 \<Rightarrow> u64 \<Rightarrow> bool" where
  "in_area s e x \<longleftrightarrow> s \<le> x \<and> x < e"

lemma swap_remove:
  assumes "distinct vs" "i < length vs"
  shows "distinct (butlast (vs[i := last vs]))" and "set (butlast (vs[i := last vs])) = set vs - {vs ! i}"
    and "j < i \<Longrightarrow> butlast (vs[i := last vs]) ! j = vs ! j" and "length (butlast (vs[i := last vs])) = length vs - 1"
proof -
  obtain us u where vs: "vs = us @ [u]" using assms(2) by (cases vs rule: rev_cases) auto
  have *: "butlast (vs[i := last vs]) = (if i < length us then us[i := u] else us)"
    using assms(2) by (auto simp: vs list_update_append)
  show "distinct (butlast (vs[i := last vs]))" "set (butlast (vs[i := last vs])) = set vs - {vs ! i}"
    unfolding * using assms by (auto simp: vs nth_append distinct_list_update set_update_distinct nth_eq_iff_index_eq)
  show "j < i \<Longrightarrow> butlast (vs[i := last vs]) ! j = vs ! j" "length (butlast (vs[i := last vs])) = length vs - 1"
    unfolding * using assms(2) by (auto simp: vs nth_append)
qed

lemma vmas_ok_shrink:
  assumes "vmas_ok vs" "i < length vs" "vma_ok w" "v_start (vs ! i) \<le> v_start w" "v_end w \<le> v_end (vs ! i)"
  shows "vmas_ok (vs[i := w])"
proof -
  let ?v = "vs ! i"
  have v: "?v \<in> set vs" "distinct vs" using assms by (simp_all add: vmas_ok_def)
  have ap: "vma_apart w u" "u \<noteq> w" if "u \<in> set vs - {?v}" for u
  proof -
    have a: "vma_apart ?v u" "vma_ok u" using assms(1) v that by (auto simp: vmas_ok_def)
    then show "vma_apart w u" using assms(4,5) by (auto simp: vma_apart_def)
    with a assms(3) show "u \<noteq> w" by (auto simp: vma_apart_def vma_ok_def)
  qed
  then have "w \<notin> set vs - {?v}" by blast
  then have "distinct (vs[i := w])" using v(2) by (simp add: distinct_list_update)
  moreover have "set (vs[i := w]) = insert w (set vs - {?v})" using v(2) assms(2) by (simp add: set_update_distinct)
  ultimately show ?thesis using assms(1,3) ap unfolding vmas_ok_def by (auto simp: vma_apart_def)
qed

lemma vmas_ok_snoc:
  assumes "vmas_ok vs" "vma_ok w" "\<And>u. u \<in> set vs \<Longrightarrow> vma_apart u w"
  shows "vmas_ok (vs @ [w])"
proof -
  have "w \<notin> set vs" using assms(2) assms(3) [of w] by (auto simp: vma_apart_def vma_ok_def)
  with assms show ?thesis by (auto simp: vmas_ok_def vma_apart_def)
qed

lemma vmas_ok_removed: "vmas_ok vs \<Longrightarrow> i < length vs \<Longrightarrow> vmas_ok (butlast (vs[i := last vs]))"
  by (auto simp: vmas_ok_def swap_remove)

lemma prot_at_update:
  assumes "i < length vs" "distinct vs" "v_prot w = v_prot (vs ! i)" "vma_holds x w \<longleftrightarrow> vma_holds x (vs ! i)"
  shows "vma_prot_at (vs[i := w]) x q \<longleftrightarrow> vma_prot_at vs x q"
proof -
  have "set vs = insert (vs ! i) (set vs - {vs ! i})" using assms(1) by auto
  then show ?thesis using assms by (auto simp: vma_prot_at_def set_update_distinct)
qed

lemma prot_at_removed:
  assumes "i < length vs" "distinct vs" "\<not> vma_holds x (vs ! i)"
  shows "vma_prot_at (butlast (vs[i := last vs])) x q \<longleftrightarrow> vma_prot_at vs x q"
  using assms by (auto simp: vma_prot_at_def swap_remove)

text \<open>A VMA that strictly contains the range to forget would have to be split.\<close>

definition vma_spans :: "u64 \<Rightarrow> u64 \<Rightarrow> vma \<Rightarrow> bool" where
  "vma_spans s e v \<longleftrightarrow> v_start v < s \<and> e < v_end v"

lemma forget_done:
  assumes "\<forall>v\<in>set vs. \<not> vma_hits s e v"
  shows "vma_prot_at vs x q \<longleftrightarrow> vma_prot_at vs x q \<and> \<not> in_area s e x"
  using assms by (force simp: vma_prot_at_def vma_hits_def vma_holds_def in_area_def)

lemma split_isolated:
  assumes "vmas_ok vs" "v \<in> set vs" "vma_spans s e v" "s < e" "u \<in> set vs" "u \<noteq> v"
  shows "\<not> vma_hits s e u"
  using assms by (force simp: vmas_ok_def vma_apart_def vma_spans_def vma_hits_def)

lemma forget_skip: "\<forall>v\<in>set vs. \<not> vma_hits s e v \<Longrightarrow> vma_forget_loop s e i vs = vs"
proof (induction s e i vs rule: vma_forget_loop.induct)
  case (1 s e i vs)
  then show ?case by (subst vma_forget_loop.simps) (auto simp: vma_hits_def)
qed

lemma vma_split:
  assumes "vmas_ok vs" "i < length vs" "vma_spans s e (vs ! i)" "s < e" "page_aligned s" "page_aligned e"
  defines "rs \<equiv> vs[i := (vs ! i)\<lparr>v_end := s\<rparr>] @ [(vs ! i)\<lparr>v_start := e\<rparr>]"
  shows "vmas_ok rs" and "\<forall>v\<in>set rs. \<not> vma_hits s e v"
    and "\<not> in_area s e x \<Longrightarrow> vma_prot_at rs x q \<longleftrightarrow> vma_prot_at vs x q"
proof -
  let ?v = "vs ! i" and ?a = "(vs ! i)\<lparr>v_end := s\<rparr>" and ?b = "(vs ! i)\<lparr>v_start := e\<rparr>"
  have d: "distinct vs" and v: "?v \<in> set vs" "vma_ok ?v" using assms(1,2) by (auto simp: vmas_ok_def)
  have sp: "v_start ?v < s" "e < v_end ?v" using assms(3) by (simp_all add: vma_spans_def)
  have a: "vma_ok ?a" and b: "vma_ok ?b" using v sp assms(5,6) by (auto simp: vma_ok_def)
  have set_a: "set (vs[i := ?a]) = insert ?a (set vs - {?v})" using d assms(2) by (simp add: set_update_distinct)
  have "vmas_ok (vs[i := ?a])" by (rule vmas_ok_shrink [OF assms(1,2) a]) (use sp assms(4) in auto)
  moreover have "vma_apart u ?b" if "u \<in> set (vs[i := ?a])" for u
  proof (cases "u = ?a")
    case True
    then show ?thesis using assms(4) by (simp add: vma_apart_def order_less_imp_le)
  next
    case False
    then have "vma_apart u ?v" using that assms(1) v unfolding set_a by (auto simp: vmas_ok_def)
    then show ?thesis using sp assms(4) by (auto simp: vma_apart_def)
  qed
  ultimately show "vmas_ok rs" unfolding rs_def by (rule vmas_ok_snoc [OF _ b])
  have "\<not> vma_hits s e u" if "u \<in> set vs - {?v}" for u
    using split_isolated [OF assms(1) v(1) assms(3,4)] that by blast
  then show "\<forall>v\<in>set rs. \<not> vma_hits s e v" unfolding rs_def by (auto simp: set_a vma_hits_def)
  assume x: "\<not> in_area s e x"
  then have "vma_holds x ?a \<or> vma_holds x ?b \<longleftrightarrow> vma_holds x ?v"
    using sp assms(4) by (auto simp: vma_holds_def in_area_def)
  moreover have "set vs = insert ?v (set vs - {?v})" using v(1) by auto
  ultimately show "vma_prot_at rs x q \<longleftrightarrow> vma_prot_at vs x q" 
    unfolding rs_def vma_prot_at_def by (auto simp: set_a)
qed

lemma forget_trim:
  assumes "vmas_ok vs" "i < length vs" "vma_ok w" "v_start (vs ! i) \<le> v_start w" "v_end w \<le> v_end (vs ! i)"
    and "\<not> vma_hits s e w" "v_prot w = v_prot (vs ! i)" "\<And>x. \<not> in_area s e x \<Longrightarrow> vma_holds x w \<longleftrightarrow> vma_holds x (vs ! i)"
    and "\<forall>j < i. j < length vs \<longrightarrow> \<not> vma_hits s e (vs ! j)"
    and "length vs < MAX_VMAS \<or> (\<forall>v\<in>set vs. \<not> vma_spans s e v)" "s < e"
  shows "vmas_ok (vs[i := w])" "\<forall>j < Suc i. j < length (vs[i := w]) \<longrightarrow> \<not> vma_hits s e (vs[i := w] ! j)"
    "length (vs[i := w]) < MAX_VMAS \<or> (\<forall>v\<in>set (vs[i := w]). \<not> vma_spans s e v)"
    "\<not> in_area s e x \<Longrightarrow> vma_prot_at (vs[i := w]) x q \<longleftrightarrow> vma_prot_at vs x q"
proof -
  show "vmas_ok (vs[i := w])" by (rule vmas_ok_shrink [OF assms(1-5)])
  show "\<forall>j < Suc i. j < length (vs[i := w]) \<longrightarrow> \<not> vma_hits s e (vs[i := w] ! j)"
    using assms(2,6,9) by (auto simp: nth_list_update less_Suc_eq)
  have "\<not> vma_spans s e w" using assms(6,11) by (auto simp: vma_spans_def vma_hits_def)
  then show "length (vs[i := w]) < MAX_VMAS \<or> (\<forall>v\<in>set (vs[i := w]). \<not> vma_spans s e v)"
    using assms(10) by (auto dest: set_update_subset_insert [THEN subsetD])
  show "\<not> in_area s e x \<Longrightarrow> vma_prot_at (vs[i := w]) x q \<longleftrightarrow> vma_prot_at vs x q"
    using assms(1,2,7,8) by (intro prot_at_update) (auto simp: vmas_ok_def)
qed

lemma vma_forget_loop_ok:
  assumes "vmas_ok vs" "s < e" "page_aligned s" "page_aligned e" "\<forall>j < i. j < length vs \<longrightarrow> \<not> vma_hits s e (vs ! j)"
    and "length vs < MAX_VMAS \<or> (\<forall>v\<in>set vs. \<not> vma_spans s e v)"
  shows "vmas_ok (vma_forget_loop s e i vs) \<and>
    (\<forall>x q. vma_prot_at (vma_forget_loop s e i vs) x q \<longleftrightarrow> vma_prot_at vs x q \<and> \<not> in_area s e x)"
  using assms
proof (induction s e i vs rule: vma_forget_loop.induct)
  case (1 s e i vs)
  let ?v = "vs ! i"
  note p = "1.prems"
  note step = vma_forget_loop.simps [of s e i vs]
  have ok: "vma_ok ?v" "distinct vs" "?v \<in> set vs" if "i < length vs" using p(1) that by (auto simp: vmas_ok_def)
  consider (stop) "\<not> i < length vs" | (miss) "i < length vs" "\<not> vma_hits s e ?v" | (span) "i < length vs" "vma_spans s e ?v"
    | (left) "i < length vs" "vma_hits s e ?v" "v_start ?v < s" "v_end ?v \<le> e"
    | (right) "i < length vs" "vma_hits s e ?v" "s \<le> v_start ?v" "e < v_end ?v"
    | (inside) "i < length vs" "vma_hits s e ?v" "s \<le> v_start ?v" "v_end ?v \<le> e"
    unfolding vma_spans_def by force
  then show ?case
  proof cases
    case stop
    then have "\<forall>v\<in>set vs. \<not> vma_hits s e v" using p(5) by (auto simp: in_set_conv_nth)
    with stop p(1) show ?thesis by (simp add: step forget_skip) (metis forget_done)
  next
    case miss
    then have "\<forall>j < Suc i. j < length vs \<longrightarrow> \<not> vma_hits s e (vs ! j)" using p(5) by (auto simp: less_Suc_eq)
    from "1.IH"(1) [OF miss(1) refl _ p(1-4) this p(6)] miss show ?thesis by (auto simp: step Let_def vma_hits_def)
  next
    case span
    then have lt: "length vs < MAX_VMAS" using p(6) ok by auto
    have hit: "\<not> (v_end ?v \<le> s \<or> v_start ?v \<ge> e)" using span(2) p(2) by (auto simp: vma_spans_def)
    note sp = vma_split [OF p(1) span p(2-4)]
    have "vma_forget_loop s e i vs = vs[i := ?v\<lparr>v_end := s\<rparr>] @ [?v\<lparr>v_start := e\<rparr>]"
      using span lt hit forget_skip [OF sp(2)] by (simp add: step Let_def vma_spans_def)
    with sp(1,3) forget_done [OF sp(2)] show ?thesis by metis
  next
    case left
    let ?w = "?v\<lparr>v_end := s\<rparr>"
    have hit: "\<not> (v_end ?v \<le> s \<or> v_start ?v \<ge> e)" using left(2) by (simp add: vma_hits_def)
    have w: "vma_ok ?w" "v_start ?v \<le> v_start ?w" "v_end ?w \<le> v_end ?v" "\<not> vma_hits s e ?w" "v_prot ?w = v_prot ?v"
      "\<And>x. \<not> in_area s e x \<Longrightarrow> vma_holds x ?w \<longleftrightarrow> vma_holds x ?v"
      using ok(1) [OF left(1)] left p(3) hit by (auto simp: vma_ok_def vma_hits_def in_area_def vma_holds_def)
    note t = forget_trim [OF p(1) left(1) w p(5,6,2)]
    have "vma_forget_loop s e i vs = vma_forget_loop s e (Suc i) (vs[i := ?w])"
      using left hit by (simp add: step Let_def leD)
    moreover note "1.IH"(3) [OF left(1) refl hit _ left(3) t(1) p(2-4) t(2,3)]
    ultimately show ?thesis using left t(4) by (auto simp: not_less)
  next
    case right
    let ?w = "?v\<lparr>v_start := e\<rparr>"
    have hit: "\<not> (v_end ?v \<le> s \<or> v_start ?v \<ge> e)" using right(2) by (simp add: vma_hits_def)
    have w: "vma_ok ?w" "v_start ?v \<le> v_start ?w" "v_end ?w \<le> v_end ?v" "\<not> vma_hits s e ?w" "v_prot ?w = v_prot ?v"
      "\<And>x. \<not> in_area s e x \<Longrightarrow> vma_holds x ?w \<longleftrightarrow> vma_holds x ?v"
      using ok(1) [OF right(1)] right p(4) hit by (auto simp: vma_ok_def vma_hits_def in_area_def vma_holds_def)
    note t = forget_trim [OF p(1) right(1) w p(5,6,2)]
    have "vma_forget_loop s e i vs = vma_forget_loop s e (Suc i) (vs[i := ?w])"
      using right hit by (simp add: step Let_def leD)
    moreover note "1.IH"(4) [OF right(1) refl hit _ _ right(4) t(1) p(2-4) t(2,3)]
    ultimately show ?thesis using right t(4) by (auto simp: not_less)
  next
    case inside
    let ?r = "butlast (vs[i := last vs])"
    have hit: "\<not> (v_end ?v \<le> s \<or> v_start ?v \<ge> e)" using inside(2) by (simp add: vma_hits_def)
    note sr = swap_remove [OF ok(2) [OF inside(1)] inside(1)]
    have r: "vmas_ok ?r" "\<forall>j < i. j < length ?r \<longrightarrow> \<not> vma_hits s e (?r ! j)"
      "length ?r < MAX_VMAS \<or> (\<forall>v\<in>set ?r. \<not> vma_spans s e v)"
      using vmas_ok_removed [OF p(1) inside(1)] p(5,6) sr by auto
    have "vma_prot_at ?r x q \<longleftrightarrow> vma_prot_at vs x q" if "\<not> in_area s e x" for x q
      using that inside ok by (intro prot_at_removed) (auto simp: in_area_def vma_holds_def)
    moreover have "vma_forget_loop s e i vs = vma_forget_loop s e i ?r"
      using inside hit by (simp add: step Let_def leD)
    moreover note "1.IH"(5) [OF inside(1) refl hit _ _ _ r(1) p(2-4) r(2,3)]
    ultimately show ?thesis using inside by (auto simp: not_less)
  qed
qed

lemma page_aligned_up: "page_aligned a \<Longrightarrow> page_up a = a"
proof -
  assume a: "page_aligned a"
  then obtain k where k: "unat a = 4096 * k" unfolding page_aligned_dvd by (auto elim!: dvdE)
  have "unat a < 2 ^ 64" using unsigned_less [of a] by simp
  then have "unat a + 0xFFF < 2 ^ 64" using k by simp
  note b = page_up_bounds [OF this]
  obtain m where "unat (page_up a) = 4096 * m" using page_up_aligned [of a] unfolding page_aligned_dvd by (auto elim!: dvdE)
  with b k have "m = k" by linarith
  with k show "page_up a = a" by (simp add: word_unat_eq_iff \<open>unat (page_up a) = 4096 * m\<close>)
qed

section \<open>Coverage, probing and mapping\<close>

definition vma_covers :: "vma list \<Rightarrow> u64 \<Rightarrow> bool" where
  "vma_covers vs x \<longleftrightarrow> (\<exists>v\<in>set vs. vma_holds x v)"

lemma vma_contains_loop_iff:
  "vma_contains_loop vs cur end \<longleftrightarrow> (\<forall>x. in_area cur end x \<longrightarrow> vma_covers vs x)"
proof (induction vs cur "end" rule: vma_contains_loop.induct)
  case (1 vs cur "end")
  note step = vma_contains_loop.simps [of vs cur "end"]
  show ?case
  proof (cases "cur < end")
    case False
    then show ?thesis by (auto simp: step in_area_def)
  next
    case True
    show ?thesis
    proof (cases "List.find (vma_holds cur) vs")
      case None
      then have "\<not> vma_covers vs cur" by (auto simp: find_None_iff vma_covers_def)
      with True None show ?thesis by (auto simp: step in_area_def)
    next
      case (Some v)
      then have v: "v \<in> set vs" "vma_holds cur v" by (auto simp: find_Some_iff)
      let ?s = "min (v_end v) end"
      have s: "\<not> ?s \<le> cur" using v(2) True by (auto simp: vma_holds_def min_def)
      have "vma_covers vs x" if "cur \<le> x" "x < ?s" for x
        using that v unfolding vma_covers_def vma_holds_def by (intro bexI [of _ v]) auto
      moreover have "in_area cur end x \<longleftrightarrow> (cur \<le> x \<and> x < ?s) \<or> in_area ?s end x" for x
        using s True by (auto simp: in_area_def min_le_iff_disj)
      ultimately show ?thesis using "1.IH" [OF True Some refl s] True Some s
        by (auto simp: step Let_def)
    qed
  qed
qed

lemma mmap_probe_finds:
  assumes "page_aligned probe" "\<forall>v\<in>set vs. page_aligned (v_end v)"
  shows "\<exists>q. mmap_probe vs probe rounded = Some q \<and> probe \<le> q \<and> page_aligned q \<and> \<not> vma_overlaps vs q (q + rounded)"
  using assms
proof (induction "2 ^ 64 - unat probe" arbitrary: probe rule: less_induct)
  case less
  show ?case
  proof (cases "vma_overlaps vs probe (probe + rounded)")
    case False
    with less.prems show ?thesis by (subst mmap_probe.simps) simp
  next
    case True
    then obtain v where "v \<in> set vs" "probe < v_end v" by (auto simp: vma_overlaps_def list_ex_iff)
    with page_aligned_less [OF less.prems(1)] less.prems(2)
    have u: "unat (probe + 0x1000) = unat probe + 4096" by blast
    have "unat (probe + 0x1000) < 2 ^ 64" using unsigned_less [of "probe + 0x1000"] by simp
    then have "2 ^ 64 - unat (probe + 0x1000) < 2 ^ 64 - unat probe" using u by linarith
    from less.hyps [OF this page_aligned_step [OF less.prems(1)] less.prems(2)] obtain q where
      q: "mmap_probe vs (probe + 0x1000) rounded = Some q" "probe + 0x1000 \<le> q" "page_aligned q" "\<not> vma_overlaps vs q (q + rounded)"
      by blast
    have "probe \<le> q" using q(2) u by (simp add: word_le_nat_alt)
    with q True show ?thesis by (subst mmap_probe.simps) simp
  qed
qed

lemma map_pages_many:
  "map_pages root kp vs fs = (n, fs', calls) \<longleftrightarrow> (\<exists>frames. fa.alloc_many (length vs) fs = (frames, fs') \<and> n = length frames
     \<and> calls = concat (map2 (\<lambda>va f. [VmMap root va f kp, VmZero f]) vs frames))"
proof (induction vs arbitrary: fs n fs' calls)
  case (Cons va vs)
  show ?case
  proof (cases "frame_alloc fs")
    case (Pair r fs1)
    obtain n2 fs2 c2 where m: "map_pages root kp vs fs1 = (n2, fs2, c2)" by (metis prod_cases3)
    with Cons [of fs1 n2 fs2 c2] obtain fr where "fa.alloc_many (length vs) fs1 = (fr, fs2)" "n2 = length fr"
      "c2 = concat (map2 (\<lambda>va f. [VmMap root va f kp, VmZero f]) vs fr)" by auto
    with m Pair show ?thesis by (cases r) auto
  qed
qed auto

lemma alloc_many_length: "length (fst (fa.alloc_many n fs)) \<le> n"
proof (induction n arbitrary: fs)
  case (Suc n)
  show ?case
  proof (cases "frame_alloc fs")
    case (Pair r fs1)
    then show ?thesis using Suc [of fs1] by (cases r) (auto split: prod.splits)
  qed
qed simp

lemma mmap_reserve_cases:
  assumes "\<forall>v\<in>set (pr_vmas p). page_aligned (v_end v)"
  shows "mmap_reserve addr rounded pr flags p = Some (Inl SYS_ERR_NOMEM, p) \<or>
    (\<exists>base. mmap_reserve addr rounded pr flags p = Some (Inr (base, base + rounded),
        p\<lparr>pr_vmas := pr_vmas p @ [\<lparr>v_start = base, v_end = base + rounded, v_prot = pr\<rparr>], pr_mmap_next := base + rounded\<rparr>)
      \<and> page_aligned base \<and> USER_MMAP_BASE \<le> base \<and> \<not> vma_overlaps (pr_vmas p) base (base + rounded)
      \<and> length (pr_vmas p) < MAX_VMAS)"
proof -
  let ?s = "if flags AND MAP_FIXED \<noteq> 0 then page_down addr else page_down (pr_mmap_next p)"
  have "page_aligned ?s" by simp
  from mmap_probe_finds [OF this assms, of rounded] obtain q where
    q: "mmap_probe (pr_vmas p) ?s rounded = Some q" "?s \<le> q" "page_aligned q" "\<not> vma_overlaps (pr_vmas p) q (q + rounded)" by blast
  show ?thesis
  proof (cases "?s < USER_MMAP_BASE")
    case True
    then show ?thesis unfolding mmap_reserve_def Let_def by simp
  next
    case False
    with q(2) have "USER_MMAP_BASE \<le> q" by (meson not_less order_trans)
    with False q(1,3,4) show ?thesis unfolding mmap_reserve_def Let_def q(1) bind.bind_lunit by auto
  qed
qed

section \<open>Properties\<close>

text \<open>\<open>vma_contains\<close> decides coverage: the walk over the VMA list, in whatever order the VMAs are
  stored, answers whether every address of the range lies in some VMA.\<close>

theorem vma_contains_iff:
  "vma_contains slot start end ps \<longleftrightarrow> (\<forall>x. in_area start end x \<longrightarrow> vma_covers (pr_vmas (ps ! slot)) x)"
  unfolding vma_contains_def by (rule vma_contains_loop_iff)

theorem vma_contains_iff_witness:
  "vma_contains 0 0x10001000 0x10003000
     [EMPTY_PROC\<lparr>pr_vmas := [\<lparr>v_start = 0x10002000, v_end = 0x10004000, v_prot = 1\<rparr>, \<lparr>v_start = 0x10000000, v_end = 0x10002000, v_prot = 3\<rparr>]\<rparr>]"
  by (subst vma_contains_iff) (auto simp: in_area_def vma_covers_def vma_holds_def word_le_nat_alt word_less_nat_alt)


text \<open>A process with one three-page VMA.\<close>

definition demo_vm :: vm_state where
  "demo_vm = \<lparr>vm_procs = [EMPTY_PROC\<lparr>pr_vmas := [\<lparr>v_start = 0x10000000, v_end = 0x10003000, v_prot = 3\<rparr>]\<rparr>],
     vm_frames = demo_frames, vm_calls = []\<rparr>"

lemma demo_vm_vmas: "pr_vmas (vm_procs demo_vm ! 0) = [\<lparr>v_start = 0x10000000, v_end = 0x10003000, v_prot = 3\<rparr>]"
  "length (vm_procs demo_vm) = 1"
  by (simp_all add: demo_vm_def)

lemma demo_vm_ok: "vmas_ok (pr_vmas (vm_procs demo_vm ! 0))"
  by (simp add: demo_vm_vmas vmas_ok_def vma_ok_def page_aligned_def)


text \<open>C33. A length that wraps is not refused: \<open>munmap(s, e - s)\<close> with \<open>e < s\<close> inside one VMA finds the
  (empty) range covered, unmaps nothing, reports success, and leaves two VMAs that both contain the
  addresses from \<open>e\<close> to \<open>s\<close>.\<close>

theorem munmap_wrapping_length:
  assumes "pr_vmas (vm_procs st ! slot) = [v]" and "slot < length (vm_procs st)"
    and "page_aligned s" and "page_aligned e" and "v_start v < e" and "e < s" and "s < v_end v"
  shows "\<exists>st'. munmap slot root s (e - s) st = Some (SYS_OK, st') \<and> vm_calls st' = vm_calls st
    \<and> pr_vmas (vm_procs st' ! slot) = [v\<lparr>v_end := s\<rparr>, v\<lparr>v_start := e\<rparr>] \<and> \<not> vmas_ok (pr_vmas (vm_procs st' ! slot))"
proof -
  have "\<not> s < e" "e \<noteq> s" using assms(6) by auto
  then have w: "page_walk s e = Some []" "vma_contains slot s e (vm_procs st)"
    using assms(6) by (auto simp: page_walk_empty vma_contains_def vma_contains_loop_iff in_area_def)
  have h: "\<not> v_end v \<le> s" "\<not> e \<le> v_start v" "v_start v < s" "e < v_end v" using assms by auto
  have "vma_forget_loop s e 0 [v] = [v\<lparr>v_end := s\<rparr>, v\<lparr>v_start := e\<rparr>]"
    using h by (simp add: vma_forget_loop.simps [of s e 0] vma_forget_loop.simps [of s e "Suc 0"]
      vma_forget_loop.simps [of s e "Suc (Suc 0)"] MAX_VMAS_def)
  moreover have "\<not> vmas_ok [v\<lparr>v_end := s\<rparr>, v\<lparr>v_start := e\<rparr>]"
    using assms by (cases v) (auto simp: vmas_ok_def vma_apart_def)
  ultimately show ?thesis using assms(1-4) w \<open>e \<noteq> s\<close>
    by (simp add: munmap_def Let_def page_aligned_down page_aligned_up vma_forget_def upd_proc_nth)
qed

theorem munmap_wrapping_length_witness:
  "\<exists>st'. munmap 0 7 0x10002000 (- 0x1000) demo_vm = Some (SYS_OK, st') \<and> \<not> vmas_ok (pr_vmas (vm_procs st' ! 0))"
  using munmap_wrapping_length [OF demo_vm_vmas(1), of "0x10002000" "0x10001000" 7] demo_vm_vmas(2)
  by (auto simp: page_aligned_def)



text \<open>The probe for a free range is not checked against the user half again: after two fixed mappings
  just below the kernel's direct map, an ordinary request of two pages is placed at \<open>PHYS_OFFSET\<close>, in the
  kernel half.\<close>

theorem mmap_reserve_kernel_half:
  assumes "pr_vmas p = []"
  shows "\<exists>p1 p2 p3.
      mmap_reserve (PHYS_OFFSET - 0x1000) 0x1000 3 MAP_FIXED p = Some (Inr (PHYS_OFFSET - 0x1000, PHYS_OFFSET), p1)
    \<and> mmap_reserve (PHYS_OFFSET - 0x3000) 0x1000 3 MAP_FIXED p1 = Some (Inr (PHYS_OFFSET - 0x3000, PHYS_OFFSET - 0x2000), p2)
    \<and> mmap_reserve 0 0x2000 3 0 p2 = Some (Inr (PHYS_OFFSET, PHYS_OFFSET + 0x2000), p3)"
proof -
  let ?A = "\<lparr>v_start = 0xFFFF7FFFFFFFF000, v_end = 0xFFFF800000000000, v_prot = 3\<rparr> :: vma"
  let ?B = "\<lparr>v_start = 0xFFFF7FFFFFFFD000, v_end = 0xFFFF7FFFFFFFE000, v_prot = 3\<rparr> :: vma"
  let ?p1 = "p\<lparr>pr_vmas := [?A], pr_mmap_next := 0xFFFF800000000000\<rparr>"
  let ?p2 = "p\<lparr>pr_vmas := [?A, ?B], pr_mmap_next := 0xFFFF7FFFFFFFE000\<rparr>"
  have probe: "mmap_probe [] a r = Some a" for a r
    by (subst mmap_probe.simps) (simp add: vma_overlaps_def)
  have one: "mmap_probe [?A] 0xFFFF7FFFFFFFD000 0x1000 = Some 0xFFFF7FFFFFFFD000"
    by (subst mmap_probe.simps) (simp add: vma_overlaps_def)
  have two: "mmap_probe [?A, ?B] 0xFFFF7FFFFFFFE000 0x2000 = Some 0xFFFF800000000000"
    by (subst mmap_probe.simps, simp add: vma_overlaps_def, subst mmap_probe.simps, simp add: vma_overlaps_def,
        subst mmap_probe.simps, simp add: vma_overlaps_def)
  have "mmap_reserve (PHYS_OFFSET - 0x1000) 0x1000 3 MAP_FIXED p = Some (Inr (PHYS_OFFSET - 0x1000, PHYS_OFFSET), ?p1)"
    using assms by (simp add: mmap_reserve_def Let_def abi_defs page_down_def probe)
  moreover have "mmap_reserve (PHYS_OFFSET - 0x3000) 0x1000 3 MAP_FIXED ?p1 = Some (Inr (PHYS_OFFSET - 0x3000, PHYS_OFFSET - 0x2000), ?p2)"
    by (simp add: mmap_reserve_def Let_def abi_defs page_down_def one)
  moreover have "\<exists>p3. mmap_reserve 0 0x2000 3 0 ?p2 = Some (Inr (PHYS_OFFSET, PHYS_OFFSET + 0x2000), p3)"
    by (simp add: mmap_reserve_def Let_def abi_defs page_down_def two)
  ultimately show ?thesis by blast
qed

theorem mmap_reserve_kernel_half_witness:
  "\<exists>p2 p3. mmap_reserve 0 0x2000 3 0 p2 = Some (Inr (PHYS_OFFSET, PHYS_OFFSET + 0x2000), p3)"
  using mmap_reserve_kernel_half [of EMPTY_PROC] by (auto simp: EMPTY_PROC_def)

end
