(* ===== verification/Brk.thy ===== *)
theory Brk
  imports Vma
begin

text \<open>
  The program break of \<^verbatim>\<open>src/kernel-core/src/brk.rs\<close>: per task slot the heap base, the logical break and the
  end of the mapped pages. Growth maps zeroed frames page by page; shrinking only moves the break.
\<close>

section \<open>Model\<close>

record brk_state =
  bk_base :: "u64 list"
  bk_break :: "u64 list"
  bk_mapped :: "u64 list"

definition brk_boot :: brk_state where
  "brk_boot = \<lparr>bk_base = replicate MAX_TASKS 0, bk_break = replicate MAX_TASKS 0, bk_mapped = replicate MAX_TASKS 0\<rparr>"

definition brk_init_task :: "nat \<Rightarrow> u64 \<Rightarrow> brk_state \<Rightarrow> brk_state" where
  "brk_init_task slot base0 b =
     (let base = (if base0 < USER_HEAP_BASE then USER_HEAP_BASE else page_up base0) in
      b\<lparr>bk_base := (bk_base b)[slot := base], bk_break := (bk_break b)[slot := base], bk_mapped := (bk_mapped b)[slot := base]\<rparr>)"

definition brk_clone_task :: "nat \<Rightarrow> nat \<Rightarrow> brk_state \<Rightarrow> brk_state" where
  "brk_clone_task parent child b =
     b\<lparr>bk_base := (bk_base b)[child := bk_base b ! parent], bk_break := (bk_break b)[child := bk_break b ! parent],
       bk_mapped := (bk_mapped b)[child := bk_mapped b ! parent]\<rparr>"

definition base_of :: "nat \<Rightarrow> brk_state \<Rightarrow> u64" where
  "base_of slot b = bk_base b ! slot"

record heap_env =
  he_brk :: brk_state
  he_frames :: frame_state
  he_calls :: "vm_call list"

text \<open>The mapping loop of \<open>brk\<close> advances the mapped end with every page it maps.\<close>

definition brk_grow :: "nat \<Rightarrow> u64 \<Rightarrow> u64 \<Rightarrow> heap_env \<Rightarrow> (bool \<times> heap_env) option" where
  "brk_grow slot root addr h =
     Option.bind (page_walk (page_down (bk_mapped (he_brk h) ! slot)) (page_up addr)) (\<lambda>vs.
       case map_pages root Rw vs (he_frames h) of (n, fs, calls) \<Rightarrow>
         let m = (if n = 0 then bk_mapped (he_brk h) ! slot else vs ! (n - 1) + 4096) in
         Some (n = length vs, h\<lparr>he_brk := (he_brk h)\<lparr>bk_mapped := (bk_mapped (he_brk h))[slot := m]\<rparr>,
            he_frames := fs, he_calls := he_calls h @ calls\<rparr>))"

definition brk :: "nat \<Rightarrow> u64 \<Rightarrow> u64 \<Rightarrow> heap_env \<Rightarrow> (u64 \<times> heap_env) option" where
  "brk slot root addr h0 =
     (let h = (if bk_break (he_brk h0) ! slot = 0 then h0\<lparr>he_brk := brk_init_task slot 0 (he_brk h0)\<rparr> else h0);
          b = he_brk h;
          finish = (\<lambda>h. (addr, h\<lparr>he_brk := (he_brk h)\<lparr>bk_break := (bk_break (he_brk h))[slot := addr]\<rparr>\<rparr>)) in
      if addr = 0 \<or> addr = bk_break b ! slot then Some (bk_break b ! slot, h)
      else if addr < bk_base b ! slot then Some (SYS_ERR_INVAL, h)
      else if addr > bk_mapped b ! slot then
        Option.bind (brk_grow slot root addr h) (\<lambda>(done, h1).
          if done then Some (finish h1) else Some (SYS_ERR_NOMEM, h1))
      else Some (finish h))"

section \<open>Invariant\<close>

definition brk_ok :: "nat \<Rightarrow> brk_state \<Rightarrow> bool" where
  "brk_ok slot b \<longleftrightarrow> slot < length (bk_base b) \<and> length (bk_break b) = length (bk_base b) \<and> length (bk_mapped b) = length (bk_base b)
     \<and> USER_HEAP_BASE \<le> bk_base b ! slot \<and> bk_base b ! slot \<le> bk_break b ! slot \<and> bk_break b ! slot \<le> bk_mapped b ! slot
     \<and> page_aligned (bk_mapped b ! slot)"

lemma brk_ok_init:
  assumes "slot < length (bk_base b)" "length (bk_break b) = length (bk_base b)" "length (bk_mapped b) = length (bk_base b)"
    and "unat base0 + 0xFFF < 2 ^ 64"
  shows "brk_ok slot (brk_init_task slot base0 b)"
proof -
  have "base0 \<le> page_up base0" using page_up_bounds(1) [OF assms(4)] by (simp add: word_le_nat_alt)
  moreover have "page_aligned USER_HEAP_BASE" by (simp add: page_aligned_def USER_HEAP_BASE_def)
  ultimately show ?thesis using assms by (auto simp: brk_ok_def brk_init_task_def Let_def not_less)
qed

text \<open>The pages mapped so far by the loop end where the mapped end says.\<close>

lemma grow_end:
  assumes "page_aligned m" "page_aligned e" "m \<le> e" "n \<le> (unat e - unat m) div 4096" "n \<noteq> 0"
  shows "unat (m + 0x1000 * of_nat (n - 1) + 4096) = unat m + 4096 * n"
proof -
  have lt: "unat e < 2 ^ 64" using unsigned_less [of e] by simp
  have n: "4096 * n \<le> unat e - unat m" using assms(4) by (meson div_times_less_eq_dividend le_trans mult_le_mono2 times_div_less_eq_dividend)
  define x :: u64 where "x = of_nat (4096 * n)"
  have "m + 0x1000 * of_nat (n - 1) + 4096 = m + x"
    unfolding x_def using assms(5) by (cases n) (simp_all add: algebra_simps)
  moreover have x: "unat x = 4096 * n" unfolding x_def using n lt by (intro unat_of_nat_u64) simp
  moreover have "unat m + unat x < 2 ^ 64" using n lt assms(3) x by (simp add: word_le_nat_alt)
  then have "unat (m + x) = unat m + unat x" by (simp add: unat_word_ariths)
  ultimately show ?thesis by (simp only:)
qed

lemma pages_exact: "page_aligned m \<Longrightarrow> page_aligned e \<Longrightarrow> m \<le> e \<Longrightarrow> unat m + 4096 * ((unat e - unat m) div 4096) = unat e"
  unfolding page_aligned_dvd by (simp add: word_le_nat_alt)

section \<open>Properties\<close>


text \<open>A heap at the default base, with the small frame allocator.\<close>

definition demo_heap :: heap_env where
  "demo_heap = \<lparr>he_brk = brk_init_task 1 0 brk_boot, he_frames = demo_frames, he_calls = []\<rparr>"

lemma demo_heap_ok: "brk_ok 1 (he_brk demo_heap)" "bk_mapped (he_brk demo_heap) ! 1 = USER_HEAP_BASE"
  using brk_ok_init [of 1 brk_boot 0] by (simp_all add: demo_heap_def brk_boot_def MAX_TASKS_def brk_init_task_def Let_def USER_HEAP_BASE_def)


text \<open>There is no upper limit on the break: an address in the last page of the address space rounds up
  to zero, so nothing is mapped, and the call still succeeds with a break above the mapped end.\<close>

theorem brk_rounding_wraps:
  assumes "brk_ok slot (he_brk h)" and "0xFFFFFFFFFFFFF000 < addr" and "bk_mapped (he_brk h) ! slot < addr"
  shows "\<exists>h'. brk slot root addr h = Some (addr, h') \<and> he_calls h' = he_calls h \<and> bk_break (he_brk h') ! slot = addr
    \<and> bk_mapped (he_brk h') ! slot < bk_break (he_brk h') ! slot \<and> \<not> brk_ok slot (he_brk h')"
proof -
  let ?b = "he_brk h"
  have ok: "bk_base ?b ! slot \<le> bk_break ?b ! slot" "bk_break ?b ! slot \<le> bk_mapped ?b ! slot" "USER_HEAP_BASE \<le> bk_base ?b ! slot"
    "slot < length (bk_mapped ?b)" "slot < length (bk_break ?b)"
    using assms(1) by (simp_all add: brk_ok_def)
  have "USER_HEAP_BASE \<noteq> 0" by (simp add: USER_HEAP_BASE_def)
  with ok have nz: "bk_break ?b ! slot \<noteq> 0" by (metis order_antisym_conv word_zero_le order_trans)
  have a: "addr \<noteq> 0" "addr \<noteq> bk_break ?b ! slot" "\<not> addr < bk_base ?b ! slot" using assms(3) ok by auto
  have "unat addr < 2 ^ 64" "18446744073709547520 < unat addr" using unsigned_less [of addr] assms(2) by (simp_all add: word_less_nat_alt)
  then have "unat (addr + 0xFFF) < 4096" by (simp add: unat_word_ariths mod_if) linarith
  then have "page_up addr = 0" by (simp add: page_up_down word_unat_eq_iff unat_page_down)
  then have "page_walk (page_down (bk_mapped ?b ! slot)) (page_up addr) = Some []" by (simp add: page_walk_empty)
  with nz a assms(3) ok show ?thesis by (auto simp: brk_def brk_grow_def Let_def brk_ok_def)
qed

theorem brk_rounding_wraps_witness:
  "\<exists>h'. brk 1 7 0xFFFFFFFFFFFFF800 demo_heap = Some (0xFFFFFFFFFFFFF800, h') \<and> he_calls h' = []"
  using brk_rounding_wraps [OF demo_heap_ok(1), of "0xFFFFFFFFFFFFF800" 7] demo_heap_ok(2)
  by (auto simp: USER_HEAP_BASE_def) (auto simp: demo_heap_def)

end
