(* ===== verification/Fd.thy ===== *)
theory Fd
  imports Tmpfs Pipe Process
begin

text \<open>
  File descriptors and open-file objects: \<^verbatim>\<open>src/kernel-core/src/vfs/fd.rs\<close> in its default configuration
  (without the NTFS mount). The state has the tables of the file system layer that \<open>FS_LOCK\<close> serializes:
  the tmpfs, the pipes, a descriptor table and a working directory per task, and the open-file
  objects with their 8-bit reference counts. The registry of embedded binaries is the parameter
  \<open>bins\<close>; an object on one of them carries its bytes.
\<close>

section \<open>State\<close>

definition MAX_FDS :: nat where "MAX_FDS = 32"
definition MAX_OPEN :: nat where "MAX_OPEN = 128"

record fd_entry =
  f_open :: u16
  f_cloexec :: bool

definition EMPTY_FD :: fd_entry where
  "EMPTY_FD = \<lparr>f_open = 0, f_cloexec = False\<rparr>"

record open_file =
  o_used :: bool
  o_node :: nat
  o_flags :: u32
  o_offset :: u64
  o_refs :: u8
  o_pipe :: u16
  o_rom :: "u8 list option"

definition EMPTY_OPEN :: open_file where
  "EMPTY_OPEN = \<lparr>o_used = False, o_node = 0, o_flags = 0, o_offset = 0, o_refs = 0, o_pipe = 0, o_rom = None\<rparr>"

record fs =
  fs_tmpfs :: tmpfs
  fs_pipes :: pipes
  fs_fds :: "fd_entry list list"
  fs_opens :: "open_file list"
  fs_cwd :: "nat list"

definition fs_boot :: fs where
  "fs_boot = \<lparr>fs_tmpfs = tmpfs_boot, fs_pipes = pipes_init, fs_fds = replicate MAX_TASKS (replicate MAX_FDS EMPTY_FD),
     fs_opens = replicate MAX_OPEN EMPTY_OPEN, fs_cwd = replicate MAX_TASKS ROOT\<rparr>"

type_synonym bins = "u8 list \<Rightarrow> u8 list option"

abbreviation fd_at :: "fs \<Rightarrow> nat \<Rightarrow> nat \<Rightarrow> fd_entry" where
  "fd_at s slot i \<equiv> fs_fds s ! slot ! i"

abbreviation open_at :: "fs \<Rightarrow> nat \<Rightarrow> open_file" where
  "open_at s k \<equiv> fs_opens s ! k"

definition put_fd :: "nat \<Rightarrow> nat \<Rightarrow> fd_entry \<Rightarrow> fs \<Rightarrow> fs" where
  "put_fd slot i e s = s\<lparr>fs_fds := (fs_fds s)[slot := (fs_fds s ! slot)[i := e]]\<rparr>"

definition put_open :: "nat \<Rightarrow> open_file \<Rightarrow> fs \<Rightarrow> fs" where
  "put_open k o' s = s\<lparr>fs_opens := (fs_opens s)[k := o']\<rparr>"

definition cwd_get :: "nat \<Rightarrow> fs \<Rightarrow> nat" where
  "cwd_get slot s = fs_cwd s ! slot"

definition cwd_set :: "nat \<Rightarrow> nat \<Rightarrow> fs \<Rightarrow> fs" where
  "cwd_set slot v s = s\<lparr>fs_cwd := (fs_cwd s)[slot := v]\<rparr>"

definition open_of :: "nat \<Rightarrow> nat \<Rightarrow> fs \<Rightarrow> nat option" where
  "open_of slot i s =
     (if i < MAX_FDS then (if f_open (fd_at s slot i) = 0 then None else Some (unat (f_open (fd_at s slot i)) - 1)) else None)"

definition set_offset :: "nat \<Rightarrow> u64 \<Rightarrow> fs \<Rightarrow> fs" where
  "set_offset k off s = put_open k ((open_at s k)\<lparr>o_offset := off\<rparr>) s"

definition alloc_open :: "fs \<Rightarrow> nat option" where
  "alloc_open s = find_below (\<lambda>k. \<not> o_used (open_at s k)) MAX_OPEN"

definition fd_install :: "nat \<Rightarrow> nat \<Rightarrow> u32 \<Rightarrow> nat \<Rightarrow> u16 \<Rightarrow> fs \<Rightarrow> nat option \<times> fs" where
  "fd_install slot k flags node pipe_id s =
     (case find_below (\<lambda>i. f_open (fd_at s slot i) = 0) MAX_FDS of
        None \<Rightarrow> (None, s)
      | Some i \<Rightarrow> (Some i,
          put_fd slot i \<lparr>f_open = of_nat k + 1, f_cloexec = flags AND ucast O_CLOEXEC \<noteq> 0\<rparr>
            (put_open k \<lparr>o_used = True, o_node = node, o_flags = flags, o_offset = 0, o_refs = 1, o_pipe = pipe_id, o_rom = None\<rparr> s)))"

section \<open>Closing, fork, exec\<close>

definition close_open :: "nat \<Rightarrow> fs \<Rightarrow> fs" where
  "close_open k s =
     (let o1 = open_at s k;
          r = (if o_refs o1 > 0 then o_refs o1 - 1 else o_refs o1);
          s1 = (if o_refs o1 > 0 then put_open k (o1\<lparr>o_refs := r\<rparr>) s else s) in
      if r = 0 then
        let s2 = (if o_pipe o1 \<noteq> 0
                  then s1\<lparr>fs_pipes := pipe_drop_end (unat (o_pipe o1 - 1)) (o_flags o1 AND ucast O_WRONLY \<noteq> 0) (fs_pipes s1)\<rparr>
                  else s1) in
        put_open k EMPTY_OPEN s2
      else s1)"

text \<open>One round of the closing loops.\<close>

definition close_fd :: "nat \<Rightarrow> nat \<Rightarrow> fs \<Rightarrow> fs" where
  "close_fd slot i s =
     (if f_open (fd_at s slot i) \<noteq> 0
      then put_fd slot i EMPTY_FD (close_open (unat (f_open (fd_at s slot i)) - 1) s) else s)"

definition close_all :: "nat \<Rightarrow> fs \<Rightarrow> fs" where
  "close_all slot s = fold (close_fd slot) [0..<MAX_FDS] s"

definition ref_open :: "nat \<Rightarrow> fs \<Rightarrow> fs" where
  "ref_open k s = put_open k ((open_at s k)\<lparr>o_refs := o_refs (open_at s k) + 1\<rparr>) s"

definition clone_fd :: "nat \<Rightarrow> nat \<Rightarrow> nat \<Rightarrow> fs \<Rightarrow> fs" where
  "clone_fd parent child i s =
     (let e = fd_at s parent i; s1 = put_fd child i e s in
      if f_open e \<noteq> 0 then ref_open (unat (f_open e) - 1) s1 else s1)"

definition fd_clone_task :: "nat \<Rightarrow> nat \<Rightarrow> fs \<Rightarrow> fs" where
  "fd_clone_task parent child s =
     (let s1 = fold (clone_fd parent child) [0..<MAX_FDS] (close_all child s) in
      cwd_set child (cwd_get parent s1) s1)"

definition exec_close :: "nat \<Rightarrow> fs \<Rightarrow> fs" where
  "exec_close slot s = fold (\<lambda>i s. if f_cloexec (fd_at s slot i) then close_fd slot i s else s) [0..<MAX_FDS] s"

definition fd_init_task :: "nat \<Rightarrow> fs \<Rightarrow> fs" where
  "fd_init_task slot s =
     (let s1 = cwd_set slot ROOT (close_all slot s) in
      case alloc_open s1 of
        None \<Rightarrow> s1
      | Some k \<Rightarrow>
          fold (\<lambda>i. put_fd slot i \<lparr>f_open = of_nat k + 1, f_cloexec = False\<rparr>) [0..<3]
            (put_open k \<lparr>o_used = True, o_node = CONSOLE, o_flags = ucast O_RDONLY, o_offset = 0, o_refs = 3, o_pipe = 0, o_rom = None\<rparr> s1))"

section \<open>Descriptor operations\<close>

definition dup_from :: "nat \<Rightarrow> nat \<Rightarrow> nat \<Rightarrow> fs \<Rightarrow> nat res \<times> fs" where
  "dup_from lo slot i s =
     (case open_of slot i s of
        None \<Rightarrow> (Inl SYS_ERR_BADF, s)
      | Some old \<Rightarrow>
          (case find_between lo MAX_FDS (\<lambda>j. f_open (fd_at s slot j) = 0) of
             None \<Rightarrow> (Inl SYS_ERR_MFILE, s)
           | Some j \<Rightarrow> (Inr j, put_fd slot j \<lparr>f_open = of_nat old + 1, f_cloexec = False\<rparr> (ref_open old s))))"

definition fd_dup :: "nat \<Rightarrow> nat \<Rightarrow> fs \<Rightarrow> nat res \<times> fs" where
  "fd_dup slot i s = dup_from 0 slot i s"

definition fd_dup2 :: "nat \<Rightarrow> nat \<Rightarrow> nat \<Rightarrow> fs \<Rightarrow> nat res \<times> fs" where
  "fd_dup2 slot old new s =
     (if old = new then (case open_of slot old s of None \<Rightarrow> (Inl SYS_ERR_BADF, s) | Some _ \<Rightarrow> (Inr new, s))
      else
        (case open_of slot old s of
           None \<Rightarrow> (Inl SYS_ERR_BADF, s)
         | Some k \<Rightarrow>
             if new \<ge> MAX_FDS then (Inl SYS_ERR_BADF, s)
             else
               let s1 = (case open_of slot new s of Some prev \<Rightarrow> close_open prev s | None \<Rightarrow> s) in
               (Inr new, put_fd slot new \<lparr>f_open = of_nat k + 1, f_cloexec = False\<rparr> (ref_open k s1))))"

definition fd_close :: "nat \<Rightarrow> nat \<Rightarrow> fs \<Rightarrow> unit res \<times> fs" where
  "fd_close slot i s =
     (case open_of slot i s of
        None \<Rightarrow> (Inl SYS_ERR_BADF, s)
      | Some k \<Rightarrow> (Inr (), put_fd slot i EMPTY_FD (close_open k s)))"

definition fd_fcntl :: "nat \<Rightarrow> nat \<Rightarrow> u64 \<Rightarrow> u64 \<Rightarrow> fs \<Rightarrow> u64 res \<times> fs" where
  "fd_fcntl slot i cmd arg s =
     (if cmd = F_DUPFD then
        (case dup_from (unat arg) slot i s of (Inl e, s') \<Rightarrow> (Inl e, s') | (Inr j, s') \<Rightarrow> (Inr (of_nat j), s'))
      else if cmd \<in> {F_GETFD, F_SETFD, F_GETFL, F_SETFL} then
        (case open_of slot i s of
           None \<Rightarrow> (Inl SYS_ERR_BADF, s)
         | Some k \<Rightarrow>
             if cmd = F_GETFD then (Inr (if f_cloexec (fd_at s slot i) then 1 else 0), s)
             else if cmd = F_SETFD then
               (Inr 0, put_fd slot i ((fd_at s slot i)\<lparr>f_cloexec := arg AND FD_CLOEXEC \<noteq> 0\<rparr>) s)
             else if cmd = F_GETFL then (Inr (ucast (o_flags (open_at s k))), s)
             else (Inr 0, put_open k ((open_at s k)\<lparr>o_flags :=
                 (o_flags (open_at s k) AND NOT (ucast O_NONBLOCK)) OR (ucast arg AND ucast O_NONBLOCK)\<rparr>) s))
      else (Inl SYS_ERR_INVAL, s))"

text \<open>\<^verbatim>\<open>i64::checked_add\<close>\<close>

definition checked_add_i64 :: "u64 \<Rightarrow> u64 \<Rightarrow> u64 option" where
  "checked_add_i64 a b = (let r = sint a + sint b in if - (2 ^ 63) \<le> r \<and> r < 2 ^ 63 then Some (a + b) else None)"

definition fd_lseek :: "nat \<Rightarrow> nat \<Rightarrow> u64 \<Rightarrow> u32 \<Rightarrow> fs \<Rightarrow> u64 res \<times> fs" where
  "fd_lseek slot i off whence s =
     (case open_of slot i s of
        None \<Rightarrow> (Inl SYS_ERR_BADF, s)
      | Some k \<Rightarrow>
          let ob = open_at s k in
          if o_pipe ob \<noteq> 0 then (Inl SYS_ERR_SPIPE, s)
          else if whence > 2 then (Inl SYS_ERR_INVAL, s)
          else
            let base = (if whence = 0 then 0 else if whence = 1 then o_offset ob
                        else (case o_rom ob of Some img \<Rightarrow> of_nat (length img) | None \<Rightarrow> tmpfs_size (o_node ob) (fs_tmpfs s))) in
            (case checked_add_i64 base off of
               None \<Rightarrow> (Inl SYS_ERR_INVAL, s)
             | Some nx \<Rightarrow> if sint nx < 0 then (Inl SYS_ERR_INVAL, s) else (Inr nx, set_offset k nx s)))"

definition fd_pipe :: "nat \<Rightarrow> fs \<Rightarrow> (nat \<times> nat) res \<times> fs" where
  "fd_pipe slot s =
     (if length (filter (\<lambda>i. f_open (fd_at s slot i) = 0) [0..<MAX_FDS]) < 2 then (Inl SYS_ERR_MFILE, s)
      else case pipe_alloc (fs_pipes s) of
        None \<Rightarrow> (Inl SYS_ERR_MFILE, s)
      | Some pid \<Rightarrow>
        (case alloc_open s of
           None \<Rightarrow> (Inl SYS_ERR_MFILE, s)
         | Some r \<Rightarrow>
             let s1 = put_open r ((open_at s r)\<lparr>o_used := True\<rparr>) s in
             (case alloc_open s1 of
                None \<Rightarrow> (Inl SYS_ERR_MFILE, put_open r EMPTY_OPEN s1)
              | Some w \<Rightarrow>
                  let s2 = s1\<lparr>fs_pipes := pipe_init pid (fs_pipes s1)\<rparr> in
                  (case fd_install slot r (ucast O_RDONLY) 0 (of_nat pid + 1) s2 of
                     (None, s3) \<Rightarrow> (Inl SYS_ERR_MFILE, s3)
                   | (Some rfd, s3) \<Rightarrow>
                       (case fd_install slot w (ucast O_WRONLY) 0 (of_nat pid + 1) s3 of
                          (None, s4) \<Rightarrow> (Inl SYS_ERR_MFILE, s4)
                        | (Some wfd, s4) \<Rightarrow> (Inr (rfd, wfd), s4))))))"

definition fd_node_of :: "nat \<Rightarrow> nat \<Rightarrow> fs \<Rightarrow> nat option" where
  "fd_node_of slot i s =
     (case open_of slot i s of None \<Rightarrow> None
      | Some k \<Rightarrow> if o_pipe (open_at s k) \<noteq> 0 then None else Some (o_node (open_at s k)))"

section \<open>Paths\<close>

text \<open>Split a path at its last slash.\<close>

definition last_slash :: "u8 list \<Rightarrow> nat option" where
  "last_slash path = List.find (\<lambda>i. path ! i = SLASH) (rev [0..<length path])"

definition split_parent :: "nat \<Rightarrow> u8 list \<Rightarrow> tmpfs \<Rightarrow> (nat \<times> u8 list) res \<times> tmpfs" where
  "split_parent cwd path t =
     (case last_slash path of
        None \<Rightarrow> (Inr (cwd, path), t)
      | Some slash \<Rightarrow>
          let name = drop (slash + 1) path in
          if name = [] then (Inl SYS_ERR_NOENT, t)
          else
            (case tmpfs_lookup cwd (if slash = 0 then take 1 path else take slash path) t of
               (Inl e, t') \<Rightarrow> (Inl e, t')
             | (Inr d, t') \<Rightarrow> (Inr (d, name), t')))"

definition fs_create_in :: "nat \<Rightarrow> u8 list \<Rightarrow> kind \<Rightarrow> fs \<Rightarrow> nat res \<times> fs" where
  "fs_create_in slot path k s =
     (case split_parent (cwd_get slot s) path (fs_tmpfs s) of
        (Inl e, t) \<Rightarrow> (Inl e, s\<lparr>fs_tmpfs := t\<rparr>)
      | (Inr (d, name), t) \<Rightarrow>
          (case tmpfs_create d name k t of (r, t') \<Rightarrow> (r, s\<lparr>fs_tmpfs := t'\<rparr>)))"

definition fs_rename_in :: "nat \<Rightarrow> u8 list \<Rightarrow> u8 list \<Rightarrow> fs \<Rightarrow> unit res \<times> fs" where
  "fs_rename_in slot old new s =
     (case tmpfs_lookup (cwd_get slot s) old (fs_tmpfs s) of
        (Inl e, t) \<Rightarrow> (Inl e, s\<lparr>fs_tmpfs := t\<rparr>)
      | (Inr src, t) \<Rightarrow>
          (case split_parent (cwd_get slot s) new t of
             (Inl e, t') \<Rightarrow> (Inl e, s\<lparr>fs_tmpfs := t'\<rparr>)
           | (Inr (d, name), t') \<Rightarrow>
               (case tmpfs_rename src d name t' of (r, t'') \<Rightarrow> (r, s\<lparr>fs_tmpfs := t''\<rparr>))))"

text \<open>The tail of \<open>open\<close>: an object on a node.\<close>

definition open_node :: "nat \<Rightarrow> u32 \<Rightarrow> nat \<Rightarrow> fs \<Rightarrow> nat res \<times> fs" where
  "open_node slot flags node s =
     (if tmpfs_kind (fs_tmpfs s) node = Dir \<and> ucast flags AND (O_WRONLY OR O_APPEND) \<noteq> 0 then (Inl SYS_ERR_ISDIR, s)
      else
        let s1 = (if ucast flags AND O_TRUNC \<noteq> 0 then s\<lparr>fs_tmpfs := tmpfs_truncate node (fs_tmpfs s)\<rparr> else s) in
        case alloc_open s1 of
          None \<Rightarrow> (Inl SYS_ERR_MFILE, s1)
        | Some k \<Rightarrow> (case fd_install slot k flags node 0 s1 of
             (None, s2) \<Rightarrow> (Inl SYS_ERR_MFILE, s2) | (Some i, s2) \<Rightarrow> (Inr i, s2)))"

definition open_rom :: "nat \<Rightarrow> u32 \<Rightarrow> u8 list \<Rightarrow> fs \<Rightarrow> nat res \<times> fs" where
  "open_rom slot flags img s =
     (if ucast flags AND O_CREAT \<noteq> 0 \<and> ucast flags AND O_EXCL \<noteq> 0 then (Inl SYS_ERR_EXIST, s)
      else if ucast flags AND (O_WRONLY OR O_RDWR OR O_TRUNC OR O_APPEND) \<noteq> 0 then (Inl SYS_ERR_ACCES, s)
      else case alloc_open s of
        None \<Rightarrow> (Inl SYS_ERR_MFILE, s)
      | Some k \<Rightarrow>
          (case fd_install slot k flags ROOT 0 s of
             (None, s1) \<Rightarrow> (Inl SYS_ERR_MFILE, put_open k EMPTY_OPEN s1)
           | (Some i, s1) \<Rightarrow> (Inr i, put_open k ((open_at s1 k)\<lparr>o_rom := Some img\<rparr>) s1)))"

definition fd_open :: "bins \<Rightarrow> nat \<Rightarrow> u8 list \<Rightarrow> u32 \<Rightarrow> fs \<Rightarrow> nat res \<times> fs" where
  "fd_open bins slot path flags s =
     (case tmpfs_lookup (cwd_get slot s) path (fs_tmpfs s) of
        (Inr n, t) \<Rightarrow>
          if ucast flags AND O_CREAT \<noteq> 0 \<and> ucast flags AND O_EXCL \<noteq> 0 then (Inl SYS_ERR_EXIST, s\<lparr>fs_tmpfs := t\<rparr>)
          else open_node slot flags n (s\<lparr>fs_tmpfs := t\<rparr>)
      | (Inl e, t) \<Rightarrow>
          if e = SYS_ERR_NOENT \<and> ucast flags AND O_CREAT \<noteq> 0 then
            (case fs_create_in slot path File (s\<lparr>fs_tmpfs := t\<rparr>) of
               (Inl e', s1) \<Rightarrow> (Inl e', s1)
             | (Inr n, s1) \<Rightarrow> open_node slot flags n s1)
          else if e = SYS_ERR_NOENT then
            (case bins path of None \<Rightarrow> (Inl e, s\<lparr>fs_tmpfs := t\<rparr>) | Some img \<Rightarrow> open_rom slot flags img (s\<lparr>fs_tmpfs := t\<rparr>))
          else (Inl e, s\<lparr>fs_tmpfs := t\<rparr>))"

definition rom_open_stat :: "u64 \<Rightarrow> u64 \<Rightarrow> tmpfs \<Rightarrow> stat" where
  "rom_open_stat now len t =
     (tmpfs_stat now ROOT t)\<lparr>st_ino := 0, st_mode := S_IFREG OR 0x1ED, st_size := len, st_blocks := (len + 511) div 512, st_nlink := 1\<rparr>"

definition rom_stat :: "bins \<Rightarrow> u64 \<Rightarrow> u8 list \<Rightarrow> tmpfs \<Rightarrow> stat option" where
  "rom_stat bins now path t = (case bins path of None \<Rightarrow> None | Some img \<Rightarrow> Some (rom_open_stat now (of_nat (length img)) t))"

section \<open>Reference counts\<close>

text \<open>How many descriptors of all tasks refer to object \<open>k\<close>, and how many objects are an end of pipe \<open>p\<close>.\<close>

definition fd_count :: "nat \<Rightarrow> fs \<Rightarrow> nat" where
  "fd_count k s = (\<Sum>t\<leftarrow>fs_fds s. \<Sum>e\<leftarrow>t. of_bool (unat (f_open e) = Suc k))"

definition is_end :: "nat \<Rightarrow> bool \<Rightarrow> open_file \<Rightarrow> bool" where
  "is_end p w ob \<longleftrightarrow> o_used ob \<and> unat (o_pipe ob) = Suc p \<and> (o_flags ob AND ucast O_WRONLY \<noteq> 0) = w"

definition end_count :: "nat \<Rightarrow> bool \<Rightarrow> fs \<Rightarrow> nat" where
  "end_count p w s = (\<Sum>ob\<leftarrow>fs_opens s. of_bool (is_end p w ob))"

definition fs_wf :: "fs \<Rightarrow> bool" where
  "fs_wf s \<longleftrightarrow> length (fs_fds s) = MAX_TASKS \<and> (\<forall>t\<in>set (fs_fds s). length t = MAX_FDS \<and> (\<forall>e\<in>set t. unat (f_open e) \<le> MAX_OPEN))
     \<and> length (fs_opens s) = MAX_OPEN \<and> length (fs_cwd s) = MAX_TASKS"

definition refs_ok :: "fs \<Rightarrow> bool" where
  "refs_ok s \<longleftrightarrow> (\<forall>k<MAX_OPEN. o_refs (open_at s k) = of_nat (fd_count k s) \<and> (o_used (open_at s k) \<longleftrightarrow> 0 < fd_count k s))"

definition ends_ok :: "fs \<Rightarrow> bool" where
  "ends_ok s \<longleftrightarrow> pipes_inv (fs_pipes s) \<and> (\<forall>k<MAX_OPEN. unat (o_pipe (open_at s k)) \<le> MAX_PIPES)
     \<and> (\<forall>p<MAX_PIPES. unat (p_read_refs (fs_pipes s ! p)) = end_count p False s \<and> unat (p_write_refs (fs_pipes s ! p)) = end_count p True s)"

definition fd_inv :: "fs \<Rightarrow> bool" where
  "fd_inv s \<longleftrightarrow> fs_wf s \<and> refs_ok s \<and> ends_ok s"

text \<open>No object has as many descriptors as its 8-bit count can wrap at.\<close>

definition unwrapped :: "fs \<Rightarrow> bool" where
  "unwrapped s \<longleftrightarrow> (\<forall>k<MAX_OPEN. fd_count k s < 256)"

lemma put_simps [simp]:
  "fs_opens (put_fd slot i e s) = fs_opens s" "fs_pipes (put_fd slot i e s) = fs_pipes s" "fs_cwd (put_fd slot i e s) = fs_cwd s"
  "fs_tmpfs (put_fd slot i e s) = fs_tmpfs s" "fs_fds (put_open k ob s) = fs_fds s" "fs_pipes (put_open k ob s) = fs_pipes s"
  "fs_cwd (put_open k ob s) = fs_cwd s" "fs_tmpfs (put_open k ob s) = fs_tmpfs s"
  "fs_fds (ref_open k s) = fs_fds s" "fs_pipes (ref_open k s) = fs_pipes s" "fs_cwd (ref_open k s) = fs_cwd s"
  by (simp_all add: put_fd_def put_open_def ref_open_def)

lemma fd_count_cong: "fs_fds s = fs_fds s' \<Longrightarrow> fd_count k s = fd_count k s'"
  by (simp add: fd_count_def)

lemma end_count_cong: "fs_opens s = fs_opens s' \<Longrightarrow> end_count p w s = end_count p w s'"
  by (simp add: end_count_def)

lemma sum_list_put:
  fixes f :: "'a \<Rightarrow> nat"
  assumes "i < length xs"
  shows "(\<Sum>x\<leftarrow>xs[i := v]. f x) + f (xs ! i) = (\<Sum>x\<leftarrow>xs. f x) + f v"
  using assms
proof (induction xs arbitrary: i)
  case (Cons x xs)
  then show ?case by (cases i) auto
qed simp

lemma fs_wf_slot:
  assumes "fs_wf s" "slot < MAX_TASKS"
  shows "length (fs_fds s ! slot) = MAX_FDS" "i < MAX_FDS \<Longrightarrow> unat (f_open (fd_at s slot i)) \<le> MAX_OPEN"
proof -
  have "fs_fds s ! slot \<in> set (fs_fds s)" using assms by (simp add: fs_wf_def)
  then have t: "length (fs_fds s ! slot) = MAX_FDS" "\<forall>e\<in>set (fs_fds s ! slot). unat (f_open e) \<le> MAX_OPEN"
    using assms(1) by (simp_all add: fs_wf_def)
  then show "length (fs_fds s ! slot) = MAX_FDS" "i < MAX_FDS \<Longrightarrow> unat (f_open (fd_at s slot i)) \<le> MAX_OPEN" by simp_all
qed

lemma fd_count_put:
  assumes "fs_wf s" "slot < MAX_TASKS" "i < MAX_FDS"
  shows "fd_count k (put_fd slot i e s) + of_bool (unat (f_open (fd_at s slot i)) = Suc k) = fd_count k s + of_bool (unat (f_open e) = Suc k)"
proof -
  let ?g = "\<lambda>e. of_bool (unat (f_open e) = Suc k) :: nat" and ?t = "fs_fds s ! slot"
  have l: "slot < length (fs_fds s)" "i < length ?t" using assms by (simp_all add: fs_wf_def)
  have a: "fd_count k (put_fd slot i e s) + (\<Sum>e\<leftarrow>?t. ?g e) = fd_count k s + (\<Sum>e\<leftarrow>?t[i := e]. ?g e)"
    unfolding fd_count_def put_fd_def using sum_list_put [OF l(1), of "\<lambda>t. \<Sum>e\<leftarrow>t. ?g e"] by simp
  have "(\<Sum>e\<leftarrow>?t[i := e]. ?g e) + ?g (?t ! i) = (\<Sum>e\<leftarrow>?t. ?g e) + ?g e" by (rule sum_list_put [OF l(2)])
  with a show ?thesis by simp
qed

lemma end_count_put:
  assumes "fs_wf s" "k < MAX_OPEN"
  shows "end_count p w (put_open k ob s) + of_bool (is_end p w (open_at s k)) = end_count p w s + of_bool (is_end p w ob)"
  unfolding end_count_def put_open_def using sum_list_put [of k "fs_opens s" "\<lambda>ob. of_bool (is_end p w ob)" ob] assms by (simp add: fs_wf_def)

lemma wf_put_fd: "fs_wf s \<Longrightarrow> unat (f_open e) \<le> MAX_OPEN \<Longrightarrow> fs_wf (put_fd slot i e s)"
proof (cases "slot < MAX_TASKS")
  case True
  assume a: "fs_wf s" "unat (f_open e) \<le> MAX_OPEN"
  then have "\<forall>t\<in>set ((fs_fds s)[slot := (fs_fds s ! slot)[i := e]]). length t = MAX_FDS \<and> (\<forall>e\<in>set t. unat (f_open e) \<le> MAX_OPEN)"
    using True unfolding fs_wf_def
    by (auto dest!: set_update_subset_insert [THEN subsetD])
  with a show ?thesis by (simp add: fs_wf_def put_fd_def)
next
  case False
  assume "fs_wf s"
  with False show ?thesis by (simp add: fs_wf_def put_fd_def list_update_beyond)
qed

lemma wf_put_open: "fs_wf s \<Longrightarrow> fs_wf (put_open k ob s)"
  by (simp add: fs_wf_def put_open_def)

lemma fd_count_pos:
  assumes "fs_wf s" "slot < MAX_TASKS" "i < MAX_FDS" "unat (f_open (fd_at s slot i)) = Suc k"
  shows "0 < fd_count k s"
  using fd_count_put [OF assms(1-3), of k EMPTY_FD] assms(4) by (simp add: EMPTY_FD_def)

lemma open_at_put: "k < length (fs_opens s) \<Longrightarrow> open_at (put_open k ob s) j = (if j = k then ob else open_at s j)"
  by (auto simp: put_open_def)

lemma fd_at_put:
  "slot < length (fs_fds s) \<Longrightarrow> i < length (fs_fds s ! slot) \<Longrightarrow> fd_at (put_fd slot i e s) sl j = (if sl = slot \<and> j = i then e else fd_at s sl j)"
  by (auto simp: put_fd_def nth_list_update)

text \<open>A step that drops the reference of descriptor \<open>i\<close> and replaces its entry.\<close>

lemma of_nat_u8_zero: "n < 256 \<Longrightarrow> (of_nat n :: u8) = 0 \<longleftrightarrow> n = 0"
  by (simp add: word_unat_eq_iff unat_of_nat_u8)

lemma close_open_fields [simp]: "fs_fds (close_open k s) = fs_fds s" "fs_cwd (close_open k s) = fs_cwd s" "fs_tmpfs (close_open k s) = fs_tmpfs s"
  by (simp_all add: close_open_def Let_def)
lemma pipe_drop_end_refs:
  assumes "pipes_inv ps" "p < MAX_PIPES" "0 < unat (if w then p_write_refs (ps ! p) else p_read_refs (ps ! p))"
  shows "unat (p_read_refs (pipe_drop_end p w ps ! q)) = unat (p_read_refs (ps ! q)) - of_bool (q = p \<and> \<not> w)"
    "unat (p_write_refs (pipe_drop_end p w ps ! q)) = unat (p_write_refs (ps ! q)) - of_bool (q = p \<and> w)"
proof -
  have len: "p < length ps" using assms(1,2) by (simp add: pipes_inv_def)
  have dec: "unat (sat_dec x) = unat x - 1" for x
    by (cases "x = 0") (simp_all add: sat_dec_def unat_minus_one)
  have ok: "pipe_ok (ps ! p)" by (rule pipes_inv_nth [OF assms(1,2)])
  have u: "p_used (ps ! p)" using ok assms(3) by (auto simp: pipe_ok_def split: if_splits)
  have z: "unat x = 0 \<longleftrightarrow> x = 0" for x :: u8 by (simp add: unat_eq_0)
  show "unat (p_read_refs (pipe_drop_end p w ps ! q)) = unat (p_read_refs (ps ! q)) - of_bool (q = p \<and> \<not> w)"
    "unat (p_write_refs (pipe_drop_end p w ps ! q)) = unat (p_write_refs (ps ! q)) - of_bool (q = p \<and> w)"
    using u len dec by (cases w; cases "q = p"; auto simp: pipe_drop_end_def Let_def EMPTY_PIPE_def z [symmetric])+
qed

text \<open>The object \<open>k\<close> after one reference less.\<close>

lemma close_open_eq:
  assumes "o_refs (open_at s k) = of_nat c" "0 < c" "c < 256"
  shows "close_open k s = (if c = 1
    then put_open k EMPTY_OPEN (if o_pipe (open_at s k) \<noteq> 0
      then s\<lparr>fs_pipes := pipe_drop_end (unat (o_pipe (open_at s k) - 1)) (o_flags (open_at s k) AND ucast O_WRONLY \<noteq> 0) (fs_pipes s)\<rparr> else s)
    else put_open k ((open_at s k)\<lparr>o_refs := of_nat (c - 1)\<rparr>) s)"
proof -
  have nz: "(of_nat c :: u8) \<noteq> 0" using of_nat_u8_zero [of c] assms by simp
  then have pos: "(of_nat c :: u8) > 0" by (simp add: word_gt_0)
  have m: "(of_nat c :: u8) - 1 = of_nat (c - 1)" using assms(2) by (simp add: of_nat_diff)
  have "(of_nat (c - 1) :: u8) = 0 \<longleftrightarrow> c = 1" using of_nat_u8_zero [of "c - 1"] assms by auto
  then show ?thesis unfolding close_open_def Let_def assms(1) if_P [OF pos] m
    by (simp add: put_open_def)
qed

lemma drop_ref:
  assumes inv: "fd_inv s" and un: "unwrapped s" and r: "slot < MAX_TASKS" "i < MAX_FDS" and k: "unat (f_open (fd_at s slot i)) = Suc k"
  defines "s' \<equiv> put_fd slot i EMPTY_FD (close_open k s)"
  shows "fd_inv s'" and "fd_count j s' = fd_count j s - of_bool (j = k)"
proof -
  let ?o = "open_at s k" and ?c = "fd_count k s"
  have wf: "fs_wf s" and refs: "refs_ok s" and ends: "ends_ok s" using inv by (simp_all add: fd_inv_def)
  have kM: "k < MAX_OPEN" using fs_wf_slot(2) [OF wf r] k by simp
  have c: "0 < ?c" "?c < 256" using fd_count_pos [OF wf r k] un kM by (simp_all add: unwrapped_def)
  have o: "o_refs ?o = of_nat ?c" "o_used ?o" using refs kM c by (auto simp: refs_ok_def)
  note co = close_open_eq [OF o(1) c]
  have len: "k < length (fs_opens s)" using wf kM by (simp add: fs_wf_def)
  have wf1: "fs_wf (close_open k s)" using wf by (simp add: co wf_put_open) (simp add: fs_wf_def put_open_def)
  have cnt: "fd_count j s' = fd_count j s - of_bool (j = k)" for j
  proof -
    have "fd_count j s' + of_bool (j = k) = fd_count j (close_open k s)"
      unfolding s'_def using fd_count_put [OF wf1 r, of j EMPTY_FD] k by (auto simp: EMPTY_FD_def)
    then show ?thesis using fd_count_cong [of "close_open k s" s j] by simp
  qed
  then show "fd_count j s' = fd_count j s - of_bool (j = k)" .
  have wf': "fs_wf s'" unfolding s'_def by (rule wf_put_fd [OF wf1]) (simp add: EMPTY_FD_def)
  have at: "open_at s' j = (if j = k then (if ?c = 1 then EMPTY_OPEN else ?o\<lparr>o_refs := of_nat (?c - 1)\<rparr>) else open_at s j)" for j
    unfolding s'_def co using len by (auto simp: open_at_put put_open_def)
  have "refs_ok s'" unfolding refs_ok_def
  proof (intro allI impI)
    fix j assume "j < MAX_OPEN"
    then show "o_refs (open_at s' j) = of_nat (fd_count j s') \<and> (o_used (open_at s' j) \<longleftrightarrow> 0 < fd_count j s')"
      unfolding at cnt using refs c o by (cases "j = k") (auto simp: refs_ok_def EMPTY_OPEN_def)
  qed
  moreover have "ends_ok s'"
  proof (cases "?c = 1")
    case False
    then have "s' = put_fd slot i EMPTY_FD (put_open k (?o\<lparr>o_refs := of_nat (?c - 1)\<rparr>) s)" by (simp add: s'_def co)
    moreover have "end_count p w (put_open k (?o\<lparr>o_refs := of_nat (?c - 1)\<rparr>) s) = end_count p w s" for p w
      using end_count_put [OF wf kM, of p w "?o\<lparr>o_refs := of_nat (?c - 1)\<rparr>"] by (simp add: is_end_def)
    ultimately have "end_count p w s' = end_count p w s" "fs_pipes s' = fs_pipes s" for p w
      using end_count_cong [of s' "put_open k (?o\<lparr>o_refs := of_nat (?c - 1)\<rparr>) s"] by simp_all
    with ends at show ?thesis unfolding ends_ok_def by (auto simp: EMPTY_OPEN_def)
  next
    case True
    have e: "end_count p w s' + of_bool (is_end p w ?o) = end_count p w s" for p w
    proof -
      have "end_count p w s' = end_count p w (put_open k EMPTY_OPEN s)"
        by (rule end_count_cong) (simp add: s'_def co True put_open_def)
      then show ?thesis using end_count_put [OF wf kM, of p w EMPTY_OPEN] by (simp add: is_end_def EMPTY_OPEN_def)
    qed
    have pipeno: "unat (o_pipe (open_at s' j)) \<le> MAX_PIPES" if "j < MAX_OPEN" for j
      using that ends at by (auto simp: ends_ok_def EMPTY_OPEN_def)
    show ?thesis
    proof (cases "o_pipe ?o = 0")
      case True
      then have "\<not> is_end p w ?o" for p w by (simp add: is_end_def)
      then have "end_count p w s' = end_count p w s" for p w using e [of p w] by simp
      moreover have "fs_pipes s' = fs_pipes s" using True \<open>?c = 1\<close> by (simp add: s'_def co)
      ultimately show ?thesis using ends pipeno unfolding ends_ok_def by auto
    next
      case False
      let ?p = "unat (o_pipe ?o - 1)" and ?w = "o_flags ?o AND ucast O_WRONLY \<noteq> 0"
      have up: "unat (o_pipe ?o) = Suc ?p" using False by (simp add: unat_minus_one unat_gt_0 [symmetric])
      then have pM: "?p < MAX_PIPES" using ends kM by (fastforce simp: ends_ok_def)
      have ie: "is_end q w ?o \<longleftrightarrow> q = ?p \<and> w = ?w" for q w using o(2) up by (auto simp: is_end_def)
      have pos: "0 < unat (if ?w then p_write_refs (fs_pipes s ! ?p) else p_read_refs (fs_pipes s ! ?p))"
        using e [of ?p ?w] ie [of ?p ?w] ends pM by (auto simp: ends_ok_def)
      have pi: "pipes_inv (fs_pipes s)" using ends by (simp add: ends_ok_def)
      have ps: "fs_pipes s' = pipe_drop_end ?p ?w (fs_pipes s)" using False True by (simp add: s'_def co)
      have "unat (p_read_refs (fs_pipes s' ! q)) = end_count q False s' \<and> unat (p_write_refs (fs_pipes s' ! q)) = end_count q True s'"
        if "q < MAX_PIPES" for q
        unfolding ps pipe_drop_end_refs [OF pi pM pos] using e [of q False] e [of q True] ie [of q False] ie [of q True] ends that
        by (auto simp: ends_ok_def)
      then show ?thesis using pipeno pipe_drop_end_inv [OF pi pM] unfolding ends_ok_def ps by auto
    qed
  qed
  ultimately show "fd_inv s'" using wf' by (simp add: fd_inv_def)
qed
lemma add_ref:
  assumes inv: "fd_inv s" and r: "slot < MAX_TASKS" "i < MAX_FDS" and free: "f_open (fd_at s slot i) = 0"
    and k: "k < MAX_OPEN" "o_used (open_at s k)" and e: "unat (f_open e) = Suc k"
  shows "fd_inv (put_fd slot i e (ref_open k s))"
proof -
  let ?s = "put_fd slot i e (ref_open k s)"
  have wf: "fs_wf s" and refs: "refs_ok s" and ends: "ends_ok s" using inv by (simp_all add: fd_inv_def)
  have wf1: "fs_wf (ref_open k s)" using wf by (simp add: ref_open_def wf_put_open)
  have at: "open_at ?s j = (if j = k then (open_at s k)\<lparr>o_refs := o_refs (open_at s k) + 1\<rparr> else open_at s j)" for j
    using wf k(1) by (simp add: ref_open_def open_at_put fs_wf_def)
  have cnt: "fd_count j ?s = fd_count j s + of_bool (j = k)" for j
    using fd_count_put [OF wf1 r, of j e] free e fd_count_cong [of "ref_open k s" s j] by auto
  have "refs_ok ?s" using refs k unfolding refs_ok_def at cnt by auto
  moreover have "end_count p w ?s = end_count p w s" for p w
    using end_count_put [OF wf k(1), of p w "(open_at s k)\<lparr>o_refs := o_refs (open_at s k) + 1\<rparr>"]
      end_count_cong [of ?s "put_open k ((open_at s k)\<lparr>o_refs := o_refs (open_at s k) + 1\<rparr>) s"] by (simp add: is_end_def ref_open_def)
  then have "ends_ok ?s" using ends unfolding ends_ok_def at by simp
  moreover have "fs_wf ?s" using e k(1) by (intro wf_put_fd [OF wf1]) simp
  ultimately show ?thesis by (simp add: fd_inv_def)
qed

text \<open>A new object with one descriptor; its pipe end is not counted yet.\<close>

lemma new_object:
  assumes wf: "fs_wf s" and refs: "refs_ok s" and r: "slot < MAX_TASKS" "i < MAX_FDS" and free: "f_open (fd_at s slot i) = 0"
    and k: "k < MAX_OPEN" "fd_count k s = 0" and e: "unat (f_open e) = Suc k" and ob: "o_used ob" "o_refs ob = 1"
  shows "fs_wf (put_fd slot i e (put_open k ob s))" "refs_ok (put_fd slot i e (put_open k ob s))"
    "fd_count j (put_fd slot i e (put_open k ob s)) = fd_count j s + of_bool (j = k)"
proof -
  let ?s = "put_fd slot i e (put_open k ob s)"
  have wf1: "fs_wf (put_open k ob s)" by (rule wf_put_open [OF wf])
  have at: "open_at ?s j = (if j = k then ob else open_at s j)" for j
    using wf k(1) by (simp add: open_at_put fs_wf_def)
  have cnt: "fd_count j ?s = fd_count j s + of_bool (j = k)" for j
    using fd_count_put [OF wf1 r, of j e] free e fd_count_cong [of "put_open k ob s" s j] by auto
  then show "fd_count j ?s = fd_count j s + of_bool (j = k)" .
  show "refs_ok ?s" using refs k ob unfolding refs_ok_def at cnt by auto
  show "fs_wf ?s" using e k(1) by (intro wf_put_fd [OF wf1]) simp
qed

lemma end_count_new:
  assumes "fs_wf s" "k < MAX_OPEN" "\<not> o_used (open_at s k)"
  shows "end_count p w (put_fd slot i e (put_open k ob s)) = end_count p w s + of_bool (is_end p w ob)"
  using end_count_put [OF assms(1,2), of p w ob] assms(3) end_count_cong [of "put_fd slot i e (put_open k ob s)" "put_open k ob s"]
  by (simp add: is_end_def)

lemma ends_ok_new:
  assumes "fs_wf s" "ends_ok s" "k < MAX_OPEN" "\<not> o_used (open_at s k)" "o_pipe ob = 0"
  shows "ends_ok (put_fd slot i e (put_open k ob s))"
proof -
  have "\<not> is_end p w ob" for p w using assms(5) by (simp add: is_end_def)
  then have "end_count p w (put_fd slot i e (put_open k ob s)) = end_count p w s" for p w
    using end_count_new [OF assms(1,3,4)] by simp
  then show ?thesis using assms unfolding ends_ok_def by (auto simp: open_at_put fs_wf_def)
qed

text \<open>Changes that touch neither references nor pipe ends.\<close>

lemma fd_inv_cong:
  assumes "fd_inv s" "fs_fds s' = fs_fds s" "fs_opens s' = fs_opens s" "fs_pipes s' = fs_pipes s" "length (fs_cwd s') = length (fs_cwd s)"
  shows "fd_inv s'"
  using assms by (simp add: fd_inv_def fs_wf_def refs_ok_def ends_ok_def fd_count_def end_count_def)

lemma fd_inv_open_update:
  assumes inv: "fd_inv s" and k: "k < MAX_OPEN"
    and same: "o_used ob = o_used (open_at s k)" "o_refs ob = o_refs (open_at s k)" "o_pipe ob = o_pipe (open_at s k)"
      "o_flags ob AND ucast O_WRONLY = o_flags (open_at s k) AND ucast O_WRONLY"
  shows "fd_inv (put_open k ob s)"
proof -
  have wf: "fs_wf s" and refs: "refs_ok s" and ends: "ends_ok s" using inv by (simp_all add: fd_inv_def)
  have at: "open_at (put_open k ob s) j = (if j = k then ob else open_at s j)" for j
    using wf k by (simp add: open_at_put fs_wf_def)
  have "end_count p w (put_open k ob s) = end_count p w s" for p w
    using end_count_put [OF wf k, of p w ob] same by (simp add: is_end_def)
  moreover have "fd_count j (put_open k ob s) = fd_count j s" for j by (rule fd_count_cong) simp
  ultimately show ?thesis using refs ends same wf_put_open [OF wf] k unfolding fd_inv_def refs_ok_def ends_ok_def at by auto
qed

lemma fd_inv_cloexec:
  assumes inv: "fd_inv s" and r: "slot < MAX_TASKS" "i < MAX_FDS" and e: "f_open e = f_open (fd_at s slot i)"
  shows "fd_inv (put_fd slot i e s)"
proof -
  have wf: "fs_wf s" and refs: "refs_ok s" and ends: "ends_ok s" using inv by (simp_all add: fd_inv_def)
  have "fd_count j (put_fd slot i e s) = fd_count j s" for j using fd_count_put [OF wf r, of j e] e by simp
  moreover have "end_count p w (put_fd slot i e s) = end_count p w s" for p w by (rule end_count_cong) simp
  moreover have "fs_wf (put_fd slot i e s)" using fs_wf_slot(2) [OF wf r] e by (intro wf_put_fd [OF wf]) simp
  ultimately show ?thesis using refs ends by (simp add: fd_inv_def refs_ok_def ends_ok_def)
qed

subsection \<open>The operations keep the counts\<close>

lemma used_of_fd:
  assumes "fd_inv s" "slot < MAX_TASKS" "i < MAX_FDS" "unat (f_open (fd_at s slot i)) = Suc k"
  shows "k < MAX_OPEN" "o_used (open_at s k)"
proof -
  have wf: "fs_wf s" using assms(1) by (simp add: fd_inv_def)
  show k: "k < MAX_OPEN" using fs_wf_slot(2) [OF wf assms(2,3)] assms(4) by simp
  show "o_used (open_at s k)" using fd_count_pos [OF wf assms(2-4)] assms(1) k by (simp add: fd_inv_def refs_ok_def)
qed

lemma open_of_Some:
  "open_of slot i s = Some k \<longleftrightarrow> i < MAX_FDS \<and> unat (f_open (fd_at s slot i)) = Suc k"
proof -
  have "w \<noteq> 0 \<Longrightarrow> unat w - 1 = k \<longleftrightarrow> unat w = Suc k" for w :: u16 by (cases "unat w") (auto simp: unat_eq_0)
  then show ?thesis by (auto simp: open_of_def)
qed

lemma unwrapped_drop:
  assumes "fd_inv s" "unwrapped s" "slot < MAX_TASKS" "i < MAX_FDS" "unat (f_open (fd_at s slot i)) = Suc k"
  shows "unwrapped (put_fd slot i EMPTY_FD (close_open k s))"
  using assms(2) drop_ref(2) [OF assms] by (auto simp: unwrapped_def intro: le_less_trans)

lemma close_fd_inv [keeps]:
  assumes "fd_inv s" "unwrapped s" "slot < MAX_TASKS" "i < MAX_FDS"
  shows "fd_inv (close_fd slot i s)" "unwrapped (close_fd slot i s)"
proof -
  have "fd_inv (close_fd slot i s) \<and> unwrapped (close_fd slot i s)"
  proof (cases "f_open (fd_at s slot i) = 0")
    case True
    with assms show ?thesis by (simp add: close_fd_def)
  next
    case False
    then obtain k where k: "unat (f_open (fd_at s slot i)) = Suc k" by (metis not0_implies_Suc unat_eq_0)
    from drop_ref(1) [OF assms k] unwrapped_drop [OF assms k] False show ?thesis by (simp add: close_fd_def k)
  qed
  then show "fd_inv (close_fd slot i s)" "unwrapped (close_fd slot i s)" by simp_all
qed

lemma close_fd_entry:
  assumes "fd_inv s" "slot < MAX_TASKS" "i < MAX_FDS"
  shows "fd_at (close_fd slot i s) sl j = (if sl = slot \<and> j = i then (if f_open (fd_at s slot i) = 0 then fd_at s slot i else EMPTY_FD) else fd_at s sl j)"
  using assms fs_wf_slot(1) [of s slot] by (auto simp: close_fd_def fd_at_put fd_inv_def fs_wf_def)

lemma close_fold_inv:
  assumes "fd_inv s" "unwrapped s" "slot < MAX_TASKS" "\<forall>i\<in>set is. i < MAX_FDS"
  shows "fd_inv (fold (close_fd slot) is s) \<and> unwrapped (fold (close_fd slot) is s)
    \<and> (\<forall>sl j. f_open (fd_at (fold (close_fd slot) is s) sl j) = (if sl = slot \<and> j \<in> set is then 0 else f_open (fd_at s sl j)))"
  using assms
proof (induction "is" arbitrary: s)
  case (Cons i "is")
  have i: "i < MAX_FDS" using Cons.prems(4) by simp
  note c = close_fd_inv [OF Cons.prems(1-3) i]
  from Cons.IH [OF c Cons.prems(3)] Cons.prems(4) close_fd_entry [OF Cons.prems(1,3) i]
  show ?case by (auto simp: EMPTY_FD_def)
qed simp

lemma close_all_inv [keeps]:
  assumes "fd_inv s" "unwrapped s" "slot < MAX_TASKS"
  shows "fd_inv (close_all slot s)" "unwrapped (close_all slot s)" "j < MAX_FDS \<Longrightarrow> f_open (fd_at (close_all slot s) slot j) = 0"
  using close_fold_inv [OF assms, of "[0..<MAX_FDS]"] unfolding close_all_def by auto

lemma unat_Suc_u16: "k < MAX_OPEN \<Longrightarrow> unat (of_nat k + 1 :: u16) = Suc k"
proof -
  assume "k < MAX_OPEN"
  then have "Suc k < 65536" by (simp add: MAX_OPEN_def)
  then have "unat (of_nat (Suc k) :: u16) = Suc k" by (rule unat_of_nat_u16)
  then show ?thesis by (simp add: add.commute)
qed

lemma exec_close_inv [keeps]:
  assumes "fd_inv s" "unwrapped s" "slot < MAX_TASKS"
  shows "fd_inv (exec_close slot s)"
proof -
  have "fd_inv s' \<and> unwrapped s'" if "s' = fold (\<lambda>i s. if f_cloexec (fd_at s slot i) then close_fd slot i s else s) is s"
    "fd_inv s" "unwrapped s" "\<forall>i\<in>set is. i < MAX_FDS" for s s' "is"
    using that
  proof (induction "is" arbitrary: s)
    case (Cons i "is")
    then have "i < MAX_FDS" by simp
    note c = close_fd_inv [OF Cons.prems(2,3) assms(3) this]
    let ?s = "if f_cloexec (fd_at s slot i) then close_fd slot i s else s"
    have "fd_inv ?s" "unwrapped ?s" using c Cons.prems(2,3) by simp_all
    with Cons.IH [of ?s] Cons.prems(1,4) show ?case by simp
  qed simp
  from this [OF refl, of s "[0..<MAX_FDS]"] assms show ?thesis by (simp add: exec_close_def)
qed

lemma clone_fd_inv:
  assumes "fd_inv s" "parent < MAX_TASKS" "child < MAX_TASKS" "parent \<noteq> child" "i < MAX_FDS" "f_open (fd_at s child i) = 0"
  shows "fd_inv (clone_fd parent child i s)"
    "f_open (fd_at (clone_fd parent child i s) sl j) = (if sl = child \<and> j = i then f_open (fd_at s parent i) else f_open (fd_at s sl j))"
proof -
  let ?e = "fd_at s parent i"
  have wf: "fs_wf s" using assms(1) by (simp add: fd_inv_def)
  show "fd_inv (clone_fd parent child i s)"
  proof (cases "f_open ?e = 0")
    case True
    then show ?thesis using fd_inv_cloexec [OF assms(1,3,5), of ?e] assms(6) by (simp add: clone_fd_def Let_def)
  next
    case False
    then obtain k where k: "unat (f_open ?e) = Suc k" by (metis not0_implies_Suc unat_eq_0)
    note u = used_of_fd [OF assms(1,2,5) k]
    have "put_fd child i ?e (ref_open k s) = ref_open k (put_fd child i ?e s)" by (simp add: put_fd_def ref_open_def put_open_def)
    with add_ref [OF assms(1,3,5,6) u k] False k show ?thesis by (simp add: clone_fd_def Let_def)
  qed
  have "fd_at (clone_fd parent child i s) sl j = (if sl = child \<and> j = i then ?e else fd_at s sl j)"
    unfolding clone_fd_def Let_def using fs_wf_slot(1) [OF wf assms(3)] wf assms(3,5)
    by (auto simp: fd_at_put fs_wf_def)
  then show "f_open (fd_at (clone_fd parent child i s) sl j) = (if sl = child \<and> j = i then f_open ?e else f_open (fd_at s sl j))" by auto
qed

lemma fd_clone_task_inv [keeps]:
  assumes "fd_inv s" "unwrapped s" "parent < MAX_TASKS" "child < MAX_TASKS" "parent \<noteq> child"
  shows "fd_inv (fd_clone_task parent child s)"
proof -
  have "fd_inv (fold (clone_fd parent child) is s)" if "fd_inv s" "distinct is" "\<forall>i\<in>set is. i < MAX_FDS \<and> f_open (fd_at s child i) = 0" for s "is"
    using that
  proof (induction "is" arbitrary: s)
    case (Cons i "is")
    then have i: "i < MAX_FDS" "f_open (fd_at s child i) = 0" by simp_all
    note c = clone_fd_inv [OF Cons.prems(1) assms(3-5) i]
    have "\<forall>j\<in>set is. j < MAX_FDS \<and> f_open (fd_at (clone_fd parent child i s) child j) = 0"
      using Cons.prems(2,3) c(2) by auto
    with Cons.IH [OF c(1)] Cons.prems(2) show ?case by simp
  qed simp
  from this [OF close_all_inv(1) [OF assms(1,2,4)], of "[0..<MAX_FDS]"] close_all_inv(3) [OF assms(1,2,4)]
  have "fd_inv (fold (clone_fd parent child) [0..<MAX_FDS] (close_all child s))" by simp
  then show ?thesis unfolding fd_clone_task_def Let_def by (rule fd_inv_cong) (simp_all add: cwd_set_def)
qed

lemma fresh_object:
  assumes "fd_inv s" "alloc_open s = Some k"
  shows "k < MAX_OPEN" "\<not> o_used (open_at s k)" "fd_count k s = 0"
proof -
  show k: "k < MAX_OPEN" "\<not> o_used (open_at s k)" using assms(2) by (auto simp: alloc_open_def)
  then show "fd_count k s = 0" using assms(1) by (simp add: fd_inv_def refs_ok_def)
qed

text \<open>\<open>init_task\<close> gives its object three descriptors at once: the first as a new object, then two more.\<close>

lemma fd_init_task_inv [keeps]:
  assumes "fd_inv s" "unwrapped s" "slot < MAX_TASKS"
  shows "fd_inv (fd_init_task slot s)"
proof -
  let ?s1 = "cwd_set slot ROOT (close_all slot s)"
  note ca = close_all_inv [OF assms]
  have inv1: "fd_inv ?s1" by (rule fd_inv_cong [OF ca(1)]) (simp_all add: cwd_set_def)
  have free: "j < MAX_FDS \<Longrightarrow> f_open (fd_at ?s1 slot j) = 0" for j using ca(3) by (simp add: cwd_set_def)
  show ?thesis
  proof (cases "alloc_open ?s1")
    case None
    with inv1 show ?thesis unfolding fd_init_task_def Let_def by simp
  next
    case (Some k)
    note f = fresh_object [OF inv1 Some]
    let ?e = "\<lparr>f_open = of_nat k + 1, f_cloexec = False\<rparr>"
    let ?ob = "\<lambda>r. \<lparr>o_used = True, o_node = CONSOLE, o_flags = ucast O_RDONLY, o_offset = 0, o_refs = r, o_pipe = 0, o_rom = None\<rparr>"
    have e: "unat (f_open ?e) = Suc k" using unat_Suc_u16 [OF f(1)] by simp
    have wf: "fs_wf ?s1" "refs_ok ?s1" "ends_ok ?s1" using inv1 by (simp_all add: fd_inv_def)
    have len: "slot < length (fs_fds ?s1)" "length (fs_fds ?s1 ! slot) = MAX_FDS" "k < length (fs_opens ?s1)"
      using wf(1) assms(3) fs_wf_slot(1) [OF wf(1) assms(3)] f(1) by (simp_all add: fs_wf_def)
    define a where "a = put_fd slot 0 ?e (put_open k (?ob 1) ?s1)"
    have m: "0 < MAX_FDS" "1 < MAX_FDS" "2 < MAX_FDS" by (simp_all add: MAX_FDS_def)
    have ia: "fd_inv a" unfolding a_def fd_inv_def
      using new_object(1,2) [OF wf(1,2) assms(3) m(1) free [OF m(1)] f(1,3) e, of "?ob 1"] ends_ok_new [OF wf(1,3) f(1,2), of "?ob 1"] by simp
    have ua: "o_used (open_at a k)" "f_open (fd_at a slot 1) = 0" "f_open (fd_at a slot 2) = 0"
      unfolding a_def using len m free by (simp_all add: open_at_put fd_at_put)
    define b where "b = put_fd slot 1 ?e (ref_open k a)"
    have ib: "fd_inv b" unfolding b_def by (rule add_ref [OF ia assms(3) m(2) ua(2) f(1) ua(1) e])
    have ub: "o_used (open_at b k)" "f_open (fd_at b slot 2) = 0"
      using ua len m unfolding b_def a_def by (simp_all add: ref_open_def put_open_def put_fd_def)
    have "fd_inv (put_fd slot 2 ?e (ref_open k b))" by (rule add_ref [OF ib assms(3) m(3) ub(2) f(1) ub(1) e])
    moreover have "put_fd slot 2 ?e (ref_open k b) = fd_init_task slot s"
      unfolding fd_init_task_def Let_def Some option.case b_def a_def
      using len by (simp add: ref_open_def put_open_def put_fd_def upt_rec numeral_2_eq_2)
    ultimately show ?thesis by simp
  qed
qed

lemma dup_from_inv [keeps]:
  assumes "fd_inv s" "slot < MAX_TASKS"
  shows "fd_inv (snd (dup_from lo slot i s))"
proof (cases "open_of slot i s")
  case (Some k)
  then have i: "i < MAX_FDS" "unat (f_open (fd_at s slot i)) = Suc k" by (simp_all add: open_of_Some)
  note u = used_of_fd [OF assms i]
  show ?thesis
  proof (cases "find_between lo MAX_FDS (\<lambda>j. f_open (fd_at s slot j) = 0)")
    case (Some j)
    then have "j < MAX_FDS" "f_open (fd_at s slot j) = 0" by simp_all
    from add_ref [OF assms this u, of "\<lparr>f_open = of_nat k + 1, f_cloexec = False\<rparr>"] unat_Suc_u16 [OF u(1)]
    show ?thesis using \<open>open_of slot i s = Some k\<close> Some by (simp add: dup_from_def del: find_between_Some)
  qed (use assms Some in \<open>simp add: dup_from_def del: find_between_None\<close>)
qed (use assms in \<open>simp add: dup_from_def\<close>)

lemma fd_close_inv [keeps]:
  assumes "fd_inv s" "unwrapped s" "slot < MAX_TASKS"
  shows "fd_inv (snd (fd_close slot i s))"
proof (cases "open_of slot i s")
  case (Some k)
  then have i: "i < MAX_FDS" "unat (f_open (fd_at s slot i)) = Suc k" by (simp_all add: open_of_Some)
  from drop_ref(1) [OF assms i] Some show ?thesis by (simp add: fd_close_def)
qed (use assms in \<open>simp add: fd_close_def\<close>)

lemma fd_dup2_inv [keeps]:
  assumes inv: "fd_inv s" and un: "unwrapped s" and slot: "slot < MAX_TASKS"
  shows "fd_inv (snd (fd_dup2 slot old new s))"
proof (cases "old = new \<or> new \<ge> MAX_FDS \<or> open_of slot old s = None")
  case True
  with inv show ?thesis by (auto simp: fd_dup2_def split: option.splits)
next
  case False
  then obtain k where k: "open_of slot old s = Some k" by auto
  then have o: "old < MAX_FDS" "unat (f_open (fd_at s slot old)) = Suc k" by (simp_all add: open_of_Some)
  have new: "new < MAX_FDS" "old \<noteq> new" using False by auto
  define s1 where "s1 = close_fd slot new s"
  note c = close_fd_inv [OF inv un slot new(1)]
  note ce = close_fd_entry [OF inv slot new(1)]
  have o1: "unat (f_open (fd_at s1 slot old)) = Suc k" "f_open (fd_at s1 slot new) = 0"
    unfolding s1_def ce using o new by (auto simp: EMPTY_FD_def)
  note u = used_of_fd [OF c(1) slot o(1) o1(1) [unfolded s1_def]]
  let ?e = "\<lparr>f_open = of_nat k + 1, f_cloexec = False\<rparr>"
  have "fd_inv (put_fd slot new ?e (ref_open k s1))"
    using add_ref [OF c(1) slot new(1) o1(2) [unfolded s1_def] u, of ?e] unat_Suc_u16 [OF u(1)] by (simp add: s1_def)
  moreover have "put_fd slot new ?e (ref_open k (put_fd slot new EMPTY_FD a)) = put_fd slot new ?e (ref_open k a)" if "slot < length (fs_fds a)" for a
    using that by (simp add: put_fd_def ref_open_def put_open_def)
  then have "put_fd slot new ?e (ref_open k s1) = snd (fd_dup2 slot old new s)"
    using inv slot k new unfolding s1_def close_fd_def fd_dup2_def open_of_def [of slot new]
    by (auto simp: Let_def fd_inv_def fs_wf_def)
  ultimately show ?thesis by simp
qed

lemma fd_lseek_inv [keeps]:
  assumes "fd_inv s" "slot < MAX_TASKS"
  shows "fd_inv (snd (fd_lseek slot i off wh s))"
proof (cases "open_of slot i s")
  case (Some k)
  then have "i < MAX_FDS" "unat (f_open (fd_at s slot i)) = Suc k" by (simp_all add: open_of_Some)
  from used_of_fd(1) [OF assms this] have "fd_inv (set_offset k x s)" for x
    unfolding set_offset_def by (intro fd_inv_open_update [OF assms(1)]) simp_all
  with assms Some show ?thesis by (auto simp: fd_lseek_def Let_def split: option.splits)
qed (use assms in \<open>simp add: fd_lseek_def\<close>)

lemma nonblock_keeps_mode:
  "(f AND NOT (ucast O_NONBLOCK) OR (x AND ucast O_NONBLOCK)) AND ucast O_WRONLY = f AND (ucast O_WRONLY :: u32)"
proof -
  have n: "ucast O_NONBLOCK = (0x800 :: u32)" "ucast O_WRONLY = (1 :: u32)" by (simp_all add: abi_defs)
  have "\<not> bit (0x800 :: u32) 0" by simp
  then show ?thesis unfolding n by (intro bit_word_eqI) (auto simp: bit_simps simp del: bit_0)
qed

lemma fd_fcntl_inv [keeps]:
  assumes "fd_inv s" "slot < MAX_TASKS"
  shows "fd_inv (snd (fd_fcntl slot i cmd arg s))"
proof (cases "cmd = F_DUPFD")
  case True
  have "snd (fd_fcntl slot i F_DUPFD arg s) = snd (dup_from (unat arg) slot i s)"
    unfolding fd_fcntl_def by (auto split: prod.splits sum.splits)
  with True dup_from_inv [OF assms] show ?thesis by simp
next
  case False
  show ?thesis
  proof (cases "open_of slot i s")
    case (Some k)
    then have i: "i < MAX_FDS" "unat (f_open (fd_at s slot i)) = Suc k" by (simp_all add: open_of_Some)
    note k = used_of_fd(1) [OF assms i]
    have "fd_inv (put_open k ((open_at s k)\<lparr>o_flags := (o_flags (open_at s k) AND NOT (ucast O_NONBLOCK)) OR (ucast arg AND ucast O_NONBLOCK)\<rparr>) s)"
      by (intro fd_inv_open_update [OF assms(1) k]) (simp_all add: nonblock_keeps_mode)
    moreover have "fd_inv (put_fd slot i ((fd_at s slot i)\<lparr>f_cloexec := b\<rparr>) s)" for b
      by (rule fd_inv_cloexec [OF assms i(1)]) simp
    ultimately show ?thesis using Some False assms by (simp add: fd_fcntl_def)
  qed (use assms False in \<open>simp add: fd_fcntl_def\<close>)
qed

lemma length_put_open [simp]: "length (fs_opens (put_open k ob s)) = length (fs_opens s)"
  by (simp add: put_open_def)

lemma fd_install_eq:
  assumes "fd_install slot k flags node pid s = (Some i, s')"
  shows "i < MAX_FDS" "f_open (fd_at s slot i) = 0"
    "s' = put_fd slot i \<lparr>f_open = of_nat k + 1, f_cloexec = flags AND ucast O_CLOEXEC \<noteq> 0\<rparr>
      (put_open k \<lparr>o_used = True, o_node = node, o_flags = flags, o_offset = 0, o_refs = 1, o_pipe = pid, o_rom = None\<rparr> s)"
  using assms by (auto simp: fd_install_def split: option.splits)

lemma fd_install_inv:
  assumes "fd_inv s" "slot < MAX_TASKS" "alloc_open s = Some k" "fd_install slot k flags node 0 s = (r, s')"
  shows "fd_inv s'"
proof (cases r)
  case None
  with assms show ?thesis by (auto simp: fd_install_def split: option.splits)
next
  case (Some i)
  note f = fresh_object [OF assms(1,3)]
  note e = fd_install_eq [OF assms(4) [unfolded Some]]
  have wf: "fs_wf s" "refs_ok s" "ends_ok s" using assms(1) by (simp_all add: fd_inv_def)
  show ?thesis unfolding e(3) fd_inv_def
    using new_object(1,2) [OF wf(1,2) assms(2) e(1,2) f(1,3)] ends_ok_new [OF wf(1,3) f(1,2)] unat_Suc_u16 [OF f(1)] by simp
qed

lemma fd_inv_clear:
  assumes inv: "fd_inv s" and k: "k < MAX_OPEN" "\<not> o_used (open_at s k)"
  shows "fd_inv (put_open k EMPTY_OPEN s)"
proof -
  have wf: "fs_wf s" and refs: "refs_ok s" and ends: "ends_ok s" using inv by (simp_all add: fd_inv_def)
  have at: "open_at (put_open k EMPTY_OPEN s) j = (if j = k then EMPTY_OPEN else open_at s j)" for j
    using wf k by (simp add: open_at_put fs_wf_def)
  have "end_count p w (put_open k EMPTY_OPEN s) = end_count p w s" for p w
    using end_count_put [OF wf k(1), of p w EMPTY_OPEN] k(2) by (simp add: is_end_def EMPTY_OPEN_def)
  moreover have "fd_count j (put_open k EMPTY_OPEN s) = fd_count j s" for j by (rule fd_count_cong) simp
  ultimately show ?thesis using refs ends wf_put_open [OF wf] k
    unfolding fd_inv_def refs_ok_def ends_ok_def at by (auto simp: EMPTY_OPEN_def)
qed

lemma fd_inv_tmpfs [simp]: "fd_inv (s\<lparr>fs_tmpfs := t\<rparr>) = fd_inv s"
  by (simp add: fd_inv_def fs_wf_def refs_ok_def ends_ok_def fd_count_def end_count_def)

lemma open_node_inv [keeps]:
  assumes "fd_inv s" "slot < MAX_TASKS" shows "fd_inv (snd (open_node slot flags n s))"
proof -
  let ?s1 = "if ucast flags AND O_TRUNC \<noteq> 0 then s\<lparr>fs_tmpfs := tmpfs_truncate n (fs_tmpfs s)\<rparr> else s"
  have "fd_inv ?s1" using assms(1) by simp
  with fd_install_inv [OF this assms(2)] assms(1) show ?thesis
    unfolding open_node_def Let_def by (auto split: option.splits prod.splits)
qed

lemma open_rom_inv [keeps]:
  assumes "fd_inv s" "slot < MAX_TASKS" shows "fd_inv (snd (open_rom slot flags img s))"
proof (cases "alloc_open s")
  case None
  with assms show ?thesis by (simp add: open_rom_def)
next
  case (Some k)
  note f = fresh_object [OF assms(1) Some]
  obtain r s1 where i: "fd_install slot k flags ROOT 0 s = (r, s1)" by fastforce
  note inv1 = fd_install_inv [OF assms Some i]
  show ?thesis
  proof (cases r)
    case None
    then have "s1 = s" using i by (auto simp: fd_install_def split: option.splits)
    with None fd_inv_clear [OF assms(1) f(1,2)] i Some assms show ?thesis by (auto simp: open_rom_def)
  next
    case (Some j)
    have "fd_inv (put_open k ((open_at s1 k)\<lparr>o_rom := Some img\<rparr>) s1)" by (rule fd_inv_open_update [OF inv1 f(1)]) simp_all
    with Some i \<open>alloc_open s = Some k\<close> assms show ?thesis by (auto simp: open_rom_def)
  qed
qed

lemma fs_create_in_fields: "snd (fs_create_in slot path k s) = s\<lparr>fs_tmpfs := fs_tmpfs (snd (fs_create_in slot path k s))\<rparr>"
  by (auto simp: fs_create_in_def split: prod.splits sum.splits)

lemma fs_rename_in_fields: "snd (fs_rename_in slot old new s) = s\<lparr>fs_tmpfs := fs_tmpfs (snd (fs_rename_in slot old new s))\<rparr>"
  by (auto simp: fs_rename_in_def split: prod.splits sum.splits)

lemma path_ops_inv [keeps]:
  assumes "fd_inv s"
  shows "fd_inv (snd (fs_create_in slot path k s))" "fd_inv (snd (fs_rename_in slot old new s))"
  by (subst fs_create_in_fields, simp add: assms) (subst fs_rename_in_fields, simp add: assms)

lemma fd_open_inv [keeps]:
  assumes "fd_inv s" "slot < MAX_TASKS" shows "fd_inv (snd (fd_open bins slot path flags s))"
proof -
  have c: "fd_inv s1" if "fs_create_in slot path File (s\<lparr>fs_tmpfs := t\<rparr>) = (r, s1)" for r s1 t
    using path_ops_inv(1) [of "s\<lparr>fs_tmpfs := t\<rparr>" slot path File] that assms(1) by simp
  show ?thesis unfolding fd_open_def using assms c
    by (auto simp: open_node_inv open_rom_inv split: prod.splits sum.splits option.splits)
qed

lemma end_count_unused_pipe:
  assumes "ends_ok s" "p < MAX_PIPES" "\<not> p_used (fs_pipes s ! p)"
  shows "end_count p w s = 0"
proof -
  have "pipe_ok (fs_pipes s ! p)" using assms by (simp add: ends_ok_def pipes_inv_nth)
  then have "p_read_refs (fs_pipes s ! p) = 0" "p_write_refs (fs_pipes s ! p) = 0" using assms(3) by (simp_all add: pipe_ok_def)
  then have "end_count p False s = 0 \<and> end_count p True s = 0" using assms(1,2) unfolding ends_ok_def by (metis unsigned_0)
  then show ?thesis by (cases w) auto
qed

text \<open>Two new objects on a fresh pipe, one per end.\<close>

lemma pipe_objects_inv:
  assumes inv: "fd_inv s" and p: "p < MAX_PIPES" "\<not> p_used (fs_pipes s ! p)" and slot: "slot < MAX_TASKS"
    and r: "r < MAX_OPEN" "\<not> o_used (open_at s r)" and w: "w < MAX_OPEN" "\<not> o_used (open_at s w)" "w \<noteq> r"
    and i: "i < MAX_FDS" "f_open (fd_at s slot i) = 0" "unat (f_open ei) = Suc r"
    and j: "j < MAX_FDS" "j \<noteq> i" "f_open (fd_at s slot j) = 0" "unat (f_open ej) = Suc w"
    and ro: "o_used ro" "o_refs ro = 1" "unat (o_pipe ro) = Suc p" "o_flags ro AND ucast O_WRONLY = 0"
    and wo: "o_used wo" "o_refs wo = 1" "unat (o_pipe wo) = Suc p" "o_flags wo AND ucast O_WRONLY \<noteq> 0"
  shows "fd_inv (put_fd slot j ej (put_open w wo (put_fd slot i ei (put_open r ro (s\<lparr>fs_pipes := pipe_init p (fs_pipes s)\<rparr>)))))"
proof -
  define s0 where "s0 = s\<lparr>fs_pipes := pipe_init p (fs_pipes s)\<rparr>"
  define s1 where "s1 = put_fd slot i ei (put_open r ro s0)"
  define s2 where "s2 = put_fd slot j ej (put_open w wo s1)"
  have f0: "fs_fds s0 = fs_fds s" "fs_opens s0 = fs_opens s" "fs_cwd s0 = fs_cwd s" by (simp_all add: s0_def)
  have wf0: "fs_wf s0" and refs0: "refs_ok s0" using inv f0 by (simp_all add: fd_inv_def fs_wf_def refs_ok_def fd_count_def)
  have ends: "ends_ok s" using inv by (simp add: fd_inv_def)
  have len: "slot < length (fs_fds s0)" "i < length (fs_fds s0 ! slot)" "r < length (fs_opens s0)" "w < length (fs_opens s0)"
    using wf0 slot i(1) fs_wf_slot(1) [OF wf0 slot] r(1) w(1) by (simp_all add: fs_wf_def)
  have c0: "fd_count r s0 = 0" "fd_count w s0 = 0" using refs0 r w f0 by (simp_all add: refs_ok_def)
  have n1: "fs_wf s1" "refs_ok s1" "\<And>k. fd_count k s1 = fd_count k s0 + of_bool (k = r)"
    unfolding s1_def using new_object [OF wf0 refs0 slot i(1) _ r(1) c0(1) i(3) ro(1,2)] i(2) f0 by simp_all
  have u1: "\<not> o_used (open_at s1 w)" "f_open (fd_at s1 slot j) = 0" "fd_count w s1 = 0"
    using w(2,3) j(2,3) len f0 n1(3) c0(2) unfolding s1_def by (simp_all add: open_at_put fd_at_put)
  have n2: "fs_wf s2" "refs_ok s2"
    unfolding s2_def using new_object [OF n1(1,2) slot j(1) u1(2) w(1) u1(3) j(4) wo(1,2)] by simp_all
  have e: "end_count q b s2 = end_count q b s + of_bool (q = p)" for q b
  proof -
    have "end_count q b s1 = end_count q b s + of_bool (is_end q b ro)"
      unfolding s1_def using end_count_new [OF wf0 r(1), of q b slot i ei ro] r(2) f0 end_count_cong [of s0 s] by simp
    moreover have "end_count q b s2 = end_count q b s1 + of_bool (is_end q b wo)"
      unfolding s2_def by (rule end_count_new [OF n1(1) w(1) u1(1)])
    ultimately show ?thesis using ro wo by (auto simp: is_end_def)
  qed
  have pipes: "fs_pipes s2 = pipe_init p (fs_pipes s)" by (simp add: s2_def s1_def s0_def)
  have pi: "pipes_inv (fs_pipes s)" using ends by (simp add: ends_ok_def)
  then have plen: "p < length (fs_pipes s)" using p(1) by (simp add: pipes_inv_def)
  have "unat (p_read_refs (fs_pipes s2 ! q)) = end_count q False s2 \<and> unat (p_write_refs (fs_pipes s2 ! q)) = end_count q True s2" if "q < MAX_PIPES" for q
    unfolding pipes e using that ends end_count_unused_pipe [OF ends p] plen
    by (cases "q = p") (auto simp: ends_ok_def pipe_init_def EMPTY_PIPE_def)
  moreover have "unat (o_pipe (open_at s2 k)) \<le> MAX_PIPES" if "k < MAX_OPEN" for k
    using that ends len f0 ro(3) wo(3) p(1) unfolding s2_def s1_def by (auto simp: open_at_put ends_ok_def)
  ultimately have "ends_ok s2" using pipe_init_inv [OF pi] unfolding ends_ok_def pipes by auto
  with n2 show ?thesis by (simp add: fd_inv_def s2_def s1_def s0_def)
qed

lemma fd_pipe_inv [keeps]:
  assumes inv: "fd_inv s" and slot: "slot < MAX_TASKS"
  shows "fd_inv (snd (fd_pipe slot s))"
proof (cases "length (filter (\<lambda>i. f_open (fd_at s slot i) = 0) [0..<MAX_FDS]) < 2 \<or> pipe_alloc (fs_pipes s) = None \<or> alloc_open s = None")
  case True
  with inv show ?thesis by (auto simp: fd_pipe_def split: option.splits)
next
  case False
  then obtain p r where p: "pipe_alloc (fs_pipes s) = Some p" and r: "alloc_open s = Some r" by auto
  let ?s1 = "put_open r ((open_at s r)\<lparr>o_used := True\<rparr>) s"
  note fr = fresh_object [OF inv r]
  have len: "r < length (fs_opens s)" using inv fr(1) by (simp add: fd_inv_def fs_wf_def)
  have pp: "p < MAX_PIPES" "\<not> p_used (fs_pipes s ! p)" using p by (auto simp: pipe_alloc_def)
  show ?thesis
  proof (cases "alloc_open ?s1")
    case None
    have "put_open r EMPTY_OPEN ?s1 = put_open r EMPTY_OPEN s" by (simp add: put_open_def)
    with fd_inv_clear [OF inv fr(1,2)] False p r None inv show ?thesis by (simp add: fd_pipe_def Let_def)
  next
    case (Some w)
    then have w: "w < MAX_OPEN" "\<not> o_used (open_at s w)" "w \<noteq> r"
      using len by (auto simp: alloc_open_def open_at_put split: if_splits)
    let ?s2 = "?s1\<lparr>fs_pipes := pipe_init p (fs_pipes ?s1)\<rparr>"
    have pid: "unat (of_nat p + 1 :: u16) = Suc p" using pp(1) unat_Suc_u16 [of p] by (simp add: MAX_PIPES_def MAX_OPEN_def)
    obtain ri s3 where i3: "fd_install slot r (ucast O_RDONLY) 0 (of_nat p + 1) ?s2 = (ri, s3)" by fastforce
    obtain wi s4 where i4: "fd_install slot w (ucast O_WRONLY) 0 (of_nat p + 1) s3 = (wi, s4)" by fastforce
    obtain a b rest where free: "filter (\<lambda>i. f_open (fd_at s slot i) = 0) [0..<MAX_FDS] = a # b # rest"
      using False by (cases "filter (\<lambda>i. f_open (fd_at s slot i) = 0) [0..<MAX_FDS]" rule: remdups_adj.cases) auto
    have "distinct (a # b # rest)" unfolding free [symmetric] by simp
    moreover have "{a, b} \<subseteq> set (filter (\<lambda>i. f_open (fd_at s slot i) = 0) [0..<MAX_FDS])" unfolding free by simp
    ultimately have ab: "a \<noteq> b" "a < MAX_FDS" "b < MAX_FDS" "f_open (fd_at s slot a) = 0" "f_open (fd_at s slot b) = 0" by auto
    have same: "fs_fds ?s2 = fs_fds s" by simp
    obtain i where ri: "ri = Some i"
    proof (cases ri)
      case None
      then have "find_below (\<lambda>i. f_open (fd_at ?s2 slot i) = 0) MAX_FDS = None" using i3 by (auto simp: fd_install_def split: option.splits)
      with ab show ?thesis by simp
    qed (rule that)
    note e3 = fd_install_eq [OF i3 [unfolded ri]]
    have fl: "slot < length (fs_fds s)" "i < length (fs_fds s ! slot)"
      using inv slot e3(1) fs_wf_slot(1) [of s slot] by (simp_all add: fd_inv_def fs_wf_def)
    have f3: "f_open (fd_at s3 slot c) = f_open (fd_at s slot c)" if "c \<noteq> i" for c
      unfolding e3(3) using that fl by (simp add: fd_at_put)
    obtain j where wi: "wi = Some j"
    proof (cases wi)
      case None
      then have "find_below (\<lambda>i. f_open (fd_at s3 slot i) = 0) MAX_FDS = None" using i4 by (auto simp: fd_install_def split: option.splits)
      with ab f3 [of a] f3 [of b] show ?thesis by (cases "a = i") auto
    qed (rule that)
    note e4 = fd_install_eq [OF i4 [unfolded wi]]
    have ji: "j \<noteq> i" using e4(2) unat_Suc_u16 [OF fr(1)] fl unfolding e3(3) by (auto simp: fd_at_put)
    have j0: "f_open (fd_at s slot j) = 0" using f3 [OF ji] e4(2) by simp
    have eq: "put_open r ob ?s2 = put_open r ob (s\<lparr>fs_pipes := pipe_init p (fs_pipes s)\<rparr>)" for ob by (simp add: put_open_def)
    have i0: "f_open (fd_at s slot i) = 0" using e3(2) by simp
    have mode: "(ucast O_RDONLY :: u32) AND ucast O_WRONLY = 0" "(ucast O_WRONLY :: u32) \<noteq> 0" by (simp_all add: abi_defs)
    have "fd_inv s4" unfolding e4(3) e3(3) eq
      by (rule pipe_objects_inv [OF inv pp slot fr(1,2) w e3(1) i0 _ e4(1) ji j0])
        (simp_all add: unat_Suc_u16 fr(1) w(1) pid mode)
    moreover have "snd (fd_pipe slot s) = s4"
      using False p r Some i3 i4 ri wi by (simp add: fd_pipe_def Let_def)
    ultimately show ?thesis by simp
  qed
qed

section \<open>Properties\<close>

text \<open>Every operation of the layer, by any task. Those that drop references assume that no count has
  wrapped.\<close>

inductive fs_reach :: "bins \<Rightarrow> fs \<Rightarrow> bool" for bins where
  boot: "fs_reach bins fs_boot"
| init_task: "fs_reach bins s \<Longrightarrow> unwrapped s \<Longrightarrow> slot < MAX_TASKS \<Longrightarrow> fs_reach bins (fd_init_task slot s)"
| fork: "fs_reach bins s \<Longrightarrow> unwrapped s \<Longrightarrow> parent < MAX_TASKS \<Longrightarrow> child < MAX_TASKS \<Longrightarrow> parent \<noteq> child \<Longrightarrow> fs_reach bins (fd_clone_task parent child s)"
| exec: "fs_reach bins s \<Longrightarrow> unwrapped s \<Longrightarrow> slot < MAX_TASKS \<Longrightarrow> fs_reach bins (exec_close slot s)"
| exit: "fs_reach bins s \<Longrightarrow> unwrapped s \<Longrightarrow> slot < MAX_TASKS \<Longrightarrow> fs_reach bins (close_all slot s)"
| open_file: "fs_reach bins s \<Longrightarrow> slot < MAX_TASKS \<Longrightarrow> fs_reach bins (snd (fd_open bins slot path flags s))"
| close: "fs_reach bins s \<Longrightarrow> unwrapped s \<Longrightarrow> slot < MAX_TASKS \<Longrightarrow> fs_reach bins (snd (fd_close slot i s))"
| dup: "fs_reach bins s \<Longrightarrow> slot < MAX_TASKS \<Longrightarrow> fs_reach bins (snd (fd_dup slot i s))"
| dup2: "fs_reach bins s \<Longrightarrow> unwrapped s \<Longrightarrow> slot < MAX_TASKS \<Longrightarrow> fs_reach bins (snd (fd_dup2 slot old new s))"
| fcntl: "fs_reach bins s \<Longrightarrow> slot < MAX_TASKS \<Longrightarrow> fs_reach bins (snd (fd_fcntl slot i cmd arg s))"
| lseek: "fs_reach bins s \<Longrightarrow> slot < MAX_TASKS \<Longrightarrow> fs_reach bins (snd (fd_lseek slot i off wh s))"
| pipe: "fs_reach bins s \<Longrightarrow> slot < MAX_TASKS \<Longrightarrow> fs_reach bins (snd (fd_pipe slot s))"
| pipe_read: "fs_reach bins s \<Longrightarrow> p < MAX_PIPES \<Longrightarrow> fs_reach bins (s\<lparr>fs_pipes := snd (pipe_read_locked p n (fs_pipes s))\<rparr>)"
| pipe_write: "fs_reach bins s \<Longrightarrow> p < MAX_PIPES \<Longrightarrow> fs_reach bins (s\<lparr>fs_pipes := snd (pipe_write_locked p data (fs_pipes s))\<rparr>)"
| offset: "fs_reach bins s \<Longrightarrow> k < MAX_OPEN \<Longrightarrow> fs_reach bins (set_offset k off s)"
| create: "fs_reach bins s \<Longrightarrow> fs_reach bins (snd (fs_create_in slot path kd s))"
| rename: "fs_reach bins s \<Longrightarrow> fs_reach bins (snd (fs_rename_in slot path new_path s))"
| chdir: "fs_reach bins s \<Longrightarrow> fs_reach bins (cwd_set slot d s)"
| tmpfs: "fs_reach bins s \<Longrightarrow> fs_reach bins (s\<lparr>fs_tmpfs := t\<rparr>)"

lemma fd_inv_boot: "fd_inv fs_boot"
proof -
  have "fd_count k fs_boot = 0" for k by (simp add: fd_count_def fs_boot_def EMPTY_FD_def map_replicate_const)
  moreover have "end_count p w fs_boot = 0" for p w by (simp add: end_count_def fs_boot_def is_end_def EMPTY_OPEN_def map_replicate_const)
  moreover have "fs_wf fs_boot" by (auto simp: fs_wf_def fs_boot_def EMPTY_FD_def)
  moreover have "pipes_inv (fs_pipes fs_boot)" by (simp add: fs_boot_def pipes_inv_init)
  moreover have "o_refs (open_at fs_boot k) = 0 \<and> \<not> o_used (open_at fs_boot k) \<and> o_pipe (open_at fs_boot k) = 0" if "k < MAX_OPEN" for k
    using that by (simp add: fs_boot_def EMPTY_OPEN_def)
  moreover have "p_read_refs (fs_pipes fs_boot ! p) = 0 \<and> p_write_refs (fs_pipes fs_boot ! p) = 0" if "p < MAX_PIPES" for p
    using that by (simp add: fs_boot_def pipes_init_def EMPTY_PIPE_def)
  ultimately show ?thesis by (simp add: fd_inv_def refs_ok_def ends_ok_def)
qed

lemma pipe_io_refs:
  "p_read_refs (snd (pipe_read_locked p n ps) ! q) = p_read_refs (ps ! q)" "p_write_refs (snd (pipe_read_locked p n ps) ! q) = p_write_refs (ps ! q)"
  "p_read_refs (snd (pipe_write_locked p d ps) ! q) = p_read_refs (ps ! q)" "p_write_refs (snd (pipe_write_locked p d ps) ! q) = p_write_refs (ps ! q)"
  by (cases "q = p"; cases "p < length ps"; auto simp: pipe_read_locked_def pipe_write_locked_def Let_def list_update_beyond)+

lemma fd_inv_pipes:
  assumes "fd_inv s" "pipes_inv ps" "\<And>q. p_read_refs (ps ! q) = p_read_refs (fs_pipes s ! q)" "\<And>q. p_write_refs (ps ! q) = p_write_refs (fs_pipes s ! q)"
  shows "fd_inv (s\<lparr>fs_pipes := ps\<rparr>)"
  using assms by (simp add: fd_inv_def fs_wf_def refs_ok_def ends_ok_def fd_count_def end_count_def)

lemma fd_inv_pipe_io:
  assumes "fd_inv s" "p < MAX_PIPES"
  shows "fd_inv (s\<lparr>fs_pipes := snd (pipe_read_locked p n (fs_pipes s))\<rparr>)" "fd_inv (s\<lparr>fs_pipes := snd (pipe_write_locked p d (fs_pipes s))\<rparr>)"
proof -
  have pi: "pipes_inv (fs_pipes s)" using assms(1) by (simp add: fd_inv_def ends_ok_def)
  have "pipes_inv (snd (pipe_read_locked p n (fs_pipes s)))" "pipes_inv (snd (pipe_write_locked p d (fs_pipes s)))"
    using pipe_read_locked_spec(1) [OF pi assms(2)] pipe_write_locked_spec(1) [OF pi assms(2)] by (metis prod.collapse)+
  then show "fd_inv (s\<lparr>fs_pipes := snd (pipe_read_locked p n (fs_pipes s))\<rparr>)" "fd_inv (s\<lparr>fs_pipes := snd (pipe_write_locked p d (fs_pipes s))\<rparr>)"
    using assms(1) by (auto intro!: fd_inv_pipes simp: pipe_io_refs)
qed

lemma fs_reach_inv: "fs_reach bins s \<Longrightarrow> fd_inv s"
proof (induction rule: fs_reach.induct)
  case boot
  show ?case by (rule fd_inv_boot)
next
  case (dup s slot i)
  then show ?case by (simp add: fd_dup_def dup_from_inv)
next
  case (offset s k off)
  then show ?case unfolding set_offset_def by (intro fd_inv_open_update) simp_all
next
  case (chdir s slot d)
  show ?case by (rule fd_inv_cong [OF chdir.IH]) (simp_all add: cwd_set_def)
qed (simp_all add: keeps fd_inv_pipe_io)

lemma sum_list_pos: "0 < (\<Sum>x\<leftarrow>xs. f x :: nat) \<longleftrightarrow> (\<exists>x\<in>set xs. 0 < f x)"
  by (induction xs) auto

lemma fd_count_iff:
  assumes "fs_wf s"
  shows "0 < fd_count k s \<longleftrightarrow> (\<exists>slot<MAX_TASKS. \<exists>i<MAX_FDS. open_of slot i s = Some k)"
proof
  assume "0 < fd_count k s"
  then obtain t e where te: "t \<in> set (fs_fds s)" "e \<in> set t" "unat (f_open e) = Suc k"
    by (auto simp: fd_count_def sum_list_pos split: if_splits)
  then obtain slot i where "slot < length (fs_fds s)" "t = fs_fds s ! slot" "i < length t" "e = t ! i" by (metis in_set_conv_nth)
  moreover have "length (fs_fds s) = MAX_TASKS" "length t = MAX_FDS" using assms te(1) by (simp_all add: fs_wf_def)
  ultimately show "\<exists>slot<MAX_TASKS. \<exists>i<MAX_FDS. open_of slot i s = Some k" using te(3) by (auto simp: open_of_Some)
qed (auto simp: open_of_Some intro: fd_count_pos [OF assms])

lemma end_count_iff:
  assumes "fs_wf s" shows "0 < end_count p w s \<longleftrightarrow> (\<exists>k<MAX_OPEN. is_end p w (open_at s k))"
  using assms by (force simp: end_count_def sum_list_pos fs_wf_def in_set_conv_nth)



text \<open>C35. The 8-bit count wraps: once 256 descriptors share one object (eight tasks whose 32 descriptors are
  duplicates of it), its count is zero, and closing any one of them frees the object although 255
  descriptors still refer to it.\<close>

theorem fd_refs_wrap:
  assumes "fd_inv s" and "slot < MAX_TASKS" and "open_of slot i s = Some k" and "fd_count k s = 256" and "o_pipe (open_at s k) = 0"
  shows "let s' = snd (fd_close slot i s) in \<not> o_used (open_at s' k) \<and> fd_count k s' = 255"
proof -
  have i: "i < MAX_FDS" "unat (f_open (fd_at s slot i)) = Suc k" using assms(3) by (simp_all add: open_of_Some)
  have wf: "fs_wf s" using assms(1) by (simp add: fd_inv_def)
  have k: "k < MAX_OPEN" by (rule used_of_fd(1) [OF assms(1,2) i])
  have r0: "o_refs (open_at s k) = 0" using assms(1,4) k by (simp add: fd_inv_def refs_ok_def)
  have c: "close_open k s = put_open k EMPTY_OPEN s" unfolding close_open_def Let_def r0 using assms(5) by simp
  have "fd_count k (put_fd slot i EMPTY_FD (put_open k EMPTY_OPEN s)) + 1 = 256"
    using fd_count_put [OF wf_put_open [OF wf] assms(2) i(1), of k EMPTY_FD k EMPTY_OPEN] i(2) assms(4) fd_count_cong [of "put_open k EMPTY_OPEN s" s k]
    by (simp add: EMPTY_FD_def)
  moreover have "\<not> o_used (open_at (put_fd slot i EMPTY_FD (put_open k EMPTY_OPEN s)) k)"
    using wf k by (simp add: open_at_put fs_wf_def) (simp add: EMPTY_OPEN_def)
  ultimately show ?thesis using assms(3) by (simp add: fd_close_def c)
qed

definition crowded_fs :: fs where
  "crowded_fs = fs_boot\<lparr>fs_fds := replicate 8 (replicate MAX_FDS \<lparr>f_open = 1, f_cloexec = False\<rparr>) @ replicate 8 (replicate MAX_FDS EMPTY_FD),
     fs_opens := EMPTY_OPEN\<lparr>o_used := True, o_node := CONSOLE\<rparr> # replicate 127 EMPTY_OPEN\<rparr>"

theorem fd_refs_wrap_witness:
  "\<not> o_used (open_at (snd (fd_close 0 5 crowded_fs)) 0)"
proof -
  have c: "fd_count k crowded_fs = (if k = 0 then 256 else 0)" for k
    by (simp add: fd_count_def crowded_fs_def EMPTY_FD_def MAX_FDS_def map_replicate_const sum_list_replicate)
  have e: "end_count p w crowded_fs = 0" for p w
    by (simp add: end_count_def crowded_fs_def is_end_def EMPTY_OPEN_def map_replicate_const)
  have o: "open_at crowded_fs k = (if k = 0 then EMPTY_OPEN\<lparr>o_used := True, o_node := CONSOLE\<rparr> else EMPTY_OPEN)" if "k < MAX_OPEN" for k
    using that by (cases k) (simp_all add: crowded_fs_def MAX_OPEN_def)
  have "fs_wf crowded_fs" by (auto simp: fs_wf_def crowded_fs_def fs_boot_def MAX_TASKS_def MAX_OPEN_def EMPTY_FD_def)
  moreover have "refs_ok crowded_fs" using o c by (auto simp: refs_ok_def EMPTY_OPEN_def)
  moreover have p: "fs_pipes crowded_fs = pipes_init" by (simp add: crowded_fs_def fs_boot_def)
  moreover have "p_read_refs (pipes_init ! q) = 0 \<and> p_write_refs (pipes_init ! q) = 0" if "q < MAX_PIPES" for q
    using that by (simp add: pipes_init_def EMPTY_PIPE_def)
  then have "ends_ok crowded_fs" using o e pipes_inv_init unfolding ends_ok_def p by (auto simp: EMPTY_OPEN_def)
  ultimately have inv: "fd_inv crowded_fs" by (simp add: fd_inv_def)
  have "open_of 0 5 crowded_fs = Some 0" by (simp add: open_of_def crowded_fs_def MAX_FDS_def nth_append)
  from fd_refs_wrap [OF inv _ this] c [of 0] o [of 0] show ?thesis by (simp add: MAX_TASKS_def MAX_OPEN_def EMPTY_OPEN_def Let_def)
qed

lemma close_fd_wf:
  assumes "fs_wf s" shows "fs_wf (close_fd slot i s)"
proof -
  have "fs_wf (close_open k s)" for k using assms by (auto simp: close_open_def Let_def fs_wf_def put_open_def)
  then show ?thesis using assms by (auto simp: close_fd_def EMPTY_FD_def intro: wf_put_fd)
qed

lemma close_fd_at:
  assumes "fs_wf s" "slot < MAX_TASKS" "i < MAX_FDS"
  shows "fd_at (close_fd slot i s) sl j = (if sl = slot \<and> j = i \<and> f_open (fd_at s slot i) \<noteq> 0 then EMPTY_FD else fd_at s sl j)"
  using assms fs_wf_slot(1) [of s slot] by (auto simp: close_fd_def fd_at_put fs_wf_def)

lemma exec_fold_entries:
  assumes "fs_wf s" "slot < MAX_TASKS" "distinct is" "\<forall>i\<in>set is. i < MAX_FDS"
  shows "fd_at (fold (\<lambda>i s. if f_cloexec (fd_at s slot i) then close_fd slot i s else s) is s) sl j =
    (if sl = slot \<and> j \<in> set is \<and> f_cloexec (fd_at s slot j) \<and> f_open (fd_at s slot j) \<noteq> 0 then EMPTY_FD else fd_at s sl j)"
  using assms
proof (induction "is" arbitrary: s)
  case (Cons i "is")
  then have i: "i < MAX_FDS" "i \<notin> set is" "distinct is" "\<forall>i\<in>set is. i < MAX_FDS" by simp_all
  let ?s = "if f_cloexec (fd_at s slot i) then close_fd slot i s else s"
  have wf: "fs_wf ?s" using close_fd_wf [OF Cons.prems(1)] Cons.prems(1) by simp
  have at: "fd_at ?s sl j = (if sl = slot \<and> j = i \<and> f_cloexec (fd_at s slot i) \<and> f_open (fd_at s slot i) \<noteq> 0 then EMPTY_FD else fd_at s sl j)" for sl j
    using close_fd_at [OF Cons.prems(1,2) i(1)] by auto
  from Cons.IH [OF wf Cons.prems(2) i(3,4)] i(2) show ?case unfolding fold_Cons comp_def at by auto
qed simp

lemma clone_fold_entries:
  assumes "fs_wf s" "parent < MAX_TASKS" "child < MAX_TASKS" "parent \<noteq> child" "\<forall>i\<in>set is. i < MAX_FDS" "distinct is"
  shows "fd_at (fold (clone_fd parent child) is s) sl j = (if sl = child \<and> j \<in> set is then fd_at s parent j else fd_at s sl j)
    \<and> fs_wf (fold (clone_fd parent child) is s)"
  using assms
proof (induction "is" arbitrary: s)
  case (Cons i "is")
  then have i: "i < MAX_FDS" "i \<notin> set is" by simp_all
  have len: "child < length (fs_fds s)" "i < length (fs_fds s ! child)"
    using Cons.prems(1,3) i(1) fs_wf_slot(1) [OF Cons.prems(1,3)] by (simp_all add: fs_wf_def)
  have at: "fd_at (clone_fd parent child i s) sl j = (if sl = child \<and> j = i then fd_at s parent i else fd_at s sl j)" for sl j
    unfolding clone_fd_def Let_def using len by (auto simp: fd_at_put)
  have wf: "fs_wf (clone_fd parent child i s)"
    unfolding clone_fd_def Let_def using wf_put_fd [OF Cons.prems(1) fs_wf_slot(2) [OF Cons.prems(1,2) i(1)]]
    by (simp add: ref_open_def wf_put_open)
  from Cons.IH [OF wf] Cons.prems i(2) show ?case unfolding fold_Cons comp_def at by auto
qed simp

lemma close_all_other:
  assumes "fs_wf s" "slot < MAX_TASKS" "sl \<noteq> slot"
  shows "fd_at (close_all slot s) sl j = fd_at s sl j" "fs_wf (close_all slot s)"
proof -
  have "fd_at (fold (close_fd slot) is s) sl j = fd_at s sl j \<and> fs_wf (fold (close_fd slot) is s)" if "fs_wf s" "\<forall>i\<in>set is. i < MAX_FDS" for s "is"
    using that
  proof (induction "is" arbitrary: s)
    case (Cons i "is")
    then have i: "i < MAX_FDS" by simp
    from Cons.IH [OF close_fd_wf [OF Cons.prems(1)]] Cons.prems(2) close_fd_at [OF Cons.prems(1) assms(2) i] assms(3) show ?case by simp
  qed simp
  then show "fd_at (close_all slot s) sl j = fd_at s sl j" "fs_wf (close_all slot s)" using assms(1) by (simp_all add: close_all_def)
qed

lemma cwd_fold:
  "fs_cwd (fold (close_fd slot) is s) = fs_cwd s" "fs_cwd (fold (clone_fd p c) is s) = fs_cwd s"
  by (induction "is" arbitrary: s) (simp_all add: close_fd_def clone_fd_def Let_def)

text \<open>C34. Fork and exec: the child of a fork starts with exactly the parent's descriptors and working
  directory, and the parent keeps its own; an exec in the child then closes exactly the descriptors
  marked close-on-exec and leaves every other descriptor, and the parent's, as they were.\<close>

theorem fork_exec_descriptors:
  assumes "fs_wf s" and "parent < MAX_TASKS" and "child < MAX_TASKS" and "parent \<noteq> child" and "j < MAX_FDS"
  shows "let s1 = fd_clone_task parent child s; s2 = exec_close child s1 in
      open_of child j s1 = open_of parent j s \<and> open_of parent j s1 = open_of parent j s \<and> cwd_get child s1 = cwd_get parent s
    \<and> open_of child j s2 = (if f_cloexec (fd_at s parent j) then None else open_of parent j s) \<and> open_of parent j s2 = open_of parent j s"
proof -
  let ?c = "close_all child s" and ?s1 = "fd_clone_task parent child s"
  note ca = close_all_other [OF assms(1,3,4)]
  have f1: "fs_fds ?s1 = fs_fds (fold (clone_fd parent child) [0..<MAX_FDS] ?c)" by (simp add: fd_clone_task_def Let_def cwd_set_def)
  have e1: "fd_at ?s1 sl j = fd_at s parent j" if "sl = child \<or> sl = parent" for sl
    unfolding f1 using clone_fold_entries [OF ca(2) assms(2-4), of "[0..<MAX_FDS]" sl j] ca(1) that assms(5) by auto
  have "fs_wf (fold (clone_fd parent child) [0..<MAX_FDS] ?c)"
    using clone_fold_entries [OF ca(2) assms(2-4), of "[0..<MAX_FDS]"] by simp
  then have wf1: "fs_wf ?s1" by (simp add: fd_clone_task_def Let_def cwd_set_def fs_wf_def)
  have cw: "cwd_get child ?s1 = cwd_get parent s"
    using assms(1,3) by (simp add: fd_clone_task_def Let_def cwd_set_def cwd_get_def close_all_def cwd_fold fs_wf_def)
  note e2 = exec_fold_entries [OF wf1 assms(3), of "[0..<MAX_FDS]", folded exec_close_def]
  show ?thesis
    unfolding Let_def cw open_of_def e2 using assms(4,5) e1 by (auto simp: e2 EMPTY_FD_def)
qed

theorem fork_exec_descriptors_witness:
  "let s = put_fd 2 1 \<lparr>f_open = 5, f_cloexec = True\<rparr> (put_fd 2 0 \<lparr>f_open = 5, f_cloexec = False\<rparr> fs_boot);
       s2 = exec_close 3 (fd_clone_task 2 3 s) in open_of 3 0 s2 = Some 4 \<and> open_of 3 1 s2 = None \<and> open_of 2 1 s2 = Some 4"
proof -
  let ?s = "put_fd 2 1 \<lparr>f_open = 5, f_cloexec = True\<rparr> (put_fd 2 0 \<lparr>f_open = 5, f_cloexec = False\<rparr> fs_boot)"
  have "fs_wf fs_boot" using fd_inv_boot by (simp add: fd_inv_def)
  then have wf: "fs_wf ?s" by (intro wf_put_fd) (simp_all add: MAX_OPEN_def)
  have n: "(2 :: nat) < MAX_TASKS" "(3 :: nat) < MAX_TASKS" "(0 :: nat) < MAX_FDS" "(1 :: nat) < MAX_FDS"
    by (simp_all add: MAX_TASKS_def MAX_FDS_def)
  have f: "fd_at ?s 2 0 = \<lparr>f_open = 5, f_cloexec = False\<rparr>" "fd_at ?s 2 1 = \<lparr>f_open = 5, f_cloexec = True\<rparr>"
    using n by (simp_all add: put_fd_def fs_boot_def)
  then have "open_of 2 0 ?s = Some 4" "open_of 2 1 ?s = Some 4" unfolding open_of_def using n by simp_all
  with fork_exec_descriptors [OF wf n(1,2) _ n(3)] fork_exec_descriptors [OF wf n(1,2) _ n(4)] f show ?thesis
    by (simp add: Let_def)
qed

end
