(* ===== verification/Tty.thy ===== *)
theory Tty
  imports Process
begin

text \<open>
  The console line discipline of \<^verbatim>\<open>src/kernel-core/src/tty.rs\<close> over the process table it signals. The
  buffers \<^verbatim>\<open>line[..line_len]\<close> and \<^verbatim>\<open>pend[..pend_len]\<close> are lists: nothing behind their lengths is read. The
  bytes sent to the log are collected. The blocking \<open>read\<close> takes what happens at each poll: a byte
  arrives, or none does and the task sleeps while the rest of the system runs.
\<close>

section \<open>State\<close>

definition ICRNL :: u32 where [abi_defs]: "ICRNL = 0x100"
definition OPOST :: u32 where [abi_defs]: "OPOST = 1"
definition CS8 :: u32 where [abi_defs]: "CS8 = 0x30"
definition CREAD :: u32 where [abi_defs]: "CREAD = 0x80"
definition ISIG :: u32 where [abi_defs]: "ISIG = 1"
definition ICANON :: u32 where [abi_defs]: "ICANON = 2"
definition ECHO :: u32 where [abi_defs]: "ECHO = 8"
definition ECHOE :: u32 where [abi_defs]: "ECHOE = 0x10"
definition ECHONL :: u32 where [abi_defs]: "ECHONL = 0x40"
definition IXON :: u32 where [abi_defs]: "IXON = 0x400"
definition VINTR :: nat where [abi_defs]: "VINTR = 0"
definition VQUIT :: nat where [abi_defs]: "VQUIT = 1"
definition VERASE :: nat where [abi_defs]: "VERASE = 2"
definition VKILL :: nat where [abi_defs]: "VKILL = 3"
definition VEOF :: nat where [abi_defs]: "VEOF = 4"
definition PEND_MAX :: nat where "PEND_MAX = 512"
definition LINE_MAX :: nat where "LINE_MAX = 256"

record termios =
  c_iflag :: u32
  c_oflag :: u32
  c_cflag :: u32
  c_lflag :: u32
  c_cc :: "u8 list"

record tty = termios +
  t_line :: "u8 list"
  t_pend :: "u8 list"
  t_eof_once :: bool

definition tty_boot :: tty where
  "tty_boot = \<lparr>c_iflag = ICRNL, c_oflag = OPOST, c_cflag = CS8 OR CREAD, c_lflag = ISIG OR ICANON OR ECHO,
     c_cc = replicate 32 0, t_line = [], t_pend = [], t_eof_once = False\<rparr>"

text \<open>The discipline with what it acts on: the console output, the process table, the foreground group
  and the running task's slot.\<close>

record tty_world =
  w_tty :: tty
  w_out :: "u8 list"
  w_procs :: procs
  w_pgrp :: u64
  w_cur :: nat

definition tty_pgrp :: "tty_world \<Rightarrow> u64" where
  "tty_pgrp w = w_pgrp w"

definition set_tty_pgrp :: "u64 \<Rightarrow> tty_world \<Rightarrow> tty_world" where
  "set_tty_pgrp g w = w\<lparr>w_pgrp := g\<rparr>"

definition ensure_defaults :: "tty \<Rightarrow> tty" where
  "ensure_defaults s =
     (if c_cc s ! VINTR = 0 then
        s\<lparr>c_cc := (c_cc s)[VINTR := 3, VQUIT := 0x1C, VERASE := 0x7F, VKILL := 0x15, VEOF := 4, 7 := 0x13, 8 := 0x11, 10 := 0x1A]\<rparr>
      else s)"

definition termios_get :: "tty \<Rightarrow> termios \<times> tty" where
  "termios_get s = (let s = ensure_defaults s in (termios.truncate s, s))"

definition termios_set :: "termios \<Rightarrow> tty \<Rightarrow> u64 \<times> tty" where
  "termios_set t s =
     (SYS_OK, (ensure_defaults s)\<lparr>c_iflag := c_iflag t, c_oflag := c_oflag t, c_cflag := c_cflag t,
        c_lflag := c_lflag t, c_cc := c_cc t\<rparr>)"

definition tty_flush :: "tty \<Rightarrow> tty" where
  "tty_flush s = s\<lparr>t_pend := [], t_line := [], t_eof_once := False\<rparr>"

section \<open>Feeding a byte\<close>

definition echo :: "u8 list \<Rightarrow> tty_world \<Rightarrow> tty_world" where
  "echo bs w = (if c_lflag (w_tty w) AND ECHO \<noteq> 0 then w\<lparr>w_out := w_out w @ bs\<rparr> else w)"

definition push_pend :: "u8 \<Rightarrow> tty \<Rightarrow> tty" where
  "push_pend b s = (if length (t_pend s) < PEND_MAX then s\<lparr>t_pend := t_pend s @ [b]\<rparr> else s)"

definition complete_line :: "bool \<Rightarrow> tty \<Rightarrow> tty" where
  "complete_line newline s =
     (let s1 = fold push_pend (t_line s) s;
          s2 = (if newline then push_pend 10 s1 else s1) in s2\<lparr>t_line := []\<rparr>)"

definition upd_tty :: "(tty \<Rightarrow> tty) \<Rightarrow> tty_world \<Rightarrow> tty_world" where
  "upd_tty f w = w\<lparr>w_tty := f (w_tty w)\<rparr>"

definition w_signal_console :: "u32 \<Rightarrow> tty_world \<Rightarrow> tty_world" where
  "w_signal_console sig w = w\<lparr>w_procs := signal_console (w_cur w) (tty_pgrp w) sig (w_procs w)\<rparr>"

text \<open>One round of the \<^verbatim>\<open>while s.line_len > 0\<close> loop per character of the line.\<close>

definition kill_line :: "u32 \<Rightarrow> tty_world \<Rightarrow> tty_world" where
  "kill_line lflag w =
     upd_tty (\<lambda>s. s\<lparr>t_line := []\<rparr>)
       ((if lflag AND ECHOE \<noteq> 0 then (echo [8, 0x20, 8] ^^ length (t_line (w_tty w))) else (\<lambda>w. w)) w)"

definition feed :: "u8 \<Rightarrow> tty_world \<Rightarrow> tty_world" where
  "feed b0 w0 =
     (let w = upd_tty ensure_defaults w0; s = w_tty w; lflag = c_lflag s in
      if lflag AND ICANON = 0 then
        let out = (if c_iflag s AND ICRNL \<noteq> 0 \<and> b0 = 13 then 10 else b0) in
        echo [b0] (upd_tty (push_pend out) w)
      else if lflag AND ISIG \<noteq> 0 \<and> b0 = c_cc s ! VINTR then
        w_signal_console SIGINT (upd_tty (\<lambda>s. s\<lparr>t_line := [], t_pend := []\<rparr>) (echo (bytes_of ''^C'' @ [13, 10]) w))
      else if lflag AND ISIG \<noteq> 0 \<and> b0 = c_cc s ! VQUIT then
        w_signal_console SIGQUIT (upd_tty (\<lambda>s. s\<lparr>t_line := [], t_pend := []\<rparr>) (echo [94, 92, 13, 10] w))
      else if lflag AND ISIG \<noteq> 0 \<and> b0 = 0x1A then
        upd_tty (\<lambda>s. s\<lparr>t_line := []\<rparr>) (echo (bytes_of ''^Z'' @ [13, 10]) w)
      else if b0 = c_cc s ! VERASE \<or> b0 = 8 then
        if t_line s \<noteq> [] then
          let w1 = upd_tty (\<lambda>s. s\<lparr>t_line := butlast (t_line s)\<rparr>) w in
          if lflag AND ECHOE \<noteq> 0 then echo [8, 0x20, 8] w1 else w1
        else w
      else if b0 = c_cc s ! VKILL then kill_line lflag w
      else if b0 = c_cc s ! VEOF then
        if t_line s \<noteq> [] then upd_tty (complete_line False) w else upd_tty (\<lambda>s. s\<lparr>t_eof_once := True\<rparr>) w
      else
        let b = (if b0 = 13 \<and> c_iflag s AND ICRNL \<noteq> 0 then 10 else b0) in
        if b = 10 then
          upd_tty (complete_line True) (if lflag AND ECHONL = 0 then echo [13, 10] w else w)
        else if lflag AND IXON \<noteq> 0 \<and> (b = c_cc s ! 7 \<or> b = c_cc s ! 8) then w
        else if length (t_line s) < LINE_MAX then
          let w1 = upd_tty (\<lambda>s. s\<lparr>t_line := t_line s @ [b]\<rparr>) w in
          if b \<ge> 0x20 \<or> b = 9 then echo [b] w1 else w1
        else w)"

section \<open>Reading\<close>

text \<open>The locked part of \<open>read\<close>: pending bytes, or a pending end of file.\<close>

definition tty_take :: "nat \<Rightarrow> tty \<Rightarrow> (u8 list \<times> tty) option" where
  "tty_take n s =
     (if t_pend s \<noteq> [] then
        let k = min (length (t_pend s)) n in Some (take k (t_pend s), s\<lparr>t_pend := drop k (t_pend s)\<rparr>)
      else if t_eof_once s then Some ([], s\<lparr>t_eof_once := False\<rparr>)
      else None)"

datatype poll = Byte u8 | Idle "tty_world \<Rightarrow> tty_world"

fun tty_read_loop :: "nat \<Rightarrow> poll list \<Rightarrow> tty_world \<Rightarrow> (u8 list res \<times> tty_world) option" where
  "tty_read_loop n env w =
     (case tty_take n (w_tty w) of
        Some (out, s) \<Rightarrow> Some (Inr out, w\<lparr>w_tty := s\<rparr>)
      | None \<Rightarrow>
          (case env of
             [] \<Rightarrow> None
           | Byte b # env' \<Rightarrow> tty_read_loop n env' (feed b w)
           | Idle others # env' \<Rightarrow>
               if pending_handled (w_cur w) (w_procs w) then Some (Inl SYS_ERR_INTR, w)
               else tty_read_loop n env' (others w)))"

declare tty_read_loop.simps [simp del]

definition tty_read :: "nat \<Rightarrow> poll list \<Rightarrow> tty_world \<Rightarrow> (u8 list res \<times> tty_world) option" where
  "tty_read n env w =
     (let w = upd_tty ensure_defaults w in
      if n = 0 then Some (Inr [], w) else tty_read_loop n env w)"

definition tty_readable :: "tty \<Rightarrow> bool" where
  "tty_readable s \<longleftrightarrow> t_pend s \<noteq> [] \<or> t_eof_once s"

lemma kill_nth:
  assumes "length ps = MAX_TASKS" "\<not> NSIG \<le> sig" "sig \<noteq> 0" "j < MAX_TASKS"
  shows "snd (kill cur pid sig ps) ! j =
    (if kill_hit pid (pr_id (ps ! cur)) (pr_pgid (ps ! cur)) (ps ! j)
     then (ps ! j)\<lparr>pr_pending := pr_pending (ps ! j) OR sig_mask sig\<rparr> else ps ! j)"
proof -
  define v where "v = filter (\<lambda>s. kill_hit pid (pr_id (ps ! cur)) (pr_pgid (ps ! cur)) (ps ! s)) [0..<MAX_TASKS]"
  have mem: "j \<in> set v \<longleftrightarrow> kill_hit pid (pr_id (ps ! cur)) (pr_pgid (ps ! cur)) (ps ! j)" using assms(4) by (simp add: v_def)
  have v: "distinct v" "\<forall>x\<in>set v. x < length ps" using assms(1) by (simp_all add: v_def)
  have "snd (kill cur pid sig ps) = fold (\<lambda>s qs. queue_slot s sig qs) v ps"
    unfolding kill_def Let_def v_def [symmetric] using assms(2,3) by (cases "v = []") simp_all
  moreover have "sig < NSIG" using assms(2) by simp
  from fold_queue [OF assms(3) this v] have "fold (\<lambda>s qs. queue_slot s sig qs) v ps ! j =
      (if j \<in> set v then (ps ! j)\<lparr>pr_pending := pr_pending (ps ! j) OR sig_mask sig\<rparr> else ps ! j)" by blast
  ultimately show ?thesis unfolding mem by simp
qed

section \<open>Invariant and editing\<close>

definition tty_ok :: "tty \<Rightarrow> bool" where
  "tty_ok s \<longleftrightarrow> length (t_line s) \<le> LINE_MAX \<and> length (t_pend s) \<le> PEND_MAX \<and> length (c_cc s) = 32"

lemma fold_push_pend:
  "fold push_pend bs s = s\<lparr>t_pend := t_pend s @ take (PEND_MAX - length (t_pend s)) bs\<rparr>"
proof (induction bs arbitrary: s)
  case (Cons b bs)
  show ?case
  proof (cases "length (t_pend s) < PEND_MAX")
    case True
    then have "PEND_MAX - length (t_pend s) = Suc (PEND_MAX - Suc (length (t_pend s)))" by simp
    with True Cons show ?thesis by (simp add: push_pend_def [of b s])
  qed (simp add: push_pend_def [of b s] Cons)
qed simp

lemma tty_world_simps [simp]:
  "w_tty (echo bs w) = w_tty w" "w_procs (echo bs w) = w_procs w" "w_cur (echo bs w) = w_cur w" "w_pgrp (echo bs w) = w_pgrp w"
  "w_tty (upd_tty f w) = f (w_tty w)" "w_procs (upd_tty f w) = w_procs w" "w_cur (upd_tty f w) = w_cur w"
  "w_pgrp (upd_tty f w) = w_pgrp w" "w_tty (w_signal_console sig w) = w_tty w"
  by (simp_all add: echo_def upd_tty_def w_signal_console_def)

lemma echo_pow [simp]: "w_tty ((echo bs ^^ n) w) = w_tty w" "w_procs ((echo bs ^^ n) w) = w_procs w"
  by (induction n) simp_all

lemma kill_line_simps [simp]: "w_tty (kill_line l w) = (w_tty w)\<lparr>t_line := []\<rparr>" "w_procs (kill_line l w) = w_procs w"
  by (simp_all add: kill_line_def)

lemma tty_ok_defaults [keeps]: "tty_ok s \<Longrightarrow> tty_ok (ensure_defaults s)"
  by (simp add: tty_ok_def ensure_defaults_def)

lemma tty_ok_push [keeps]: "tty_ok s \<Longrightarrow> tty_ok (push_pend b s)"
  by (simp add: tty_ok_def push_pend_def)

lemma tty_ok_complete [keeps]: "tty_ok s \<Longrightarrow> tty_ok (complete_line nl s)"
  by (simp add: tty_ok_def complete_line_def fold_push_pend push_pend_def Let_def min_def) linarith

lemma tty_ok_fields [keeps]:
  "tty_ok s \<Longrightarrow> tty_ok (s\<lparr>t_line := []\<rparr>)" "tty_ok s \<Longrightarrow> tty_ok (s\<lparr>t_line := [], t_pend := []\<rparr>)"
  "tty_ok s \<Longrightarrow> tty_ok (s\<lparr>t_eof_once := b\<rparr>)" "tty_ok s \<Longrightarrow> tty_ok (s\<lparr>t_line := butlast (t_line s)\<rparr>)"
  "tty_ok s \<Longrightarrow> length (t_line s) < LINE_MAX \<Longrightarrow> tty_ok (s\<lparr>t_line := t_line s @ [c]\<rparr>)"
  by (auto simp: tty_ok_def)

lemma tty_ok_ifI:
  "(c \<Longrightarrow> tty_ok (w_tty a)) \<Longrightarrow> (\<not> c \<Longrightarrow> tty_ok (w_tty b)) \<Longrightarrow> tty_ok (w_tty (if c then a else b))"
  by simp

lemma feed_ok [keeps]:
  assumes "tty_ok (w_tty w)" shows "tty_ok (w_tty (feed b w))"
proof -
  note ok = tty_ok_defaults [OF assms]
  show ?thesis unfolding feed_def Let_def by (intro tty_ok_ifI) (simp_all only: tty_world_simps kill_line_simps ok keeps if_distrib [of w_tty] if_cancel)
qed

text \<open>A configured terminal in canonical mode, and the bytes it takes as text.\<close>

definition canonical :: "tty \<Rightarrow> bool" where
  "canonical s \<longleftrightarrow> c_cc s ! VINTR \<noteq> 0 \<and> c_lflag s AND ICANON \<noteq> 0"

definition is_erase :: "tty \<Rightarrow> u8 \<Rightarrow> bool" where
  "is_erase s b \<longleftrightarrow> b = c_cc s ! VERASE \<or> b = 8"

definition is_signal :: "tty \<Rightarrow> u8 \<Rightarrow> bool" where
  "is_signal s b \<longleftrightarrow> c_lflag s AND ISIG \<noteq> 0 \<and> (b = c_cc s ! VINTR \<or> b = c_cc s ! VQUIT \<or> b = 0x1A)"

definition is_flow :: "tty \<Rightarrow> u8 \<Rightarrow> bool" where
  "is_flow s b \<longleftrightarrow> c_lflag s AND IXON \<noteq> 0 \<and> (b = c_cc s ! 7 \<or> b = c_cc s ! 8)"

definition is_text :: "tty \<Rightarrow> u8 \<Rightarrow> bool" where
  "is_text s b \<longleftrightarrow> \<not> is_signal s b \<and> \<not> is_erase s b \<and> \<not> is_flow s b \<and> b \<noteq> c_cc s ! VKILL \<and> b \<noteq> c_cc s ! VEOF \<and> b \<noteq> 10 \<and> b \<noteq> 13"

text \<open>What a user sees on the line after typing: text is appended, an erase takes the last byte back, a
  kill clears the line.\<close>

definition edit_key :: "tty \<Rightarrow> u8 \<Rightarrow> u8 list \<Rightarrow> u8 list" where
  "edit_key s b l = (if is_erase s b then butlast l else if b = c_cc s ! VKILL then [] else l @ [b])"

definition edit_line :: "tty \<Rightarrow> u8 list \<Rightarrow> u8 list" where
  "edit_line s ks = fold (edit_key s) ks []"

definition is_key :: "tty \<Rightarrow> u8 \<Rightarrow> bool" where
  "is_key s b \<longleftrightarrow> is_text s b \<or> (is_erase s b \<or> b = c_cc s ! VKILL) \<and> \<not> is_signal s b"

lemma feed_canonical:
  assumes "canonical (w_tty w)" "\<not> is_signal (w_tty w) b"
  shows "feed b w =
     (let s = w_tty w in
      if is_erase s b then
        if t_line s \<noteq> [] then
          let w1 = upd_tty (\<lambda>s. s\<lparr>t_line := butlast (t_line s)\<rparr>) w in
          if c_lflag s AND ECHOE \<noteq> 0 then echo [8, 0x20, 8] w1 else w1
        else w
      else if b = c_cc s ! VKILL then kill_line (c_lflag s) w
      else if b = c_cc s ! VEOF then
        if t_line s \<noteq> [] then upd_tty (complete_line False) w else upd_tty (\<lambda>s. s\<lparr>t_eof_once := True\<rparr>) w
      else
        let b = (if b = 13 \<and> c_iflag s AND ICRNL \<noteq> 0 then 10 else b) in
        if b = 10 then
          upd_tty (complete_line True) (if c_lflag s AND ECHONL = 0 then echo [13, 10] w else w)
        else if is_flow s b then w
        else if length (t_line s) < LINE_MAX then
          let w1 = upd_tty (\<lambda>s. s\<lparr>t_line := t_line s @ [b]\<rparr>) w in
          if b \<ge> 0x20 \<or> b = 9 then echo [b] w1 else w1
        else w)"
proof -
  have d: "upd_tty ensure_defaults w = w" using assms(1) by (simp add: canonical_def ensure_defaults_def upd_tty_def)
  have c: "\<not> (c_lflag (w_tty w) AND ICANON = 0)" using assms(1) by (simp add: canonical_def)
  have s: "\<not> (c_lflag (w_tty w) AND ISIG \<noteq> 0 \<and> b = c_cc (w_tty w) ! VINTR)" "\<not> (c_lflag (w_tty w) AND ISIG \<noteq> 0 \<and> b = c_cc (w_tty w) ! VQUIT)"
    "\<not> (c_lflag (w_tty w) AND ISIG \<noteq> 0 \<and> b = 0x1A)" using assms(2) by (auto simp: is_signal_def)
  show ?thesis unfolding feed_def Let_def d if_not_P [OF c] if_not_P [OF s(1)] if_not_P [OF s(2)] if_not_P [OF s(3)] is_erase_def is_flow_def ..
qed

lemma tty_line_same: "t_line s = l \<Longrightarrow> s\<lparr>t_line := l\<rparr> = (s :: tty)"
  by (cases s) auto

lemma feed_key:
  assumes "canonical (w_tty w)" "is_key (w_tty w) b" "length (t_line (w_tty w)) < LINE_MAX"
  shows "w_tty (feed b w) = (w_tty w)\<lparr>t_line := edit_key (w_tty w) b (t_line (w_tty w))\<rparr>" "w_procs (feed b w) = w_procs w"
proof -
  have ns: "\<not> is_signal (w_tty w) b" using assms(2) by (auto simp: is_key_def is_text_def)
  consider (erase) "is_erase (w_tty w) b" | (kill) "\<not> is_erase (w_tty w) b" "b = c_cc (w_tty w) ! VKILL" | (plain) "is_text (w_tty w) b"
    using assms(2) by (auto simp: is_key_def)
  then have "w_tty (feed b w) = (w_tty w)\<lparr>t_line := edit_key (w_tty w) b (t_line (w_tty w))\<rparr> \<and> w_procs (feed b w) = w_procs w"
  proof cases
    case erase
    then show ?thesis unfolding feed_canonical [OF assms(1) ns] Let_def edit_key_def by (simp add: tty_line_same)
  next
    case kill
    then show ?thesis unfolding feed_canonical [OF assms(1) ns] Let_def edit_key_def by simp
  next
    case plain
    then have "\<not> is_erase (w_tty w) b" "\<not> is_flow (w_tty w) b" "b \<noteq> c_cc (w_tty w) ! VKILL" "b \<noteq> c_cc (w_tty w) ! VEOF" "b \<noteq> 10" "b \<noteq> 13"
      by (simp_all add: is_text_def)
    with assms(3) show ?thesis unfolding feed_canonical [OF assms(1) ns] Let_def edit_key_def by simp
  qed
  then show "w_tty (feed b w) = (w_tty w)\<lparr>t_line := edit_key (w_tty w) b (t_line (w_tty w))\<rparr>" "w_procs (feed b w) = w_procs w" by simp_all
qed

lemma feed_newline:
  assumes "canonical (w_tty w)" "\<not> is_signal (w_tty w) 10" "\<not> is_erase (w_tty w) 10" "10 \<noteq> c_cc (w_tty w) ! VKILL" "10 \<noteq> c_cc (w_tty w) ! VEOF"
  shows "w_tty (feed 10 w) = complete_line True (w_tty w)" "w_procs (feed 10 w) = w_procs w"
  unfolding feed_canonical [OF assms(1,2)] Let_def using assms(3-5) by simp_all

lemma length_edit: "length (fold (edit_key s) ks l) \<le> length l + length ks"
proof (induction ks arbitrary: l)
  case (Cons k ks)
  have "length (edit_key s k l) \<le> Suc (length l)" by (auto simp: edit_key_def)
  with Cons [of "edit_key s k l"] show ?case by simp
qed simp

lemma read_loop_keys:
  assumes "canonical (w_tty w)" "list_all (is_key (w_tty w)) ks" "length (t_line (w_tty w)) + length ks \<le> LINE_MAX"
    "t_pend (w_tty w) = []" "\<not> t_eof_once (w_tty w)"
  shows "\<exists>w'. tty_read_loop n (map Byte ks @ env) w = tty_read_loop n env w'
    \<and> w_tty w' = (w_tty w)\<lparr>t_line := fold (edit_key (w_tty w)) ks (t_line (w_tty w))\<rparr> \<and> w_procs w' = w_procs w"
  using assms
proof (induction ks arbitrary: w)
  case (Cons k ks)
  have lt: "length (t_line (w_tty w)) < LINE_MAX" using Cons.prems(3) by simp
  have key: "is_key (w_tty w) k" using Cons.prems(2) by simp
  note f = feed_key [OF Cons.prems(1) key lt]
  let ?l = "edit_key (w_tty w) k (t_line (w_tty w))"
  have same: "canonical (w_tty (feed k w)) = canonical (w_tty w)" "is_key (w_tty (feed k w)) = is_key (w_tty w)"
    "edit_key (w_tty (feed k w)) = edit_key (w_tty w)"
    unfolding f by (auto simp: canonical_def is_key_def is_text_def is_signal_def is_erase_def is_flow_def edit_key_def fun_eq_iff)
  have "length ?l \<le> Suc (length (t_line (w_tty w)))" by (auto simp: edit_key_def)
  then have "length (t_line (w_tty (feed k w))) + length ks \<le> LINE_MAX" using Cons.prems(3) unfolding f by simp
  from Cons.IH [of "feed k w"] this Cons.prems obtain w' where
    "tty_read_loop n (map Byte ks @ env) (feed k w) = tty_read_loop n env w'"
    "w_tty w' = (w_tty w)\<lparr>t_line := fold (edit_key (w_tty w)) ks ?l\<rparr>" "w_procs w' = w_procs w"
    unfolding same by (auto simp: f)
  moreover have "tty_read_loop n (map Byte (k # ks) @ env) w = tty_read_loop n (map Byte ks @ env) (feed k w)"
    using Cons.prems(4,5) by (simp add: tty_read_loop.simps [of n "Byte k # map Byte ks @ env"] tty_take_def)
  ultimately show ?case by auto
qed auto

section \<open>Properties\<close>

text \<open>C38. Canonical input round trip: in canonical mode, when nothing is pending and the user types any
  mixture of text, erase and kill characters that fits the line and then newline, \<open>read\<close> returns the
  edited line followed by the newline (as much of it as the buffer holds), the rest stays for the next
  \<open>read\<close>, and no process is signalled.\<close>

theorem tty_line_roundtrip:
  assumes "canonical (w_tty w)" and "list_all (is_key (w_tty w)) ks" and "length ks \<le> LINE_MAX" and "0 < n"
    and "t_line (w_tty w) = []" and "t_pend (w_tty w) = []" and "\<not> t_eof_once (w_tty w)"
    and "\<not> is_signal (w_tty w) 10" and "\<not> is_erase (w_tty w) 10" and "10 \<noteq> c_cc (w_tty w) ! VKILL" and "10 \<noteq> c_cc (w_tty w) ! VEOF"
  shows "\<exists>w'. tty_read n (map Byte ks @ Byte 10 # env) w = Some (Inr (take n (edit_line (w_tty w) ks @ [10])), w')
    \<and> t_pend (w_tty w') = drop n (edit_line (w_tty w) ks @ [10]) \<and> t_line (w_tty w') = [] \<and> w_procs w' = w_procs w"
proof -
  let ?s = "w_tty w" and ?l = "edit_line (w_tty w) ks"
  have d: "ensure_defaults ?s = ?s" using assms(1) by (simp add: canonical_def ensure_defaults_def)
  then have w: "upd_tty ensure_defaults w = w" by (simp add: upd_tty_def)
  have "length (t_line ?s) + length ks \<le> LINE_MAX" using assms(3,5) by simp
  from read_loop_keys [OF assms(1,2) this assms(6,7), of n "Byte 10 # env"] assms(5) obtain w1 where
    r: "tty_read_loop n (map Byte ks @ Byte 10 # env) w = tty_read_loop n (Byte 10 # env) w1"
    and w1: "w_tty w1 = ?s\<lparr>t_line := ?l\<rparr>" "w_procs w1 = w_procs w"
    unfolding edit_line_def by auto
  have nl: "w_tty (feed 10 w1) = complete_line True (w_tty w1)" "w_procs (feed 10 w1) = w_procs w1"
    by (rule feed_newline; use assms w1 in \<open>simp add: canonical_def is_signal_def is_erase_def\<close>)+
  have "length ?l \<le> LINE_MAX" using length_edit [of ?s ks "[]"] assms(3) unfolding edit_line_def by simp
  then have c: "complete_line True (w_tty w1) = ?s\<lparr>t_line := [], t_pend := ?l @ [10]\<rparr>"
    using assms(6) by (simp add: complete_line_def w1 fold_push_pend push_pend_def LINE_MAX_def PEND_MAX_def)
  have "tty_read_loop n (Byte 10 # env) w1 = tty_read_loop n env (feed 10 w1)"
    using assms(6,7) by (simp add: tty_read_loop.simps [of n "Byte 10 # env"] tty_take_def w1)
  also have "\<dots> = Some (Inr (take n (?l @ [10])), (feed 10 w1)\<lparr>w_tty := ?s\<lparr>t_line := [], t_pend := drop n (?l @ [10])\<rparr>\<rparr>)"
    by (simp add: tty_read_loop.simps [of n env] tty_take_def nl c Let_def min_def)
  finally show ?thesis using assms(4) r w nl(2) w1(2) by (simp add: tty_read_def)
qed
text \<open>The boot-time terminal once its control characters are set.\<close>

definition demo_tty :: tty_world where
  "demo_tty = \<lparr>w_tty = ensure_defaults tty_boot, w_out = [], w_procs = demo_procs, w_pgrp = 2, w_cur = 1\<rparr>"

lemma demo_tty_cc:
  "c_cc (w_tty demo_tty) ! VINTR = 3" "c_cc (w_tty demo_tty) ! VQUIT = 0x1C" "c_cc (w_tty demo_tty) ! VERASE = 0x7F"
  "c_cc (w_tty demo_tty) ! VKILL = 0x15" "c_cc (w_tty demo_tty) ! VEOF = 4" "c_lflag (w_tty demo_tty) = 11"
  "t_line (w_tty demo_tty) = []" "t_pend (w_tty demo_tty) = []" "t_eof_once (w_tty demo_tty) = False"
  by (simp_all add: demo_tty_def ensure_defaults_def tty_boot_def abi_defs)

theorem tty_line_roundtrip_witness:
  "\<exists>w'. tty_read 8 (map Byte [108, 120, 0x7F, 115] @ [Byte 10]) demo_tty = Some (Inr [108, 115, 10], w')"
proof -
  let ?ks = "[108, 120, 0x7F, 115] :: u8 list"
  have "list_all (is_key (w_tty demo_tty)) ?ks" "canonical (w_tty demo_tty)" "edit_line (w_tty demo_tty) ?ks = [108, 115]"
    "\<not> is_signal (w_tty demo_tty) 10" "\<not> is_erase (w_tty demo_tty) 10" "length ?ks \<le> LINE_MAX"
    by (simp_all add: is_key_def is_text_def is_signal_def is_erase_def is_flow_def canonical_def edit_line_def edit_key_def demo_tty_cc)
      (simp_all add: abi_defs LINE_MAX_def)
  with tty_line_roundtrip [of demo_tty ?ks 8 "[]"] show ?thesis by (auto simp: demo_tty_cc)
qed

text \<open>C39. The interrupt key: in canonical mode with ISIG, the interrupt character discards the line and all
  pending input, and SIGINT becomes pending for exactly the live members of the foreground group -
  except when that group is 1, where \<open>kill(-1)\<close> is the broadcast form: then every live process but the
  kernel and the running one gets it, whatever its group, and the running task does not.\<close>

theorem tty_interrupt:
  assumes "canonical (w_tty w)" and "c_lflag (w_tty w) AND ISIG \<noteq> 0" and "length (w_procs w) = MAX_TASKS"
    and "0 < sint (w_pgrp w)" and "j < MAX_TASKS"
  shows "let w' = feed (c_cc (w_tty w) ! VINTR) w; p = w_procs w ! j in
      t_line (w_tty w') = [] \<and> t_pend (w_tty w') = []
    \<and> w_procs w' ! j = (if pr_used p \<and> pr_alive p \<and>
          (if w_pgrp w = 1 then pr_id p \<noteq> 0 \<and> pr_id p \<noteq> pr_id (w_procs w ! w_cur w) else pr_pgid p = w_pgrp w)
        then p\<lparr>pr_pending := pr_pending p OR sig_mask SIGINT\<rparr> else p)"
proof -
  let ?b = "c_cc (w_tty w) ! VINTR" and ?g = "w_pgrp w" and ?ps = "w_procs w"
  have d: "upd_tty ensure_defaults w = w" using assms(1) by (simp add: canonical_def ensure_defaults_def upd_tty_def)
  have c: "\<not> (c_lflag (w_tty w) AND ICANON = 0)" using assms(1) by (simp add: canonical_def)
  have i: "c_lflag (w_tty w) AND ISIG \<noteq> 0 \<and> ?b = c_cc (w_tty w) ! VINTR" using assms(2) by simp
  have f: "feed ?b w = w_signal_console SIGINT (upd_tty (\<lambda>s. s\<lparr>t_line := [], t_pend := []\<rparr>) (echo (bytes_of ''^C'' @ [13, 10]) w))"
    unfolding feed_def Let_def d if_not_P [OF c] if_P [OF i] ..
  have nz: "?g \<noteq> 0" "- ?g \<noteq> 0" using assms(4) by auto
  have m1: "- ?g = - 1 \<longleftrightarrow> ?g = 1" by (metis minus_minus)
  have hit: "kill_hit (- ?g) a b p \<longleftrightarrow> pr_used p \<and> pr_alive p \<and> (if ?g = 1 then pr_id p \<noteq> 0 \<and> pr_id p \<noteq> a else pr_pgid p = ?g)" for a b p
    using nz sint_neg_pos [OF assms(4)] by (simp add: kill_hit_def m1)
  have s: "\<not> NSIG \<le> SIGINT" "SIGINT \<noteq> 0" by (simp_all add: abi_defs)
  have "w_procs (feed ?b w) = snd (kill (w_cur w) (- ?g) SIGINT ?ps)"
    unfolding f using nz by (simp add: w_signal_console_def signal_console_def tty_pgrp_def)
  moreover have "snd (kill (w_cur w) (- ?g) SIGINT ?ps) ! j = (if kill_hit (- ?g) (pr_id (?ps ! w_cur w)) (pr_pgid (?ps ! w_cur w)) (?ps ! j)
      then (?ps ! j)\<lparr>pr_pending := pr_pending (?ps ! j) OR sig_mask SIGINT\<rparr> else ?ps ! j)"
    using kill_nth [OF assms(3) s] assms(5) by blast
  ultimately show ?thesis unfolding Let_def hit by (simp add: f)
qed

text \<open>Setting the terminal attributes and reading them back gives the same attributes exactly when the
  interrupt character is not disabled: a zero there makes the next use overwrite every control
  character with the defaults.\<close>

theorem termios_set_get:
  assumes "length (c_cc t) = 32"
  shows "fst (termios_get (snd (termios_set t s))) = t \<longleftrightarrow> c_cc t ! VINTR \<noteq> 0"
proof -
  let ?s = "snd (termios_set t s)"
  have e: "c_iflag ?s = c_iflag t" "c_oflag ?s = c_oflag t" "c_cflag ?s = c_cflag t" "c_lflag ?s = c_lflag t" "c_cc ?s = c_cc t"
    by (simp_all add: termios_set_def)
  show ?thesis
  proof (cases "c_cc t ! VINTR = 0")
    case True
    then have "c_cc (fst (termios_get ?s)) ! VINTR = 3"
      using assms by (simp add: termios_get_def ensure_defaults_def e termios.truncate_def VINTR_def Let_def abi_defs)
    with True show ?thesis by auto
  next
    case False
    then show ?thesis by (simp add: termios_get_def ensure_defaults_def e termios.truncate_def Let_def)
  qed
qed

theorem termios_set_get_witness:
  "fst (termios_get (snd (termios_set \<lparr>c_iflag = 0, c_oflag = 1, c_cflag = 0, c_lflag = 2, c_cc = 3 # replicate 31 0\<rparr> tty_boot)))
     = \<lparr>c_iflag = 0, c_oflag = 1, c_cflag = 0, c_lflag = 2, c_cc = 3 # replicate 31 0\<rparr>"
  by (subst termios_set_get) (simp_all add: VINTR_def)

theorem tty_interrupt_witness:
  "bit (pr_pending (w_procs (feed 3 demo_tty) ! 2)) (unat SIGINT) \<and> w_procs (feed 3 demo_tty) ! 1 = demo_procs ! 1"
proof -
  have a: "canonical (w_tty demo_tty)" "c_lflag (w_tty demo_tty) AND ISIG \<noteq> 0"
    by (simp_all add: canonical_def demo_tty_cc ICANON_def ISIG_def)
  have p: "w_procs demo_tty = demo_procs" "w_pgrp demo_tty = 2" by (simp_all add: demo_tty_def)
  have q: "pr_used (demo_procs ! 2)" "pr_alive (demo_procs ! 2)" "pr_pgid (demo_procs ! 2) = 2" "pr_pgid (demo_procs ! 1) = 1"
    unfolding demo_procs_nth by (simp_all add: EMPTY_PROC_def)
  have n: "(1 :: nat) < MAX_TASKS" "(2 :: nat) < MAX_TASKS" "length (w_procs demo_tty) = MAX_TASKS" "0 < sint (w_pgrp demo_tty)"
    by (simp_all add: MAX_TASKS_def demo_procs_nth p)
  have b: "bit (sig_mask SIGINT) (unat SIGINT)" by (subst bit_sig_mask) (simp_all add: abi_defs)
  from tty_interrupt [OF a n(3,4) n(1)] tty_interrupt [OF a n(3,4) n(2)] show ?thesis
    unfolding Let_def p demo_tty_cc using q b by (simp add: bit_simps)
qed

end
