(* ===== verification/File_Io.thy ===== *)
theory File_Io
  imports Fd Tty
begin

text \<open>
  Reading, writing and listing through descriptors: \<^verbatim>\<open>src/kernel-core/src/vfs/io.rs\<close> and \<^verbatim>\<open>dir.rs\<close> in the
  default configuration. They compose the descriptor layer with the tmpfs, the pipes and the console.
  A blocking call takes what happens while it sleeps, once for a pipe and once for the console, and
  gives \<open>None\<close> when it does not return.
\<close>

section \<open>Reading and writing\<close>

record io_world =
  io_fs :: fs
  io_tty :: tty_world

definition upd_fs :: "(fs \<Rightarrow> fs) \<Rightarrow> io_world \<Rightarrow> io_world" where
  "upd_fs f w = w\<lparr>io_fs := f (io_fs w)\<rparr>"

definition rom_read :: "u8 list \<Rightarrow> u64 \<Rightarrow> nat \<Rightarrow> u8 list" where
  "rom_read img off n =
     (let len = of_nat (length img) :: u64 in
      if off \<ge> len then []
      else take (unat (min (len - off) (of_nat n))) (drop (unat off) img))"

type_synonym pipe_env = "(bool \<times> (pipes \<Rightarrow> pipes)) list"

definition io_read :: "nat \<Rightarrow> nat \<Rightarrow> nat \<Rightarrow> pipe_env \<Rightarrow> poll list \<Rightarrow> io_world \<Rightarrow> (u8 list res \<times> io_world) option" where
  "io_read slot i n penv tenv w =
     (let s = io_fs w in
      case open_of slot i s of
        None \<Rightarrow> Some (Inl SYS_ERR_BADF, w)
      | Some k \<Rightarrow>
          let ob = open_at s k in
          if o_pipe ob \<noteq> 0 then
            (case pipe_read (unat (o_pipe ob - 1)) n penv (fs_pipes s) of
               None \<Rightarrow> None
             | Some (r, ps) \<Rightarrow> Some (r, upd_fs (\<lambda>s. s\<lparr>fs_pipes := ps\<rparr>) w))
          else
            (case o_rom ob of
               Some img \<Rightarrow>
                 let out = rom_read img (o_offset ob) n in
                 Some (Inr out, upd_fs (set_offset k (o_offset ob + of_nat (length out))) w)
             | None \<Rightarrow>
                 if tmpfs_kind (fs_tmpfs s) (o_node ob) = Console then
                   (case tty_read n tenv (io_tty w) of
                      None \<Rightarrow> None | Some (r, t) \<Rightarrow> Some (r, w\<lparr>io_tty := t\<rparr>))
                 else
                   (case tmpfs_read (o_node ob) (o_offset ob) n (fs_tmpfs s) of
                      None \<Rightarrow> None
                    | Some (Inl e) \<Rightarrow> Some (Inl e, w)
                    | Some (Inr out) \<Rightarrow> Some (Inr out, upd_fs (set_offset k (o_offset ob + of_nat (length out))) w))))"

definition write_mem_file :: "u8 list \<Rightarrow> u8 list \<Rightarrow> u8 list \<Rightarrow> tmpfs \<Rightarrow> (bool \<times> tmpfs) option" where
  "write_mem_file dir name data t =
     (let put = (\<lambda>i t. case tmpfs_write i 0 data t of None \<Rightarrow> None | Some (Inl e, t') \<Rightarrow> Some (False, t') | Some (Inr n, t') \<Rightarrow> Some (True, t')) in
      case tmpfs_lookup ROOT dir t of
        (Inl e, t1) \<Rightarrow> Some (False, t1)
      | (Inr d, t1) \<Rightarrow>
          (case tmpfs_lookup d name t1 of
             (Inr i, t2) \<Rightarrow> put i (tmpfs_truncate i t2)
           | (Inl e, t2) \<Rightarrow>
               (case tmpfs_create d name File t2 of
                  (Inr i, t3) \<Rightarrow> put i t3
                | (Inl e, t3) \<Rightarrow> Some (False, t3))))"

definition io_write :: "nat \<Rightarrow> nat \<Rightarrow> u8 list \<Rightarrow> pipe_env \<Rightarrow> io_world \<Rightarrow> (nat res \<times> io_world) option" where
  "io_write slot i data penv w =
     (let s = io_fs w in
      case open_of slot i s of
        None \<Rightarrow> Some (Inl SYS_ERR_BADF, w)
      | Some k \<Rightarrow>
          let ob = open_at s k in
          if o_pipe ob \<noteq> 0 then
            (case pipe_write (unat (o_pipe ob - 1)) data penv (fs_pipes s) of
               None \<Rightarrow> None
             | Some (r, ps) \<Rightarrow> Some (r, upd_fs (\<lambda>s. s\<lparr>fs_pipes := ps\<rparr>) w))
          else if o_rom ob \<noteq> None then Some (Inl SYS_ERR_ACCES, w)
          else
            (case tmpfs_kind (fs_tmpfs s) (o_node ob) of
               Console \<Rightarrow> Some (Inr (length data), w\<lparr>io_tty := (io_tty w)\<lparr>w_out := w_out (io_tty w) @ data\<rparr>\<rparr>)
             | Null \<Rightarrow> Some (Inr (length data), w)
             | Dir \<Rightarrow> Some (Inl SYS_ERR_ISDIR, w)
             | File \<Rightarrow>
                 let off = (if o_flags ob AND ucast O_APPEND \<noteq> 0 then tmpfs_size (o_node ob) (fs_tmpfs s) else o_offset ob) in
                 (case tmpfs_write (o_node ob) off data (fs_tmpfs s) of
                    None \<Rightarrow> None
                  | Some (Inl e, t) \<Rightarrow> Some (Inl e, w)
                  | Some (Inr n, t) \<Rightarrow>
                      Some (Inr n, upd_fs (\<lambda>s. set_offset k (off + of_nat n) (s\<lparr>fs_tmpfs := t\<rparr>)) w))))"

section \<open>Directories, stat and the working directory\<close>

record dirent =
  d_ino :: u64
  d_type :: u32
  d_reclen :: u32
  d_name :: "u8 list"

definition readdir :: "nat \<Rightarrow> nat \<Rightarrow> fs \<Rightarrow> dirent option res \<times> fs" where
  "readdir slot i s =
     (case open_of slot i s of
        None \<Rightarrow> (Inl SYS_ERR_BADF, s)
      | Some k \<Rightarrow>
          let ob = open_at s k; t = fs_tmpfs s in
          if o_pipe ob \<noteq> 0 \<or> o_rom ob \<noteq> None then (Inl SYS_ERR_NOTDIR, s)
          else if tmpfs_kind t (o_node ob) \<noteq> Dir then (Inl SYS_ERR_NOTDIR, s)
          else
            let index = unat (o_offset ob) in
            (case dir_entry (o_node ob) index t of
               None \<Rightarrow> (Inr None, s)
             | Some (child, name_len) \<Rightarrow>
                 let nm = copy_name child 56 t in
                 (Inr (Some \<lparr>d_ino = of_nat child + 1, d_type = dirent_type child t, d_reclen = 72,
                    d_name = take 56 nm @ replicate (56 - length (take 56 nm)) 0\<rparr>),
                  set_offset k (of_nat index + 1) s)))"

definition dir_fstat :: "u64 \<Rightarrow> nat \<Rightarrow> nat \<Rightarrow> fs \<Rightarrow> stat res" where
  "dir_fstat now slot i s =
     (case open_of slot i s of
        None \<Rightarrow> Inl SYS_ERR_BADF
      | Some k \<Rightarrow>
          let ob = open_at s k; t = fs_tmpfs s in
          if o_pipe ob \<noteq> 0 then
            Inr ((tmpfs_stat now ROOT t)\<lparr>st_ino := 1000 + ucast (o_pipe ob - 1), st_mode := S_IFIFO OR 0x180,
                   st_size := pipe_unread (unat (o_pipe ob - 1)) (fs_pipes s)\<rparr>)
          else (case o_rom ob of
                  Some img \<Rightarrow> Inr (rom_open_stat now (of_nat (length img)) t)
                | None \<Rightarrow> Inr (tmpfs_stat now (o_node ob) t)))"

definition dir_chdir :: "nat \<Rightarrow> u8 list \<Rightarrow> fs \<Rightarrow> unit res \<times> fs" where
  "dir_chdir slot path s =
     (case tmpfs_lookup (cwd_get slot s) path (fs_tmpfs s) of
        (Inl e, t) \<Rightarrow> (Inl e, s\<lparr>fs_tmpfs := t\<rparr>)
      | (Inr n, t) \<Rightarrow>
          if tmpfs_kind t n \<noteq> Dir then (Inl SYS_ERR_NOTDIR, s\<lparr>fs_tmpfs := t\<rparr>)
          else (Inr (), cwd_set slot n (s\<lparr>fs_tmpfs := t\<rparr>)))"

text \<open>The nodes from the working directory up, at most eight of them.\<close>

fun cwd_names :: "nat \<Rightarrow> nat \<Rightarrow> tmpfs \<Rightarrow> nat list" where
  "cwd_names 0 cur t = []"
| "cwd_names (Suc room) cur t = (if cur = ROOT then [] else cur # cwd_names room (tmpfs_parent t cur) t)"

text \<open>\<^verbatim>\<open>out[len] = b; len += 1\<close> with the bound check before it; \<open>None\<close> is the EFAULT.\<close>

definition put_out :: "nat \<Rightarrow> u8 \<Rightarrow> u8 list option \<Rightarrow> u8 list option" where
  "put_out cap b out = (case out of None \<Rightarrow> None | Some bs \<Rightarrow> if length bs \<ge> cap then None else Some (bs @ [b]))"

definition dir_getcwd :: "nat \<Rightarrow> nat \<Rightarrow> fs \<Rightarrow> u8 list res" where
  "dir_getcwd slot cap s =
     (let t = fs_tmpfs s; names = cwd_names 8 (cwd_get slot s) t in
      if names = [] then (if cap = 0 then Inl SYS_ERR_FAULT else Inr [SLASH])
      else case fold (\<lambda>i out. fold (put_out cap) (copy_name i 32 t) (put_out cap SLASH out)) (rev names) (Some []) of
        None \<Rightarrow> Inl SYS_ERR_FAULT
      | Some bs \<Rightarrow> Inr bs)"

section \<open>The path of the working directory\<close>

lemma put_out_simps [simp]:
  "put_out cap b None = None" "put_out cap b (Some bs) = (if length bs \<ge> cap then None else Some (bs @ [b]))"
  by (simp_all add: put_out_def)

lemma fold_put_out_None [simp]: "fold (put_out cap) bs None = None"
  by (induction bs) simp_all

lemma fold_put_out:
  "length out \<le> cap \<Longrightarrow> fold (put_out cap) bs (Some out) = (if length out + length bs \<le> cap then Some (out @ bs) else None)"
  by (induction bs arbitrary: out) simp_all

definition path_of :: "nat list \<Rightarrow> tmpfs \<Rightarrow> u8 list" where
  "path_of ids t = concat (map (\<lambda>i. SLASH # node_name (node_at t i)) ids)"

lemma fold_put_path:
  assumes "\<And>i. i \<in> set ids \<Longrightarrow> copy_name i 32 t = node_name (node_at t i)" "length out \<le> cap"
  shows "fold (\<lambda>i out. fold (put_out cap) (copy_name i 32 t) (put_out cap SLASH out)) ids (Some out) =
    (if length out + length (path_of ids t) \<le> cap then Some (out @ path_of ids t) else None)"
  using assms
proof (induction ids arbitrary: out)
  case (Cons i ids)
  let ?f = "\<lambda>i out. fold (put_out cap) (copy_name i 32 t) (put_out cap SLASH out)"
  have none: "fold ?f ids None = None" by (induction ids) simp_all
  have "?f i (Some out) = fold (put_out cap) (SLASH # node_name (node_at t i)) (Some out)" using Cons.prems(1) [of i] by simp
  then have f: "?f i (Some out) = (if length out + Suc (length (node_name (node_at t i))) \<le> cap then Some (out @ SLASH # node_name (node_at t i)) else None)"
    unfolding fold_put_out [OF Cons.prems(2)] by simp
  show ?case
  proof (cases "length out + Suc (length (node_name (node_at t i))) \<le> cap")
    case True
    with f Cons.IH [of "out @ SLASH # node_name (node_at t i)"] Cons.prems(1) show ?thesis by (simp add: path_of_def)
  next
    case False
    with f none show ?thesis by (simp add: path_of_def)
  qed
qed (simp add: path_of_def)

lemma lookup_component:
  assumes "valid_name nm" "rest = [] \<or> hd rest = SLASH" "tf_init t" "n_kind (node_at t d) = Dir" "find_child t d nm = Some c"
  shows "lookup_from t d (SLASH # nm @ rest) = lookup_from t c rest"
proof -
  have n: "nm \<noteq> []" "\<forall>x\<in>set nm. x \<noteq> SLASH" using assms(1) by (auto simp: valid_name_def)
  then have h: "hd nm \<noteq> SLASH" by simp
  have d: "dropWhile (\<lambda>b. b = SLASH) (SLASH # nm @ rest) = nm @ rest" using n(1) h by (cases nm) simp_all
  have w: "takeWhile (\<lambda>b. b \<noteq> SLASH) (nm @ rest) = nm" "dropWhile (\<lambda>b. b \<noteq> SLASH) (nm @ rest) = rest"
    using n(2) assms(2) by (cases rest; simp)+
  have "\<not> path_end (SLASH # nm @ rest)" "path_comp (SLASH # nm @ rest) = nm" "path_rest (SLASH # nm @ rest) = rest"
    unfolding path_end_def path_comp_def path_rest_def d w using n(1) by simp_all
  then show ?thesis using assms lookup_steps(4) [of "SLASH # nm @ rest" t d] by (simp add: valid_name_def)
qed

lemma root_parent: "tmpfs_inv t \<Longrightarrow> tmpfs_parent t ROOT = ROOT"
  using tmpfs_invD(4) [of t] by (auto simp: fixed_ok_def tmpfs_parent_def ROOT_def fixed_nodes_def fixed_node_def)

lemma cwd_names_live:
  assumes "tmpfs_inv t" "node_live t cur"
  shows "i \<in> set (cwd_names room cur t) \<Longrightarrow> node_live t i \<and> i \<noteq> ROOT"
  using assms(2)
proof (induction room arbitrary: cur)
  case (Suc room)
  have "node_live t (tmpfs_parent t cur)"
    using tmpfs_invD(5) [OF assms(1)] Suc.prems(2) by (auto simp: node_ok_def node_live_def tmpfs_parent_def)
  with Suc show ?case by (auto split: if_splits)
qed simp

lemma lookup_cwd_names:
  assumes inv: "tmpfs_inv t" and nv: "names_valid t" and l: "node_live t cur" and r: "rest = [] \<or> hd rest = SLASH"
  shows "lookup_from t ((tmpfs_parent t ^^ room) cur) (path_of (rev (cwd_names room cur t)) t @ rest) = lookup_from t cur rest"
  using l r
proof (induction room arbitrary: cur rest)
  case (Suc room)
  show ?case
  proof (cases "cur = ROOT")
    case True
    have "(tmpfs_parent t ^^ k) ROOT = ROOT" for k by (induction k) (simp_all add: root_parent [OF inv])
    from this [of "Suc room"] True show ?thesis by (simp add: path_of_def)
  next
    case False
    let ?p = "tmpfs_parent t cur" and ?nm = "node_name (node_at t cur)"
    have p: "node_live t ?p" "n_kind (node_at t ?p) = Dir"
      using tmpfs_invD(5) [OF inv] Suc.prems(1) by (auto simp: node_ok_def node_live_def tmpfs_parent_def)
    have v: "valid_name ?nm" using nv Suc.prems(1) False by (auto simp: names_valid_def)
    have fc: "find_child t ?p ?nm = Some cur"
      using find_child_unique [OF tmpfs_invD(6) [OF inv]] Suc.prems(1) by (simp add: tmpfs_parent_def)
    have "path_of (rev (cwd_names (Suc room) cur t)) t @ rest = path_of (rev (cwd_names room ?p t)) t @ (SLASH # ?nm @ rest)"
      using False by (simp add: path_of_def)
    moreover have "(tmpfs_parent t ^^ Suc room) cur = (tmpfs_parent t ^^ room) ?p" by (simp add: funpow_swap1)
    ultimately have "lookup_from t ((tmpfs_parent t ^^ Suc room) cur) (path_of (rev (cwd_names (Suc room) cur t)) t @ rest)
        = lookup_from t ?p (SLASH # ?nm @ rest)" using Suc.IH [OF p(1), of "SLASH # ?nm @ rest"] by simp
    also have "\<dots> = lookup_from t cur rest" by (rule lookup_component [OF v Suc.prems(2) tmpfs_invD(1) [OF inv] p(2) fc])
    finally show ?thesis .
  qed
qed (simp add: path_of_def)

text \<open>C37. \<open>getcwd\<close> and \<open>lookup\<close>: in a reachable file system the path returned for a live working directory
  starts with a slash and resolves back to that directory - from its eighth ancestor. That ancestor is
  the root exactly when the directory is at most eight levels deep; deeper, the path has lost its first
  components. EFAULT is returned exactly when the buffer is too small for the path.\<close>

theorem getcwd_resolves:
  assumes "tmpfs_reach (fs_tmpfs s)" and "node_live (fs_tmpfs s) (cwd_get slot s)"
  shows "\<exists>path. path \<noteq> [] \<and> hd path = SLASH
    \<and> lookup_from (fs_tmpfs s) ((tmpfs_parent (fs_tmpfs s) ^^ 8) (cwd_get slot s)) path = Inr (cwd_get slot s)
    \<and> dir_getcwd slot cap s = (if length path \<le> cap then Inr path else Inl SYS_ERR_FAULT)"
proof -
  define t where "t = fs_tmpfs s"
  define cur where "cur = cwd_get slot s"
  have inv: "tmpfs_inv t" and nv: "names_valid t" and l: "node_live t cur"
    using tmpfs_reach_names [OF assms(1)] assms(2) by (simp_all add: t_def cur_def)
  define ids where "ids = cwd_names 8 cur t"
  have look: "lookup_from t ((tmpfs_parent t ^^ 8) cur) (path_of (rev ids) t) = Inr cur"
    using lookup_cwd_names [OF inv nv l, of "[]" 8] lookup_steps(1) [of "[]"] by (simp add: ids_def path_end_def)
  show ?thesis
  proof (cases "ids = []")
    case True
    then have "cur = ROOT" by (simp add: ids_def numeral_eq_Suc split: if_splits)
    moreover have "(tmpfs_parent t ^^ k) ROOT = ROOT" for k by (induction k) (simp_all add: root_parent [OF inv])
    moreover have "path_end [SLASH]" by (simp add: path_end_def)
    ultimately show ?thesis using True lookup_steps(1) [of "[SLASH]"] unfolding t_def [symmetric] cur_def [symmetric]
      by (intro exI [of _ "[SLASH]"]) (auto simp: dir_getcwd_def Let_def ids_def t_def cur_def)
  next
    case False
    have "copy_name i 32 t = node_name (node_at t i)" if "i \<in> set (rev ids)" for i
    proof -
      have "node_live t i" using cwd_names_live [OF inv l, of i 8] that by (simp add: ids_def)
      then have "unat (n_name_len (node_at t i)) \<le> NAME_MAX" using tmpfs_invD(5) [OF inv] by (auto simp: node_ok_def node_live_def)
      then show ?thesis by (simp add: copy_name_def node_name_def NAME_MAX_def)
    qed
    then have cn: "\<And>i. i \<in> set (rev ids) \<Longrightarrow> copy_name i 32 t = node_name (node_at t i)" .
    have "dir_getcwd slot cap s = (if length (path_of (rev ids) t) \<le> cap then Inr (path_of (rev ids) t) else Inl SYS_ERR_FAULT)"
      using False fold_put_path [of "rev ids" t "[]" cap, OF cn] unfolding dir_getcwd_def Let_def t_def [symmetric] cur_def [symmetric] ids_def [symmetric]
      by simp
    moreover have "path_of (rev ids) t \<noteq> [] \<and> hd (path_of (rev ids) t) = SLASH"
      using False by (cases "rev ids") (simp_all add: path_of_def)
    ultimately show ?thesis using look by (auto simp: t_def cur_def)
  qed
qed

theorem getcwd_resolves_witness:
  "\<exists>path. dir_getcwd 0 64 (fs_boot\<lparr>fs_tmpfs := tmpfs_fresh, fs_cwd := replicate MAX_TASKS 4\<rparr>) = (if length path \<le> 64 then Inr path else Inl SYS_ERR_FAULT)
     \<and> lookup_from tmpfs_fresh ROOT path = Inr 4"
proof -
  let ?s = "fs_boot\<lparr>fs_tmpfs := tmpfs_fresh, fs_cwd := replicate MAX_TASKS 4\<rparr>"
  have c: "cwd_get 0 ?s = 4" "fs_tmpfs ?s = tmpfs_fresh" by (simp_all add: cwd_get_def MAX_TASKS_def)
  have par: "tmpfs_parent tmpfs_fresh 4 = ROOT" "tmpfs_parent tmpfs_fresh ROOT = ROOT"
    using root_parent [OF tmpfs_inv_fresh]
    by (simp_all add: tmpfs_parent_def fresh_node MAX_NODES_def fixed_nodes_def fixed_node_def ROOT_def)
  have "(tmpfs_parent tmpfs_fresh ^^ Suc k) 4 = ROOT" for k by (induction k) (simp_all add: par)
  from this [of 7] have a: "(tmpfs_parent tmpfs_fresh ^^ 8) 4 = ROOT" by simp
  have "tmpfs_reach tmpfs_fresh" "node_live tmpfs_fresh 4" using tmpfs_reach.fresh by (simp_all add: tmpfs_fresh_def [symmetric] fresh_live)
  from getcwd_resolves [of ?s 0 64, unfolded c a, OF this] show ?thesis by blast
qed

end
