(* ===== verification/Posix.thy ===== *)
theory Posix
  imports File_Io User_Vm
begin

text \<open>
  The POSIX system-call layer: \<^verbatim>\<open>src/kernel-core/src/vfs/posix.rs\<close> and \<^verbatim>\<open>posix_path.rs\<close>. Each call reads its
  arguments from user memory, runs the descriptor or path operation for the current task and copies
  the result out. Descriptor arguments are truncated to 16 bits as in the code. Results are the
  64-bit word placed in the result register; a blocking call gives \<open>None\<close> when it does not return.
\<close>

section \<open>User strings and C structs\<close>

definition PATH_MAX :: nat where "PATH_MAX = 256"
definition CHUNK :: nat where "CHUNK = 256"

record posix_world =
  px_io :: io_world
  px_mem :: umem

abbreviation px_fs :: "posix_world \<Rightarrow> fs" where
  "px_fs w \<equiv> io_fs (px_io w)"

abbreviation px_slot :: "posix_world \<Rightarrow> nat" where
  "px_slot w \<equiv> w_cur (io_tty (px_io w))"

definition upd_io :: "(io_world \<Rightarrow> io_world) \<Rightarrow> posix_world \<Rightarrow> posix_world" where
  "upd_io f w = w\<lparr>px_io := f (px_io w)\<rparr>"

definition upd_px_fs :: "(fs \<Rightarrow> fs) \<Rightarrow> posix_world \<Rightarrow> posix_world" where
  "upd_px_fs f = upd_io (upd_fs f)"

definition fd_arg :: "u64 \<Rightarrow> nat" where
  "fd_arg x = unat (ucast x :: u16)"

text \<open>The loop of \<open>cpath\<close>: \<open>n\<close> bytes may still be read.\<close>

fun cpath_loop :: "nat \<Rightarrow> u64 \<Rightarrow> u8 list \<Rightarrow> umem \<Rightarrow> u8 list res" where
  "cpath_loop 0 ptr acc m = Inl SYS_ERR_NAMETOOLONG"
| "cpath_loop (Suc n) ptr acc m =
     (case copy_in 1 ptr m of
        None \<Rightarrow> Inl SYS_ERR_FAULT
      | Some bs \<Rightarrow> if bs ! 0 = 0 then Inr acc else cpath_loop n (ptr + 1) (acc @ [bs ! 0]) m)"

definition cpath :: "u64 \<Rightarrow> umem \<Rightarrow> u8 list res" where
  "cpath ptr m = cpath_loop PATH_MAX ptr [] m"

definition stat_bytes :: "stat \<Rightarrow> u8 list" where
  "stat_bytes st = concat (map to_le64 [st_dev st, st_ino st, st_size st, st_blocks st, st_blksize st])
     @ concat (map to_le32 [st_mode st, st_nlink st, st_uid st, st_gid st])
     @ concat (map to_le64 [st_atime_ns st, st_mtime_ns st, st_ctime_ns st])"

definition dirent_bytes :: "dirent \<Rightarrow> u8 list" where
  "dirent_bytes d = to_le64 (d_ino d) @ to_le32 (d_type d) @ to_le32 (d_reclen d) @ d_name d"

definition termios_bytes :: "termios \<Rightarrow> u8 list" where
  "termios_bytes t = concat (map to_le32 [c_iflag t, c_oflag t, c_cflag t, c_lflag t]) @ c_cc t"

definition le32_at :: "u8 list \<Rightarrow> nat \<Rightarrow> u32" where
  "le32_at bs i = le32 (bs ! i) (bs ! (i + 1)) (bs ! (i + 2)) (bs ! (i + 3))"

definition termios_of_bytes :: "u8 list \<Rightarrow> termios" where
  "termios_of_bytes bs = \<lparr>c_iflag = le32_at bs 0, c_oflag = le32_at bs 4, c_cflag = le32_at bs 8, c_lflag = le32_at bs 12,
     c_cc = take 32 (drop 16 bs)\<rparr>"

text \<open>Copy a payload out: OK or EFAULT.\<close>

definition put_bytes :: "u64 \<Rightarrow> u8 list \<Rightarrow> posix_world \<Rightarrow> u64 \<times> posix_world" where
  "put_bytes ptr bs w =
     (case copy_out ptr bs (px_mem w) of
        Some m \<Rightarrow> (SYS_OK, w\<lparr>px_mem := m\<rparr>)
      | None \<Rightarrow> (SYS_ERR_FAULT, w))"

section \<open>Descriptor calls\<close>

definition run_fs :: "('a \<Rightarrow> u64) \<Rightarrow> (nat \<Rightarrow> fs \<Rightarrow> 'a res \<times> fs) \<Rightarrow> posix_world \<Rightarrow> u64 \<times> posix_world" where
  "run_fs ok f w = (case f (px_slot w) (px_fs w) of (r, s) \<Rightarrow>
     (case r of Inl e \<Rightarrow> e | Inr v \<Rightarrow> ok v, upd_px_fs (\<lambda>_. s) w))"

definition sys_open :: "bins \<Rightarrow> u64 \<Rightarrow> u64 \<Rightarrow> posix_world \<Rightarrow> u64 \<times> posix_world" where
  "sys_open bins path flags w =
     (case cpath path (px_mem w) of
        Inl e \<Rightarrow> (e, w)
      | Inr p \<Rightarrow> run_fs of_nat (\<lambda>slot. fd_open bins slot p (ucast flags)) w)"

definition sys_close :: "u64 \<Rightarrow> posix_world \<Rightarrow> u64 \<times> posix_world" where
  "sys_close i w = run_fs (\<lambda>_. SYS_OK) (\<lambda>slot. fd_close slot (fd_arg i)) w"

text \<open>The chunk loops of \<open>read\<close> and \<open>write\<close>: \<open>envs\<close> has one environment per inner call.\<close>

function sys_read_loop :: "u64 \<Rightarrow> u64 \<Rightarrow> u64 \<Rightarrow> nat \<Rightarrow> (pipe_env \<times> poll list) list \<Rightarrow> posix_world \<Rightarrow> (u64 \<times> posix_world) option" where
  "sys_read_loop i buf len done envs w =
     (if done < unat len then
        let want = min (unat len - done) CHUNK; env = (case envs of [] \<Rightarrow> ([], []) | e # _ \<Rightarrow> e) in
        (case io_read (px_slot w) (fd_arg i) want (fst env) (snd env) (px_io w) of
           None \<Rightarrow> None
         | Some (Inl e, io) \<Rightarrow> Some (if done > 0 then of_nat done else e, w\<lparr>px_io := io\<rparr>)
         | Some (Inr bs, io) \<Rightarrow>
             if bs = [] then Some (of_nat done, w\<lparr>px_io := io\<rparr>)
             else (case copy_out (buf + of_nat done) bs (px_mem w) of
                     None \<Rightarrow> Some (SYS_ERR_FAULT, w\<lparr>px_io := io\<rparr>)
                   | Some m \<Rightarrow>
                       let w' = w\<lparr>px_io := io, px_mem := m\<rparr> in
                       if length bs < want then Some (of_nat (done + length bs), w')
                       else sys_read_loop i buf len (done + length bs) (tl envs) w'))
      else Some (of_nat done, w))"
  by pat_completeness auto
termination
  by (relation "measure (\<lambda>(i, buf, len, done, envs, w). unat len - done)") (auto simp: neq_Nil_conv)

declare sys_read_loop.simps [simp del]

definition sys_read :: "u64 \<Rightarrow> u64 \<Rightarrow> u64 \<Rightarrow> (pipe_env \<times> poll list) list \<Rightarrow> posix_world \<Rightarrow> (u64 \<times> posix_world) option" where
  "sys_read i buf len envs w = sys_read_loop i buf len 0 envs w"

text \<open>An inner write that took nothing ends the loop: it is shorter than the chunk asked for.\<close>

function sys_write_loop :: "u64 \<Rightarrow> u64 \<Rightarrow> u64 \<Rightarrow> nat \<Rightarrow> pipe_env list \<Rightarrow> posix_world \<Rightarrow> (u64 \<times> posix_world) option" where
  "sys_write_loop i buf len done envs w =
     (if done < unat len then
        let want = min (unat len - done) CHUNK; env = (case envs of [] \<Rightarrow> [] | e # _ \<Rightarrow> e) in
        (case copy_in want (buf + of_nat done) (px_mem w) of
           None \<Rightarrow> Some (SYS_ERR_FAULT, w)
         | Some bs \<Rightarrow>
             (case io_write (px_slot w) (fd_arg i) bs env (px_io w) of
                None \<Rightarrow> None
              | Some (Inl e, io) \<Rightarrow> Some (if done > 0 then of_nat done else e, w\<lparr>px_io := io\<rparr>)
              | Some (Inr n, io) \<Rightarrow>
                  if n < want then Some (of_nat (done + n), w\<lparr>px_io := io\<rparr>)
                  else sys_write_loop i buf len (done + n) (tl envs) (w\<lparr>px_io := io\<rparr>)))
      else Some (of_nat done, w))"
  by pat_completeness auto
termination
  by (relation "measure (\<lambda>(i, buf, len, done, envs, w). unat len - done)") (auto simp: CHUNK_def)

declare sys_write_loop.simps [simp del]

definition sys_write :: "u64 \<Rightarrow> u64 \<Rightarrow> u64 \<Rightarrow> pipe_env list \<Rightarrow> posix_world \<Rightarrow> (u64 \<times> posix_world) option" where
  "sys_write i buf len envs w = sys_write_loop i buf len 0 envs w"

definition sys_lseek :: "u64 \<Rightarrow> u64 \<Rightarrow> u64 \<Rightarrow> posix_world \<Rightarrow> u64 \<times> posix_world" where
  "sys_lseek i off whence w = run_fs (\<lambda>n. n) (\<lambda>slot. fd_lseek slot (fd_arg i) off (ucast whence)) w"

definition sys_fstat :: "u64 \<Rightarrow> u64 \<Rightarrow> u64 \<Rightarrow> posix_world \<Rightarrow> u64 \<times> posix_world" where
  "sys_fstat now i st w =
     (case dir_fstat now (px_slot w) (fd_arg i) (px_fs w) of
        Inl e \<Rightarrow> (e, w) | Inr s \<Rightarrow> put_bytes st (stat_bytes s) w)"

definition sys_getdents :: "u64 \<Rightarrow> u64 \<Rightarrow> u64 \<Rightarrow> posix_world \<Rightarrow> u64 \<times> posix_world" where
  "sys_getdents i buf len w =
     (if len < 72 then (SYS_ERR_INVAL, w)
      else case readdir (px_slot w) (fd_arg i) (px_fs w) of (r, s) \<Rightarrow>
        let w1 = upd_px_fs (\<lambda>_. s) w in
        (case r of
           Inl e \<Rightarrow> (e, w1)
         | Inr None \<Rightarrow> (0, w1)
         | Inr (Some de) \<Rightarrow>
             (case copy_out buf (dirent_bytes de) (px_mem w1) of
                Some m \<Rightarrow> (1, w1\<lparr>px_mem := m\<rparr>) | None \<Rightarrow> (SYS_ERR_FAULT, w1))))"

definition sys_pipe :: "u64 \<Rightarrow> posix_world \<Rightarrow> u64 \<times> posix_world" where
  "sys_pipe fds w =
     (case fd_pipe (px_slot w) (px_fs w) of (r, s) \<Rightarrow>
        let w1 = upd_px_fs (\<lambda>_. s) w in
        (case r of
           Inl e \<Rightarrow> (e, w1)
         | Inr (a, b) \<Rightarrow> put_bytes fds (to_le32 (of_nat a) @ to_le32 (of_nat b)) w1))"

definition sys_dup :: "u64 \<Rightarrow> posix_world \<Rightarrow> u64 \<times> posix_world" where
  "sys_dup i w = run_fs of_nat (\<lambda>slot. fd_dup slot (fd_arg i)) w"

definition sys_dup2 :: "u64 \<Rightarrow> u64 \<Rightarrow> posix_world \<Rightarrow> u64 \<times> posix_world" where
  "sys_dup2 old new w = run_fs of_nat (\<lambda>slot. fd_dup2 slot (fd_arg old) (fd_arg new)) w"

definition sys_fcntl :: "u64 \<Rightarrow> u64 \<Rightarrow> u64 \<Rightarrow> posix_world \<Rightarrow> u64 \<times> posix_world" where
  "sys_fcntl i cmd arg w = run_fs (\<lambda>v. v) (\<lambda>slot. fd_fcntl slot (fd_arg i) cmd arg) w"

section \<open>Console calls\<close>

definition upd_tw :: "(tty_world \<Rightarrow> tty_world) \<Rightarrow> posix_world \<Rightarrow> posix_world" where
  "upd_tw f = upd_io (\<lambda>io. io\<lparr>io_tty := f (io_tty io)\<rparr>)"

definition sys_ioctl :: "u64 \<Rightarrow> u64 \<Rightarrow> u64 \<Rightarrow> posix_world \<Rightarrow> u64 \<times> posix_world" where
  "sys_ioctl i req arg w =
     (if fd_node_of (px_slot w) (fd_arg i) (px_fs w) \<noteq> Some CONSOLE then (SYS_ERR_NOTTY, w)
      else if req = IOCTL_TCGETS then
        if arg = 0 then (SYS_ERR_NOTTY, w)
        else (case termios_get (w_tty (io_tty (px_io w))) of (t, s) \<Rightarrow>
                put_bytes arg (termios_bytes t) (upd_tw (upd_tty (\<lambda>_. s)) w))
      else if req = IOCTL_TCSETS then
        if arg = 0 then (SYS_ERR_NOTTY, w)
        else (case copy_in 48 arg (px_mem w) of
                None \<Rightarrow> (SYS_ERR_FAULT, w)
              | Some bs \<Rightarrow>
                  (case termios_set (termios_of_bytes bs) (w_tty (io_tty (px_io w))) of (r, s) \<Rightarrow>
                     (r, upd_tw (upd_tty (\<lambda>_. s)) w)))
      else if req = IOCTL_TIOCGPGRP then
        put_bytes arg (to_le32 (ucast (tty_pgrp (io_tty (px_io w))))) w
      else if req = IOCTL_TIOCSPGRP then
        (case copy_in 4 arg (px_mem w) of
           None \<Rightarrow> (SYS_ERR_FAULT, w)
         | Some bs \<Rightarrow> (SYS_OK, upd_tw (set_tty_pgrp (ucast (le32_at bs 0))) w))
      else if req = IOCTL_TIOCGWINSZ then put_bytes arg (to_le16 25 @ to_le16 80 @ to_le16 0 @ to_le16 0) w
      else (SYS_ERR_NOTTY, w))"

definition sys_tcgetpgrp :: "u64 \<Rightarrow> posix_world \<Rightarrow> u64" where
  "sys_tcgetpgrp i w =
     (if fd_node_of (px_slot w) (fd_arg i) (px_fs w) = Some CONSOLE then tty_pgrp (io_tty (px_io w)) else SYS_ERR_NOTTY)"

definition sys_tcsetpgrp :: "u64 \<Rightarrow> u64 \<Rightarrow> posix_world \<Rightarrow> u64 \<times> posix_world" where
  "sys_tcsetpgrp i pgrp w =
     (if fd_node_of (px_slot w) (fd_arg i) (px_fs w) = Some CONSOLE then (SYS_OK, upd_tw (set_tty_pgrp pgrp) w) else (SYS_ERR_NOTTY, w))"

definition sys_wait4 :: "u64 \<Rightarrow> u64 \<Rightarrow> u64 \<Rightarrow> (procs \<Rightarrow> procs) list \<Rightarrow> posix_world \<Rightarrow> (u64 \<times> posix_world) option" where
  "sys_wait4 pid status options env w =
     (case wait4 (px_slot w) pid options env (w_procs (io_tty (px_io w))) of
        None \<Rightarrow> None
      | Some (r, ps) \<Rightarrow>
          let w1 = upd_tw (\<lambda>t. t\<lparr>w_procs := ps\<rparr>) w in
          Some (case r of
             Inl e \<Rightarrow> (e, w1)
           | Inr (child, st) \<Rightarrow>
               if status \<noteq> 0 then
                 (case copy_out status (to_le32 (ucast st)) (px_mem w1) of
                    None \<Rightarrow> (SYS_ERR_FAULT, w1) | Some m \<Rightarrow> (child, w1\<lparr>px_mem := m\<rparr>))
               else (child, w1)))"

definition sys_clock_gettime :: "u64 \<Rightarrow> u64 \<Rightarrow> u64 \<Rightarrow> posix_world \<Rightarrow> u64 \<times> posix_world" where
  "sys_clock_gettime now_ns clockid ts w =
     (if clockid > 1 then (SYS_ERR_INVAL, w)
      else put_bytes ts (to_le64 (now_ns div 1000000000) @ to_le64 (now_ns mod 1000000000)) w)"

definition sys_mmap :: u64 where
  "sys_mmap = SYS_ERR_NOSYS"

section \<open>Path calls\<close>

definition with_path :: "u64 \<Rightarrow> (u8 list \<Rightarrow> posix_world \<Rightarrow> u64 \<times> posix_world) \<Rightarrow> posix_world \<Rightarrow> u64 \<times> posix_world" where
  "with_path ptr f w = (case cpath ptr (px_mem w) of Inl e \<Rightarrow> (e, w) | Inr p \<Rightarrow> f p w)"

definition sys_stat :: "bins \<Rightarrow> u64 \<Rightarrow> u64 \<Rightarrow> u64 \<Rightarrow> posix_world \<Rightarrow> u64 \<times> posix_world" where
  "sys_stat bins now path st = with_path path (\<lambda>p w.
     case tmpfs_lookup (cwd_get (px_slot w) (px_fs w)) p (fs_tmpfs (px_fs w)) of (r, t) \<Rightarrow>
       let w1 = upd_px_fs (\<lambda>s. s\<lparr>fs_tmpfs := t\<rparr>) w in
       (case r of
          Inr n \<Rightarrow> put_bytes st (stat_bytes (tmpfs_stat now n t)) w1
        | Inl e \<Rightarrow> (case rom_stat bins now p t of Some rs \<Rightarrow> put_bytes st (stat_bytes rs) w1 | None \<Rightarrow> (e, w1))))"

definition sys_chdir :: "u64 \<Rightarrow> posix_world \<Rightarrow> u64 \<times> posix_world" where
  "sys_chdir path = with_path path (\<lambda>p. run_fs (\<lambda>_. SYS_OK) (\<lambda>slot. dir_chdir slot p))"

definition sys_getcwd :: "u64 \<Rightarrow> u64 \<Rightarrow> posix_world \<Rightarrow> u64 \<times> posix_world" where
  "sys_getcwd buf len w =
     (if len = 0 \<or> len > 4096 then (SYS_ERR_INVAL, w)
      else case dir_getcwd (px_slot w) (unat len) (px_fs w) of
        Inl e \<Rightarrow> (e, w)
      | Inr bs \<Rightarrow> (case copy_out buf bs (px_mem w) of
           Some m \<Rightarrow> (of_nat (length bs), w\<lparr>px_mem := m\<rparr>) | None \<Rightarrow> (SYS_ERR_FAULT, w)))"

definition path_remove :: "bool \<Rightarrow> u64 \<Rightarrow> posix_world \<Rightarrow> u64 \<times> posix_world" where
  "path_remove dir path = with_path path (\<lambda>p w.
     case tmpfs_lookup (cwd_get (px_slot w) (px_fs w)) p (fs_tmpfs (px_fs w)) of (r, t) \<Rightarrow>
       let w1 = upd_px_fs (\<lambda>s. s\<lparr>fs_tmpfs := t\<rparr>) w in
       (case r of
          Inl e \<Rightarrow> (e, w1)
        | Inr n \<Rightarrow>
            if (tmpfs_kind t n = Dir) \<noteq> dir then (SYS_ERR_ISDIR, w1)
            else (case tmpfs_remove n t of (r', t') \<Rightarrow>
                    (case r' of Inl e \<Rightarrow> e | Inr _ \<Rightarrow> SYS_OK, upd_px_fs (\<lambda>s. s\<lparr>fs_tmpfs := t'\<rparr>) w1))))"

definition sys_unlink :: "u64 \<Rightarrow> posix_world \<Rightarrow> u64 \<times> posix_world" where
  "sys_unlink = path_remove False"

definition sys_rmdir :: "u64 \<Rightarrow> posix_world \<Rightarrow> u64 \<times> posix_world" where
  "sys_rmdir = path_remove True"

definition sys_mkdir :: "u64 \<Rightarrow> posix_world \<Rightarrow> u64 \<times> posix_world" where
  "sys_mkdir path = with_path path (\<lambda>p. run_fs (\<lambda>_. SYS_OK) (\<lambda>slot. fs_create_in slot p Dir))"

definition sys_rename :: "u64 \<Rightarrow> u64 \<Rightarrow> posix_world \<Rightarrow> u64 \<times> posix_world" where
  "sys_rename old new = with_path old (\<lambda>po. with_path new (\<lambda>pn. run_fs (\<lambda>_. SYS_OK) (\<lambda>slot. fs_rename_in slot po pn)))"

section \<open>Files through descriptors\<close>

text \<open>Descriptor \<open>i\<close> of the current task refers to object \<open>k\<close> on the regular file \<open>nd\<close> at offset \<open>off\<close>.\<close>

definition fd_file :: "posix_world \<Rightarrow> u64 \<Rightarrow> nat \<Rightarrow> nat \<Rightarrow> u64 \<Rightarrow> bool" where
  "fd_file w i k nd off \<longleftrightarrow> open_of (px_slot w) (fd_arg i) (px_fs w) = Some k \<and> k < length (fs_opens (px_fs w))
     \<and> o_pipe (open_at (px_fs w) k) = 0 \<and> o_rom (open_at (px_fs w) k) = None \<and> o_node (open_at (px_fs w) k) = nd
     \<and> o_flags (open_at (px_fs w) k) AND ucast O_APPEND = 0 \<and> o_offset (open_at (px_fs w) k) = off
     \<and> tmpfs_inv (fs_tmpfs (px_fs w)) \<and> file_live (fs_tmpfs (px_fs w)) nd"

abbreviation px_chunk :: "posix_world \<Rightarrow> nat \<Rightarrow> u8 list" where
  "px_chunk w nd \<equiv> file_chunk (fs_tmpfs (px_fs w)) nd"

abbreviation px_size :: "posix_world \<Rightarrow> nat \<Rightarrow> nat" where
  "px_size w nd \<equiv> length (file_bytes (fs_tmpfs (px_fs w)) nd)"

text \<open>The bytes of user memory.\<close>

definition user_bytes :: "u64 \<Rightarrow> nat \<Rightarrow> umem \<Rightarrow> u8 list" where
  "user_bytes buf n m = map (\<lambda>j. m (buf + of_nat j)) [0..<n]"

definition user_range :: "u64 \<Rightarrow> nat \<Rightarrow> bool" where
  "user_range buf n \<longleftrightarrow> buf \<noteq> 0 \<and> unat buf + n \<le> unat PHYS_OFFSET"

lemma phys_offset_nat: "unat PHYS_OFFSET = 0xFFFF800000000000"
  by (simp add: PHYS_OFFSET_def)

lemma user_range_sub:
  assumes "user_range buf n" "d + k \<le> n"
  shows "unat (buf + of_nat d) = unat buf + d" "buf + of_nat d \<noteq> 0" "checked_add (buf + of_nat d) (of_nat k) = Some (buf + of_nat d + of_nat k)"
    "\<not> PHYS_OFFSET < buf + of_nat d + of_nat k"
proof -
  have b: "unat buf + n \<le> 0xFFFF800000000000" "0 < unat buf" using assms(1) by (simp_all add: user_range_def phys_offset_nat unat_gt_0)
  have d: "unat (of_nat d :: u64) = d" "unat (of_nat k :: u64) = k" using b assms(2) by (simp_all add: unat_of_nat_u64)
  show u: "unat (buf + of_nat d) = unat buf + d" using b assms(2) d by (subst unat_add_lem [THEN iffD1]) simp_all
  then show "buf + of_nat d \<noteq> 0" using b(2) by (metis add_gr_0 less_irrefl unsigned_0)
  show "checked_add (buf + of_nat d) (of_nat k) = Some (buf + of_nat d + of_nat k)" using u d b assms(2) by (simp add: checked_add_def)
  have "unat (buf + of_nat d + of_nat k) = unat buf + d + k" using u d b assms(2) by (subst unat_add_lem [THEN iffD1]) simp_all
  then show "\<not> PHYS_OFFSET < buf + of_nat d + of_nat k" using b assms(2) by (simp add: word_less_nat_alt phys_offset_nat)
qed

lemma copy_in_user:
  assumes "user_range buf n" "d + k \<le> n"
  shows "copy_in k (buf + of_nat d) m = Some (take k (drop d (user_bytes buf n m)))"
proof -
  have "map (\<lambda>i. m (buf + of_nat d + of_nat i)) [0..<k] = take k (drop d (user_bytes buf n m))"
    using assms(2) by (intro nth_equalityI) (simp_all add: user_bytes_def add.assoc)
  with user_range_sub [OF assms] show ?thesis by (simp add: copy_in_def)
qed

lemma copy_out_user:
  assumes "user_range buf n" "d + length bs \<le> n"
  shows "copy_out (buf + of_nat d) bs m = Some (write_bytes (buf + of_nat d) bs m)"
  using user_range_sub [OF assms] by (simp add: copy_out_def)

lemma io_write_file:
  assumes f: "fd_file w i k nd off" and b: "unat off + length d \<le> FILE_CAP"
  obtains io w' where "io_write (px_slot w) (fd_arg i) d env (px_io w) = Some (Inr (length d), io)" "w' = w\<lparr>px_io := io\<rparr>" "px_mem w' = px_mem w"
    "fd_file w' i k nd (off + of_nat (length d))" "px_slot w' = px_slot w"
    "px_chunk w' nd = take (unat off) (px_chunk w nd) @ d @ drop (unat off + length d) (px_chunk w nd)"
    "px_size w' nd = max (px_size w nd) (unat off + length d)"
proof -
  let ?s = "px_fs w" and ?t = "fs_tmpfs (px_fs w)"
  have t: "tmpfs_inv ?t" "file_live ?t nd" using f by (simp_all add: fd_file_def)
  obtain t' where w: "tmpfs_write nd off d ?t = Some (Inr (length d), t')" "tmpfs_inv t'"
    and ch: "file_chunk t' nd = take (unat off) (file_chunk ?t nd) @ d @ drop (unat off + length d) (file_chunk ?t nd)"
    and sz: "unat (n_size (node_at t' nd)) = max (unat (n_size (node_at ?t nd))) (unat off + length d)"
    and self: "node_at t' nd = (node_at ?t nd)\<lparr>n_size := n_size (node_at t' nd)\<rparr>"
    by (rule tmpfs_write_ok [OF t b])
  have live: "file_live t' nd" using t(2) self by (metis file_live_def node_live_def node.simps(1,2) node.update_convs(6) node.ext_inject node.surjective)
  have kind: "tmpfs_kind ?t nd = File" using t tmpfs_invD(1) [OF t(1)] by (simp add: file_live_def)
  define s' where "s' = set_offset k (off + of_nat (length d)) (?s\<lparr>fs_tmpfs := t'\<rparr>)"
  define w' where "w' = w\<lparr>px_io := upd_fs (\<lambda>_. s') (px_io w)\<rparr>"
  have fs': "px_fs w' = s'" "px_slot w' = px_slot w" "fs_tmpfs s' = t'" by (simp_all add: w'_def upd_fs_def s'_def set_offset_def)
  have at: "open_at s' k = (open_at ?s k)\<lparr>o_offset := off + of_nat (length d)\<rparr>" "fs_fds s' = fs_fds ?s" "length (fs_opens s') = length (fs_opens ?s)"
    using f by (simp_all add: s'_def set_offset_def open_at_put fd_file_def)
  show ?thesis
  proof (rule that)
    show "io_write (px_slot w) (fd_arg i) d env (px_io w) = Some (Inr (length d), px_io w')"
      using f kind w by (simp add: io_write_def Let_def fd_file_def w'_def upd_fs_def s'_def)
    show "fd_file w' i k nd (off + of_nat (length d))"
      using f live w(2) at unfolding fd_file_def fs' open_of_Some by simp
    show "px_size w' nd = max (px_size w nd) (unat off + length d)"
      using sz file_bounds(4) [OF t] file_bounds(4) [OF w(2) live] by (simp add: fs')
  qed (simp_all add: fs' ch, simp_all add: w'_def)
qed
lemma io_read_file:
  assumes f: "fd_file w i k nd off" and n: "n < 2 ^ 64"
  obtains io w' where "io_read (px_slot w) (fd_arg i) n penv tenv (px_io w) =
      Some (Inr (take n (drop (unat off) (file_bytes (fs_tmpfs (px_fs w)) nd))), io)" "w' = w\<lparr>px_io := io\<rparr>" "px_mem w' = px_mem w"
    "fd_file w' i k nd (off + of_nat (length (take n (drop (unat off) (file_bytes (fs_tmpfs (px_fs w)) nd)))))"
    "px_slot w' = px_slot w" "fs_tmpfs (px_fs w') = fs_tmpfs (px_fs w)"
proof -
  let ?s = "px_fs w" and ?t = "fs_tmpfs (px_fs w)"
  let ?out = "take n (drop (unat off) (file_bytes ?t nd))"
  have t: "tmpfs_inv ?t" "file_live ?t nd" using f by (simp_all add: fd_file_def)
  have kind: "tmpfs_kind ?t nd \<noteq> Console" using t tmpfs_invD(1) [OF t(1)] by (simp add: file_live_def)
  define s' where "s' = set_offset k (off + of_nat (length ?out)) ?s"
  define w' where "w' = w\<lparr>px_io := upd_fs (\<lambda>_. s') (px_io w)\<rparr>"
  have fs': "px_fs w' = s'" "px_slot w' = px_slot w" "fs_tmpfs s' = ?t" by (simp_all add: w'_def upd_fs_def s'_def set_offset_def)
  have at: "open_at s' k = (open_at ?s k)\<lparr>o_offset := off + of_nat (length ?out)\<rparr>" "fs_fds s' = fs_fds ?s" "length (fs_opens s') = length (fs_opens ?s)"
    using f by (simp_all add: s'_def set_offset_def open_at_put fd_file_def)
  show ?thesis
  proof (rule that)
    show "io_read (px_slot w) (fd_arg i) n penv tenv (px_io w) = Some (Inr ?out, px_io w')"
      using f kind tmpfs_read_spec [OF t n, of off] by (simp add: io_read_def Let_def fd_file_def w'_def upd_fs_def s'_def)
    show "fd_file w' i k nd (off + of_nat (length ?out))" using f at unfolding fd_file_def fs' open_of_Some by simp
  qed (simp_all add: fs', simp_all add: w'_def)
qed

lemma splice_splice:
  assumes "o1 + length c \<le> length xs"
  shows "take (o1 + length c) (take o1 xs @ c @ drop (o1 + length c) xs) @ d @ drop (o1 + length c + length d) (take o1 xs @ c @ drop (o1 + length c) xs)
    = take o1 xs @ (c @ d) @ drop (o1 + length (c @ d)) xs"
proof -
  have "length (take o1 xs) = o1" using assms by simp
  then show ?thesis by (simp add: add.commute add.left_commute)
qed

lemma off_add: "unat off + n \<le> FILE_CAP \<Longrightarrow> unat (off + of_nat n :: u64) = unat off + n"
  by (subst unat_add_lem [THEN iffD1]) (simp_all add: unat_of_nat_u64 FILE_CAP_def)

lemma sys_write_loop_step:
  assumes "done < unat len" "copy_in (min (unat len - done) CHUNK) (buf + of_nat done) (px_mem w) = Some c"
    "io_write (px_slot w) (fd_arg i) c (case envs of [] \<Rightarrow> [] | e # _ \<Rightarrow> e) (px_io w) = Some (Inr (min (unat len - done) CHUNK), io)"
  shows "sys_write_loop i buf len done envs w = sys_write_loop i buf len (done + min (unat len - done) CHUNK) (tl envs) (w\<lparr>px_io := io\<rparr>)"
  by (subst sys_write_loop.simps) (simp only: assms Let_def if_True option.case prod.case sum.case less_irrefl if_False)

lemma write_loop_file:
  assumes "fd_file w i k nd off" "user_range buf (unat len)" "done \<le> unat len" "unat off + (unat len - done) \<le> FILE_CAP"
  shows "\<exists>w'. sys_write_loop i buf len done envs w = Some (len, w') \<and> px_mem w' = px_mem w \<and> px_slot w' = px_slot w
    \<and> fd_file w' i k nd (off + of_nat (unat len - done))
    \<and> px_chunk w' nd = take (unat off) (px_chunk w nd) @ drop done (user_bytes buf (unat len) (px_mem w))
        @ drop (unat off + (unat len - done)) (px_chunk w nd)
    \<and> px_size w' nd = (if done < unat len then max (px_size w nd) (unat off + (unat len - done)) else px_size w nd)"
  using assms
proof (induction "unat len - done" arbitrary: "done" off w envs rule: less_induct)
  case less
  let ?data = "user_bytes buf (unat len) (px_mem w)"
  have dlen: "length ?data = unat len" by (simp add: user_bytes_def)
  show ?case
  proof (cases "done < unat len")
    case False
    then have "done = unat len" using less.prems(3) by simp
    with dlen less.prems(1) show ?thesis by (subst sys_write_loop.simps) simp
  next
    case True
    define want where "want = min (unat len - done) CHUNK"
    have w0: "0 < want" "done + want \<le> unat len" using True by (auto simp: want_def CHUNK_def)
    define c where "c = take want (drop done ?data)"
    have cl: "length c = want" unfolding c_def using w0 dlen by simp
    have ci: "copy_in want (buf + of_nat done) (px_mem w) = Some c" unfolding c_def by (rule copy_in_user [OF less.prems(2) w0(2)])
    have b: "unat off + length c \<le> FILE_CAP" using cl w0 less.prems(4) by simp
    obtain io w1 where wr: "io_write (px_slot w) (fd_arg i) c (case envs of [] \<Rightarrow> [] | e # _ \<Rightarrow> e) (px_io w) = Some (Inr (length c), io)"
      and w1_def: "w1 = w\<lparr>px_io := io\<rparr>" and w1: "px_mem w1 = px_mem w"
      "fd_file w1 i k nd (off + of_nat (length c))" "px_slot w1 = px_slot w"
      "px_chunk w1 nd = take (unat off) (px_chunk w nd) @ c @ drop (unat off + length c) (px_chunk w nd)"
      "px_size w1 nd = max (px_size w nd) (unat off + length c)"
      by (rule io_write_file [OF less.prems(1) b])
    have step: "sys_write_loop i buf len done envs w = sys_write_loop i buf len (done + want) (tl envs) w1"
      unfolding w1_def want_def by (rule sys_write_loop_step [OF True ci [unfolded want_def] wr [unfolded cl want_def]])
    have uo: "unat (off + of_nat want) = unat off + want" by (rule off_add) (use b cl in simp)
    have m: "unat len - (done + want) < unat len - done" "done + want \<le> unat len" using w0 by auto
    have "unat (off + of_nat want) + (unat len - (done + want)) \<le> FILE_CAP" using uo less.prems(4) w0 by simp
    from less.hyps [OF m(1) w1(2) [unfolded cl] less.prems(2) m(2) this, of "tl envs"] obtain w' where
      w': "sys_write_loop i buf len (done + want) (tl envs) w1 = Some (len, w')" "px_mem w' = px_mem w" "px_slot w' = px_slot w"
        "fd_file w' i k nd (off + of_nat want + of_nat (unat len - (done + want)))"
        "px_chunk w' nd = take (unat off + want) (px_chunk w1 nd) @ drop (done + want) ?data @ drop (unat off + want + (unat len - (done + want))) (px_chunk w1 nd)"
        "px_size w' nd = (if done + want < unat len then max (px_size w1 nd) (unat off + want + (unat len - (done + want))) else px_size w1 nd)"
      unfolding uo w1(1,3) by auto
    have off': "off + of_nat want + of_nat (unat len - (done + want)) = off + (of_nat (unat len - done) :: u64)"
    proof -
      have "want + (unat len - (done + want)) = unat len - done" using w0 by simp
      then show ?thesis unfolding add.assoc of_nat_add [symmetric] by (simp only:)
    qed
    have chl: "length (px_chunk w nd) = FILE_CAP" using less.prems(1) file_bounds(3) by (auto simp: fd_file_def)
    have dr: "drop done ?data = c @ drop (done + want) ?data" unfolding c_def by (metis append_take_drop_id drop_drop add.commute)
    have ll: "length (c @ drop (done + want) ?data) = unat len - done" using cl dlen w0 by simp
    have ch: "px_chunk w' nd = take (unat off) (px_chunk w nd) @ drop done ?data @ drop (unat off + (unat len - done)) (px_chunk w nd)"
      using splice_splice [of "unat off" c "px_chunk w nd" "drop (done + want) ?data"] b chl cl dlen w'(5) w1(4)
      unfolding ll dr [symmetric] by simp
    have sz: "px_size w' nd = max (px_size w nd) (unat off + (unat len - done))"
      using w'(6) w1(5) cl w0 by (auto simp: max_def)
    show ?thesis
      by (intro exI [of _ w'] conjI) (simp_all only: step w'(1-3) w'(4) [unfolded off'] ch sz True if_True)
  qed
qed
lemma write_bytes_append:
  "write_bytes (a + of_nat (length c)) d (write_bytes a c m) = write_bytes a (c @ d) m"
proof -
  let ?f = "\<lambda>i m. m(a + of_nat i := (c @ d) ! i)"
  have "[0..<length (c @ d)] = [0..<length c] @ map (\<lambda>i. i + length c) [0..<length d]"
    using upt_add_eq_append [of 0 "length c" "length d"] map_add_upt [of "length c" "length d"] by (simp add: add.commute)
  then have "write_bytes a (c @ d) m = fold ?f (map (\<lambda>i. i + length c) [0..<length d]) (fold ?f [0..<length c] m)"
    unfolding write_bytes_def by simp
  also have "fold ?f [0..<length c] m = write_bytes a c m"
    unfolding write_bytes_def by (rule fold_cong) (auto simp: nth_append)
  also have "fold ?f (map (\<lambda>i. i + length c) [0..<length d]) m' = write_bytes (a + of_nat (length c)) d m'" for m'
    unfolding write_bytes_def fold_map comp_def by (rule fold_cong) (auto simp: nth_append algebra_simps)
  finally show ?thesis by simp
qed

lemma sys_read_loop_step:
  assumes "done < unat len"
    "io_read (px_slot w) (fd_arg i) (min (unat len - done) CHUNK) (fst (case envs of [] \<Rightarrow> ([], []) | e # _ \<Rightarrow> e)) (snd (case envs of [] \<Rightarrow> ([], []) | e # _ \<Rightarrow> e)) (px_io w)
       = Some (Inr c, io)"
    "copy_out (buf + of_nat done) c (px_mem w) = Some m"
  shows "sys_read_loop i buf len done envs w =
    (if c = [] then Some (of_nat done, w\<lparr>px_io := io\<rparr>)
     else if length c < min (unat len - done) CHUNK then Some (of_nat (done + length c), w\<lparr>px_io := io, px_mem := m\<rparr>)
     else sys_read_loop i buf len (done + length c) (tl envs) (w\<lparr>px_io := io, px_mem := m\<rparr>))"
  by (subst sys_read_loop.simps) (simp only: assms Let_def if_True option.case prod.case sum.case)

lemma fd_file_mem [simp]: "fd_file (w\<lparr>px_mem := m\<rparr>) i k nd off = fd_file w i k nd off"
  by (simp add: fd_file_def)

lemma read_loop_file:
  assumes "fd_file w i k nd off" "user_range buf (unat len)" "done \<le> unat len" "bs = file_bytes (fs_tmpfs (px_fs w)) nd"
    "r = take (unat len - done) (drop (unat off) bs)" "unat off \<le> length bs"
  shows "\<exists>w'. sys_read_loop i buf len done envs w = Some (of_nat (done + length r), w')
    \<and> px_mem w' = write_bytes (buf + of_nat done) r (px_mem w) \<and> px_slot w' = px_slot w
    \<and> fd_file w' i k nd (off + of_nat (length r)) \<and> fs_tmpfs (px_fs w') = fs_tmpfs (px_fs w)"
  using assms
proof (induction "unat len - done" arbitrary: "done" off w envs r rule: less_induct)
  case less
  show ?case
  proof (cases "done < unat len")
    case False
    then have "r = []" using less.prems(5) by simp
    with False less.prems(1) show ?thesis by (subst sys_read_loop.simps) (simp add: write_bytes_def)
  next
    case True
    define want where "want = min (unat len - done) CHUNK"
    have w0: "0 < want" "done + want \<le> unat len" using True by (auto simp: want_def CHUNK_def)
    define c where "c = take want (drop (unat off) bs)"
    have wl: "want < 2 ^ 64" by (simp add: want_def CHUNK_def min_def)
    obtain io w1 where rd: "io_read (px_slot w) (fd_arg i) want (fst (case envs of [] \<Rightarrow> ([], []) | e # _ \<Rightarrow> e)) (snd (case envs of [] \<Rightarrow> ([], []) | e # _ \<Rightarrow> e)) (px_io w) = Some (Inr c, io)"
      and w1_def: "w1 = w\<lparr>px_io := io\<rparr>" and w1: "px_mem w1 = px_mem w" "fd_file w1 i k nd (off + of_nat (length c))" "px_slot w1 = px_slot w" "fs_tmpfs (px_fs w1) = fs_tmpfs (px_fs w)"
      unfolding c_def less.prems(4) by (rule io_read_file [OF less.prems(1) wl])
    have cl: "length c \<le> want" by (simp add: c_def)
    define m where "m = write_bytes (buf + of_nat done) c (px_mem w)"
    have co: "copy_out (buf + of_nat done) c (px_mem w) = Some m"
      unfolding m_def using cl w0 by (intro copy_out_user [OF less.prems(2)]) simp
    note step = sys_read_loop_step [OF True rd [unfolded want_def] co, folded want_def]
    have rc: "r = c @ take (unat len - (done + want)) (drop (unat off + want) bs)"
      unfolding less.prems(5) c_def using w0 take_add [of want "unat len - (done + want)" "drop (unat off) bs"] by (simp add: add.commute)
    show ?thesis
    proof (cases "length c = want")
      case False
      then have short: "length c < want" using cl by simp
      then have "length bs \<le> unat off + want" by (simp add: c_def)
      then have "r = c" using rc by simp
      show ?thesis
      proof (cases "c = []")
        case True
        then show ?thesis using step w1 \<open>r = c\<close> w1_def by (auto simp: write_bytes_def)
      next
        case False
        have "fd_file (w1\<lparr>px_mem := m\<rparr>) i k nd (off + of_nat (length c))" "px_slot (w1\<lparr>px_mem := m\<rparr>) = px_slot w" "fs_tmpfs (px_fs (w1\<lparr>px_mem := m\<rparr>)) = fs_tmpfs (px_fs w)"
          using w1 by simp_all
        then show ?thesis using step short False \<open>r = c\<close> unfolding w1_def by (auto simp: m_def)
      qed
    next
      case full: True
      define w2 where "w2 = w\<lparr>px_io := io, px_mem := m\<rparr>"
      have w2: "fd_file w2 i k nd (off + of_nat want)" "px_slot w2 = px_slot w" "fs_tmpfs (px_fs w2) = fs_tmpfs (px_fs w)" "px_mem w2 = m"
        using w1(2-4) unfolding w1_def w2_def full by (simp_all add: fd_file_def)
      have ne: "c \<noteq> []" using full w0 by auto
      have st: "sys_read_loop i buf len done envs w = sys_read_loop i buf len (done + want) (tl envs) w2"
        using step ne full unfolding w2_def by simp
      have capl: "length bs \<le> FILE_CAP" using less.prems(1,4) file_bounds(2,4) by (auto simp: fd_file_def)
      have ofw: "unat off + want \<le> length bs" using full less.prems(6) unfolding c_def by simp
      then have uo: "unat (off + of_nat want) = unat off + want" using capl by (intro off_add) simp
      let ?r = "take (unat len - (done + want)) (drop (unat (off + of_nat want)) bs)"
      have mm: "unat len - (done + want) < unat len - done" using w0 by simp
      from less.hyps [OF mm w2(1) less.prems(2) w0(2) _ refl, of "tl envs"] w2(3) less.prems(4) ofw uo obtain w' where
        w': "sys_read_loop i buf len (done + want) (tl envs) w2 = Some (of_nat (done + want + length ?r), w')"
          "px_mem w' = write_bytes (buf + of_nat (done + want)) ?r m" "px_slot w' = px_slot w"
          "fd_file w' i k nd (off + of_nat want + of_nat (length ?r))" "fs_tmpfs (px_fs w') = fs_tmpfs (px_fs w)"
        unfolding w2(2,4) by auto
      have rr: "r = c @ ?r" unfolding uo by (rule rc)
      have "px_mem w' = write_bytes (buf + of_nat done) r (px_mem w)"
        unfolding rr write_bytes_append [symmetric] w'(2) m_def full by (simp add: add.assoc)
      moreover have "off + of_nat (length r) = off + of_nat want + of_nat (length ?r)" "done + length r = done + want + length ?r"
        unfolding rr using full by simp_all
      ultimately show ?thesis using st w' by (intro exI [of _ w'] conjI) (simp_all only:)
    qed
  qed
qed

lemma lseek_file:
  assumes f: "fd_file w i k nd off" and b: "unat x < 2 ^ 63"
  obtains w' where "sys_lseek i x 0 w = (x, w')" "fd_file w' i k nd x" "px_mem w' = px_mem w" "px_slot w' = px_slot w"
    "fs_tmpfs (px_fs w') = fs_tmpfs (px_fs w)"
proof -
  let ?w = "upd_px_fs (set_offset k x) w"
  have "sys_lseek i x 0 w = (x, ?w)"
  proof -
    have c: "checked_add_i64 0 x = Some x" using sint_ge [of x] sint_lt [of x] by (simp add: checked_add_i64_def Let_def)
    have s: "\<not> sint x < 0" using b by (simp add: sint_neg_u64)
    show ?thesis using f unfolding sys_lseek_def run_fs_def fd_lseek_def fd_file_def
      by (simp add: Let_def c s upd_px_fs_def upd_io_def upd_fs_def)
  qed
  moreover have "fd_file ?w i k nd x" "px_mem ?w = px_mem w" "px_slot ?w = px_slot w" "fs_tmpfs (px_fs ?w) = fs_tmpfs (px_fs w)"
    using f by (simp_all add: fd_file_def upd_px_fs_def upd_io_def upd_fs_def set_offset_def put_open_def open_of_def split: if_splits)
  ultimately show thesis using that by blast
qed

lemma user_bytes_write:
  assumes "length bs < 2 ^ 64" shows "user_bytes a (length bs) (write_bytes a bs m) = bs"
  using assms by (intro nth_equalityI) (simp_all add: user_bytes_def write_bytes_at)

text \<open>C36. Descriptor input and output through the system calls: writing a user buffer to a file, seeking back
  and reading into another buffer transfers it in full across the 256-byte chunks, whatever the sleeping
  environments do in between: both calls return the whole length, the second buffer then holds the bytes
  the first one held, and no byte of user memory outside the second buffer changes.\<close>

theorem posix_file_roundtrip:
  assumes "fd_file w i k nd off" and "user_range src (unat len)" and "user_range dst (unat len)"
    and "unat off + unat len \<le> FILE_CAP"
  shows "\<exists>w1 w2 w3. sys_write i src len envs w = Some (len, w1) \<and> sys_lseek i off 0 w1 = (off, w2)
    \<and> sys_read i dst len envs' w2 = Some (len, w3)
    \<and> user_bytes dst (unat len) (px_mem w3) = user_bytes src (unat len) (px_mem w)
    \<and> (\<forall>a. (\<forall>j. j < unat len \<longrightarrow> a \<noteq> dst + of_nat j) \<longrightarrow> px_mem w3 a = px_mem w a)"
proof -
  let ?d = "user_bytes src (unat len) (px_mem w)"
  have dl: "length ?d = unat len" by (simp add: user_bytes_def)
  obtain w1 where w1: "sys_write_loop i src len 0 envs w = Some (len, w1)" "px_mem w1 = px_mem w" "fd_file w1 i k nd (off + of_nat (unat len))"
    "px_chunk w1 nd = take (unat off) (px_chunk w nd) @ ?d @ drop (unat off + unat len) (px_chunk w nd)"
    "px_size w1 nd = (if 0 < unat len then max (px_size w nd) (unat off + unat len) else px_size w nd)"
    using write_loop_file [OF assms(1,2), of 0 envs] assms(4) by auto
  have o: "unat off < 2 ^ 63" using assms(4) by (simp add: FILE_CAP_def)
  obtain w2 where w2: "sys_lseek i off 0 w1 = (off, w2)" "fd_file w2 i k nd off" "px_mem w2 = px_mem w1"
      "fs_tmpfs (px_fs w2) = fs_tmpfs (px_fs w1)"
    by (rule lseek_file [OF w1(3) o]) blast
  have "\<exists>w3. sys_read_loop i dst len 0 envs' w2 = Some (len, w3) \<and> px_mem w3 = write_bytes dst ?d (px_mem w)"
  proof (cases "unat len = 0")
    case True
    then have "?d = []" "len = 0" by (simp_all add: user_bytes_def unat_eq_0)
    then show ?thesis using w1(2) w2(3) by (subst sys_read_loop.simps) (simp add: write_bytes_def)
  next
    case False
    let ?bs = "file_bytes (fs_tmpfs (px_fs w2)) nd"
    have sz: "unat off + unat len \<le> px_size w1 nd" using False w1(5) by simp
    have fl: "tmpfs_inv (fs_tmpfs (px_fs w))" "file_live (fs_tmpfs (px_fs w)) nd" using assms(1) by (simp_all add: fd_file_def)
    have "length (take (unat off) (px_chunk w nd)) = unat off" using file_bounds(3) [OF fl] assms(4) by simp
    then have "take (unat len) (drop (unat off) (px_chunk w1 nd)) = ?d" unfolding w1(4) using dl by simp
    moreover have "take (unat len) (drop (unat off) ?bs) = take (unat len) (drop (unat off) (px_chunk w1 nd))"
    proof -
      have "unat off + unat len \<le> unat (n_size (node_at (fs_tmpfs (px_fs w1)) nd))"
        using sz file_bounds(4) [of "fs_tmpfs (px_fs w1)" nd] w1(3) by (simp add: fd_file_def)
      then show ?thesis unfolding w2(4) file_bytes_def by (simp add: drop_take min_absorb1)
    qed
    ultimately have r: "take (unat len) (drop (unat off) ?bs) = ?d" by simp
    have "unat off \<le> length ?bs" using sz w2(4) by simp
    from read_loop_file [OF w2(2) assms(3) _ refl refl this, of 0 envs'] show ?thesis unfolding diff_zero r using dl w1(2) w2(3) by auto
  qed
  then obtain w3 where w3: "sys_read_loop i dst len 0 envs' w2 = Some (len, w3)" "px_mem w3 = write_bytes dst ?d (px_mem w)" by blast
  have "user_bytes dst (unat len) (px_mem w3) = ?d" using user_bytes_write [of ?d dst "px_mem w"] unsigned_less [of len] unfolding dl w3(2) by simp
  moreover have "px_mem w3 a = px_mem w a" if "\<forall>j. j < unat len \<longrightarrow> a \<noteq> dst + of_nat j" for a
    unfolding w3(2) using that dl by (intro write_bytes_outside) auto
  ultimately show ?thesis using w1(1) w2(1) w3(1) unfolding sys_write_def sys_read_def by blast
qed

definition demo_px :: posix_world where
  "demo_px = \<lparr>px_io = \<lparr>io_fs = fs_boot\<lparr>fs_tmpfs := snd (tmpfs_create 4 [97] File tmpfs_fresh),
      fs_fds := replicate MAX_TASKS (replicate MAX_FDS \<lparr>f_open = 1, f_cloexec = False\<rparr>),
      fs_opens := EMPTY_OPEN\<lparr>o_used := True, o_node := 8, o_offset := 16\<rparr> # replicate 127 EMPTY_OPEN\<rparr>, io_tty = demo_tty\<rparr>, px_mem = (\<lambda>a. ucast a)\<rparr>"

theorem posix_file_roundtrip_witness:
  "\<exists>w1 w2 w3. sys_write 3 0x1000 700 [] demo_px = Some (700, w1) \<and> sys_lseek 3 16 0 w1 = (16, w2)
     \<and> sys_read 3 0x2000 700 [] w2 = Some (700, w3)"
proof -
  let ?t = "snd (tmpfs_create 4 [97] File tmpfs_fresh)"
  have p: "node_live tmpfs_fresh 4" by (simp add: fresh_live)
  obtain n e where "8 < MAX_NODES" "n_used n" "n_kind n = File" "?t = put_node 8 n (tmpfs_fresh\<lparr>tf_pool_end := e\<rparr>)"
    by (rule tmpfs_create_Inr [OF tmpfs_inv_fresh demo_create_file])
  then have l: "file_live ?t 8" by (simp add: file_live_def node_live_def node_at_put)
  have inv: "tmpfs_inv ?t" by (rule tmpfs_create_inv [OF tmpfs_inv_fresh p])
  have "fd_file demo_px 3 0 8 16"
    unfolding fd_file_def using l inv by (simp add: demo_px_def demo_tty_def open_of_def fd_arg_def MAX_FDS_def MAX_TASKS_def EMPTY_OPEN_def)
  moreover have "user_range 0x1000 (unat (700 :: u64))" "user_range 0x2000 (unat (700 :: u64))" "unat (16 :: u64) + unat (700 :: u64) \<le> FILE_CAP"
    by (simp_all add: user_range_def PHYS_OFFSET_def FILE_CAP_def)
  ultimately show ?thesis using posix_file_roundtrip [of demo_px 3 0 8 16 "0x1000" 700 "0x2000" "[]" "[]"] by blast
qed

end
