(* ===== verification/Task.thy ===== *)
theory Task
  imports Fd Brk
begin

text \<open>
  The task table and the round-robin scheduler of \<^verbatim>\<open>src/kernel-core/src/task.rs\<close>. The installed \<open>TaskOps\<close> are a
  record of functions; those of its operations that only act on the machine (\<open>switch\<close>, the kernel
  entry stack, the reap log) are recorded as a list of calls. The tick counter and the stack pointer
  that \<open>switch\<close> saves are arguments. A task body is a code address.
\<close>

section \<open>State\<close>

definition STACK_PAGES :: u64 where "STACK_PAGES = 4"

datatype task_state = Unused | Ready | Sleeping u64 | Exited

record task =
  tk_state :: task_state
  tk_rsp :: u64
  tk_vm_root :: u64
  tk_kernel_stack_top :: u64
  tk_is_user :: bool
  tk_stack_phys :: u64
  tk_body :: u64
  tk_id :: u64
  tk_exit_code :: u64
  tk_heap_base :: u64

record task_ops =
  op_init_kernel_stack :: "u64 \<Rightarrow> u64 \<Rightarrow> u64"
  op_kernel_vm_root :: u64
  op_free_user_vm :: "u64 \<Rightarrow> frame_state \<Rightarrow> frame_state"
  op_phys_to_virt :: "u64 \<Rightarrow> u64"

datatype task_call = Switch u64 u64 | SetKernelStack u64 bool | OnReap u64

record kernel =
  k_tasks :: "task list"
  k_current :: nat
  k_next_id :: u64
  k_switches :: u64
  k_frames :: frame_state
  k_fs :: fs
  k_brk :: brk_state
  k_procs :: procs
  k_calls :: "task_call list"

definition EMPTY_TASK :: "u64 \<Rightarrow> task" where
  "EMPTY_TASK dead_body = \<lparr>tk_state = Unused, tk_rsp = 0, tk_vm_root = 0, tk_kernel_stack_top = 0, tk_is_user = False,
     tk_stack_phys = 0, tk_body = dead_body, tk_id = 0, tk_exit_code = 0, tk_heap_base = 0\<rparr>"

abbreviation task_at :: "kernel \<Rightarrow> nat \<Rightarrow> task" where
  "task_at k i \<equiv> k_tasks k ! i"

definition upd_task :: "nat \<Rightarrow> (task \<Rightarrow> task) \<Rightarrow> kernel \<Rightarrow> kernel" where
  "upd_task i f k = k\<lparr>k_tasks := (k_tasks k)[i := f (task_at k i)]\<rparr>"

definition task_call :: "task_call \<Rightarrow> kernel \<Rightarrow> kernel" where
  "task_call c k = k\<lparr>k_calls := k_calls k @ [c]\<rparr>"

section \<open>Registration\<close>

definition find_slot :: "kernel \<Rightarrow> nat option" where
  "find_slot k = find_below (\<lambda>i. tk_state (task_at k i) = Unused) MAX_TASKS"

definition has_free_slot :: "kernel \<Rightarrow> bool" where
  "has_free_slot k \<longleftrightarrow> find_slot k \<noteq> None"

definition user_tasks_remaining :: "kernel \<Rightarrow> bool" where
  "user_tasks_remaining k \<longleftrightarrow> list_ex (\<lambda>i. tk_is_user (task_at k i) \<and> tk_state (task_at k i) \<noteq> Unused) [0..<MAX_TASKS]"

definition task_init :: "task_ops \<Rightarrow> u64 \<Rightarrow> u64 \<Rightarrow> kernel \<Rightarrow> kernel" where
  "task_init ops dead_body boot_stack_top k =
     (let t = (EMPTY_TASK dead_body)\<lparr>tk_state := Ready, tk_vm_root := op_kernel_vm_root ops, tk_kernel_stack_top := boot_stack_top\<rparr>;
          k1 = task_call (SetKernelStack boot_stack_top False) (upd_task 0 (\<lambda>_. t) k) in
      k1\<lparr>k_procs := proc_init_boot (k_procs k1)\<rparr>)"

definition alloc_kernel_stack :: "task_ops \<Rightarrow> kernel \<Rightarrow> (u64 \<times> u64) option \<times> kernel" where
  "alloc_kernel_stack ops k =
     (case frame_alloc_contiguous (unat STACK_PAGES) (k_frames k) of
        (None, f) \<Rightarrow> (None, k\<lparr>k_frames := f\<rparr>)
      | (Some phys, f) \<Rightarrow> (Some (phys, op_phys_to_virt ops (phys + STACK_PAGES * FRAME_SIZE)), k\<lparr>k_frames := f\<rparr>))"

definition register :: "task \<Rightarrow> kernel \<Rightarrow> u64 option \<times> kernel" where
  "register t k =
     (case find_slot k of
        None \<Rightarrow> (None, k)
      | Some slot \<Rightarrow>
          let i = k_next_id k + 1;
              k1 = upd_task slot (\<lambda>_. t\<lparr>tk_id := i\<rparr>) (k\<lparr>k_next_id := i\<rparr>) in
          (Some i,
           if tk_is_user t
           then k1\<lparr>k_fs := fd_init_task slot (k_fs k1), k_brk := brk_init_task slot (tk_heap_base t) (k_brk k1),
                   k_procs := proc_init_task slot i 0 (k_procs k1)\<rparr>
           else k1))"

definition register_fork :: "nat \<Rightarrow> task \<Rightarrow> kernel \<Rightarrow> u64 option \<times> kernel" where
  "register_fork parent_slot t k =
     (case find_slot k of
        None \<Rightarrow> (None, k)
      | Some slot \<Rightarrow>
          let i = k_next_id k + 1;
              k1 = upd_task slot (\<lambda>_. t\<lparr>tk_id := i\<rparr>) (k\<lparr>k_next_id := i\<rparr>) in
          (Some i,
           k1\<lparr>k_fs := fd_clone_task parent_slot slot (k_fs k1), k_brk := brk_clone_task parent_slot slot (k_brk k1),
              k_procs := proc_clone_task parent_slot slot i (k_procs k1)\<rparr>))"

text \<open>\<open>None\<close> is the panic of one of the two \<open>expect\<close>s.\<close>

definition spawn :: "task_ops \<Rightarrow> u64 \<Rightarrow> kernel \<Rightarrow> (u64 \<times> kernel) option" where
  "spawn ops body k =
     (case alloc_kernel_stack ops k of
        (None, _) \<Rightarrow> None
      | (Some (phys, ktop), k1) \<Rightarrow>
          (case register \<lparr>tk_state = Ready, tk_rsp = op_init_kernel_stack ops ktop body, tk_vm_root = op_kernel_vm_root ops,
                          tk_kernel_stack_top = ktop, tk_is_user = False, tk_stack_phys = phys, tk_body = body,
                          tk_id = 0, tk_exit_code = 0, tk_heap_base = 0\<rparr> k1 of
             (None, _) \<Rightarrow> None
           | (Some i, k2) \<Rightarrow> Some (i, k2)))"

section \<open>Scheduling\<close>

definition current_body :: "kernel \<Rightarrow> u64" where "current_body k = tk_body (task_at k (k_current k))"
definition current_id :: "kernel \<Rightarrow> u64" where "current_id k = tk_id (task_at k (k_current k))"
definition current_slot :: "kernel \<Rightarrow> nat" where "current_slot k = k_current k"
definition current_vm_root :: "kernel \<Rightarrow> u64" where "current_vm_root k = tk_vm_root (task_at k (k_current k))"

definition set_current_vm_root :: "u64 \<Rightarrow> kernel \<Rightarrow> kernel" where
  "set_current_vm_root root k = upd_task (k_current k) (\<lambda>t. t\<lparr>tk_vm_root := root\<rparr>) k"

text \<open>One round of the loop of \<open>reap_exited\<close>.\<close>

definition reap_slot :: "task_ops \<Rightarrow> nat \<Rightarrow> nat \<Rightarrow> kernel \<Rightarrow> kernel" where
  "reap_slot ops current i k =
     (if i = current then k
      else if tk_state (task_at k i) \<noteq> Exited \<or> \<not> reapable i (k_procs k) then k
      else
        let t = task_at k i;
            k1 = k\<lparr>k_fs := close_all i (k_fs k), k_procs := proc_on_reap i (k_procs k),
                   k_frames := fold (\<lambda>p. frame_free (tk_stack_phys t + of_nat p * FRAME_SIZE)) [0..<unat STACK_PAGES] (k_frames k)\<rparr>;
            k2 = (if tk_is_user t \<and> tk_vm_root t \<noteq> 0 \<and> tk_vm_root t \<noteq> op_kernel_vm_root ops
                  then k1\<lparr>k_frames := op_free_user_vm ops (tk_vm_root t) (k_frames k1)\<rparr> else k1) in
        task_call (OnReap (tk_id t)) (upd_task i (\<lambda>t. t\<lparr>tk_state := Unused\<rparr>) k2))"

definition reap_exited :: "task_ops \<Rightarrow> nat \<Rightarrow> kernel \<Rightarrow> kernel" where
  "reap_exited ops current k = fold (reap_slot ops current) [0..<MAX_TASKS] k"

definition wake_task :: "u64 \<Rightarrow> task \<Rightarrow> task" where
  "wake_task now t = (case tk_state t of Sleeping wake_tick \<Rightarrow> if wake_tick \<le> now then t\<lparr>tk_state := Ready\<rparr> else t | _ \<Rightarrow> t)"

definition wake_due :: "u64 \<Rightarrow> kernel \<Rightarrow> kernel" where
  "wake_due now k = fold (\<lambda>i. upd_task i (wake_task now)) [0..<MAX_TASKS] k"

definition pick_next :: "nat \<Rightarrow> kernel \<Rightarrow> nat option" where
  "pick_next cur k =
     map_option (\<lambda>off. (cur + off) mod MAX_TASKS)
       (find_between 1 (MAX_TASKS + 1) (\<lambda>off. tk_state (task_at k ((cur + off) mod MAX_TASKS)) = Ready))"

text \<open>\<open>schedule\<close> up to the moment of the switch: \<open>sp\<close> is the stack pointer \<open>switch\<close> saves for the task that
  leaves the processor.\<close>

definition schedule :: "task_ops \<Rightarrow> u64 \<Rightarrow> u64 \<Rightarrow> kernel \<Rightarrow> kernel" where
  "schedule ops now sp k =
     (let cur = k_current k;
          k1 = wake_due now (reap_exited ops cur k) in
      case pick_next cur k1 of
        None \<Rightarrow> k1
      | Some n \<Rightarrow>
          if n = cur then k1
          else
            let k2 = k1\<lparr>k_switches := k_switches k1 + 1, k_current := n\<rparr>;
                k3 = task_call (SetKernelStack (tk_kernel_stack_top (task_at k2 n)) (tk_is_user (task_at k2 n))) k2 in
            task_call (Switch (tk_rsp (task_at k3 n)) (tk_vm_root (task_at k3 n))) (upd_task cur (\<lambda>t. t\<lparr>tk_rsp := sp\<rparr>) k3))"

definition sleep_ms :: "task_ops \<Rightarrow> u64 \<Rightarrow> u64 \<Rightarrow> u64 \<Rightarrow> u64 \<Rightarrow> kernel \<Rightarrow> kernel" where
  "sleep_ms ops ms now now' sp k =
     schedule ops now' sp (upd_task (k_current k) (\<lambda>t. t\<lparr>tk_state := Sleeping (now + max (ms * 100 div 1000) 1)\<rparr>) k)"

text \<open>\<open>exit_with\<close> up to its idle loop, whose rounds are calls of \<^const>\<open>schedule\<close>.\<close>

definition exit_with :: "u64 \<Rightarrow> kernel \<Rightarrow> kernel" where
  "exit_with status k =
     (let slot = k_current k;
          k1 = upd_task slot (\<lambda>t. t\<lparr>tk_state := Exited, tk_exit_code := status\<rparr>) k in
      k1\<lparr>k_procs := on_exit slot status (k_procs k1), k_fs := close_all slot (k_fs k1)\<rparr>)"

definition task_exit :: "u64 \<Rightarrow> kernel \<Rightarrow> kernel" where
  "task_exit code k = exit_with (status_exited code) k"

definition exit_signal :: "u32 \<Rightarrow> kernel \<Rightarrow> kernel" where
  "exit_signal sig k = exit_with (status_signaled sig) k"

section \<open>What a scheduling step does to the table\<close>

lemma upd_task_simps [simp]:
  "length (k_tasks (upd_task i f k)) = length (k_tasks k)" "k_current (upd_task i f k) = k_current k"
  "k_procs (upd_task i f k) = k_procs k" "k_next_id (upd_task i f k) = k_next_id k" "k_fs (upd_task i f k) = k_fs k"
  "k_frames (upd_task i f k) = k_frames k" "k_brk (upd_task i f k) = k_brk k"
  by (simp_all add: upd_task_def)

lemma upd_task_at: "i < length (k_tasks k) \<Longrightarrow> task_at (upd_task i f k) j = (if j = i then f (task_at k i) else task_at k j)"
  by (auto simp: upd_task_def)

lemma task_call_simps [simp]:
  "k_tasks (task_call c k) = k_tasks k" "k_current (task_call c k) = k_current k" "k_procs (task_call c k) = k_procs k"
  "k_next_id (task_call c k) = k_next_id k" "k_fs (task_call c k) = k_fs k" "k_frames (task_call c k) = k_frames k"
  by (simp_all add: task_call_def)

definition reaps :: "nat \<Rightarrow> nat \<Rightarrow> kernel \<Rightarrow> bool" where
  "reaps current i k \<longleftrightarrow> i \<noteq> current \<and> tk_state (task_at k i) = Exited \<and> reapable i (k_procs k)"

lemma reap_slot_simps [simp]:
  "length (k_tasks (reap_slot ops c i k)) = length (k_tasks k)" "k_current (reap_slot ops c i k) = k_current k"
  "k_next_id (reap_slot ops c i k) = k_next_id k"
  "k_procs (reap_slot ops c i k) = (if reaps c i k then proc_on_reap i (k_procs k) else k_procs k)"
  by (simp_all add: reap_slot_def reaps_def Let_def)

lemma reap_slot_at:
  assumes "i < length (k_tasks k)"
  shows "task_at (reap_slot ops c i k) j = (if j = i \<and> reaps c i k then (task_at k i)\<lparr>tk_state := Unused\<rparr> else task_at k j)"
  using assms by (auto simp: reap_slot_def reaps_def Let_def upd_task_at upd_task_def)

lemma reap_fold:
  assumes "\<forall>i\<in>set is. i < length (k_tasks k)"
  shows "length (k_tasks (fold (reap_slot ops c) is k)) = length (k_tasks k)" "k_current (fold (reap_slot ops c) is k) = k_current k"
    "k_next_id (fold (reap_slot ops c) is k) = k_next_id k"
    "tk_state (task_at k j) \<noteq> Exited \<or> j = c \<Longrightarrow> task_at (fold (reap_slot ops c) is k) j = task_at k j"
  using assms by (induction "is" arbitrary: k) (auto simp: reap_slot_at reaps_def)

lemma wake_fold:
  assumes "distinct is" "\<forall>i\<in>set is. i < length (k_tasks k)"
  shows "length (k_tasks (fold (\<lambda>i. upd_task i f) is k)) = length (k_tasks k)" "k_current (fold (\<lambda>i. upd_task i f) is k) = k_current k"
    "k_procs (fold (\<lambda>i. upd_task i f) is k) = k_procs k" "k_next_id (fold (\<lambda>i. upd_task i f) is k) = k_next_id k"
    "task_at (fold (\<lambda>i. upd_task i f) is k) j = (if j \<in> set is then f (task_at k j) else task_at k j)"
  using assms by (induction "is" arbitrary: k) (auto simp: upd_task_at)

lemma wake_due_at:
  assumes "length (k_tasks k) = MAX_TASKS" "j < MAX_TASKS"
  shows "task_at (wake_due now k) j = wake_task now (task_at k j)"
  using assms unfolding wake_due_def by (subst wake_fold(5)) auto

lemma wake_due_simps [simp]:
  "length (k_tasks k) = MAX_TASKS \<Longrightarrow> length (k_tasks (wake_due now k)) = MAX_TASKS"
  "length (k_tasks k) = MAX_TASKS \<Longrightarrow> k_current (wake_due now k) = k_current k"
  "length (k_tasks k) = MAX_TASKS \<Longrightarrow> k_procs (wake_due now k) = k_procs k"
  "length (k_tasks k) = MAX_TASKS \<Longrightarrow> k_next_id (wake_due now k) = k_next_id k"
  unfolding wake_due_def by (subst wake_fold; auto)+

text \<open>A task that may run at tick \<open>now\<close>.\<close>

definition due :: "u64 \<Rightarrow> task \<Rightarrow> bool" where
  "due now t \<longleftrightarrow> (case tk_state t of Ready \<Rightarrow> True | Sleeping wake \<Rightarrow> wake \<le> now | _ \<Rightarrow> False)"

lemma wake_task_ready [simp]: "tk_state (wake_task now t) = Ready \<longleftrightarrow> due now t"
  by (auto simp: wake_task_def due_def split: task_state.splits)

lemma wake_task_fields [simp]:
  "tk_id (wake_task now t) = tk_id t" "tk_is_user (wake_task now t) = tk_is_user t" "tk_stack_phys (wake_task now t) = tk_stack_phys t"
  "tk_state (wake_task now t) = Exited \<longleftrightarrow> tk_state t = Exited" "tk_state (wake_task now t) = Unused \<longleftrightarrow> tk_state t = Unused"
  "tk_exit_code (wake_task now t) = tk_exit_code t"
  by (auto simp: wake_task_def split: task_state.splits)

lemma due_reaped:
  assumes "length (k_tasks k) = MAX_TASKS" "j < MAX_TASKS"
  shows "due now (task_at (reap_exited ops c k) j) \<longleftrightarrow> due now (task_at k j)"
proof -
  have "due now (task_at (fold (reap_slot ops c) is k) j) \<longleftrightarrow> due now (task_at k j)"
    if "\<forall>i\<in>set is. i < length (k_tasks k)" for "is"
    using that
  proof (induction "is" arbitrary: k)
    case (Cons i "is")
    then have "due now (task_at (reap_slot ops c i k) j) \<longleftrightarrow> due now (task_at k j)"
      by (auto simp: reap_slot_at reaps_def due_def)
    with Cons show ?case by simp
  qed simp
  with assms show ?thesis by (simp add: reap_exited_def)
qed

lemma schedule_current:
  assumes "length (k_tasks k) = MAX_TASKS" "k_current k < MAX_TASKS"
  shows "k_current (schedule ops now sp k) =
    (case find_between 1 (MAX_TASKS + 1) (\<lambda>off. due now (task_at k ((k_current k + off) mod MAX_TASKS))) of
       None \<Rightarrow> k_current k | Some off \<Rightarrow> (k_current k + off) mod MAX_TASKS)"
    "length (k_tasks (schedule ops now sp k)) = MAX_TASKS"
proof -
  have m: "x mod MAX_TASKS < MAX_TASKS" for x by (simp add: MAX_TASKS_def)
  let ?r = "reap_exited ops (k_current k) k"
  have r: "length (k_tasks ?r) = MAX_TASKS" "k_current ?r = k_current k"
    using assms reap_fold(1,2) [of "[0..<MAX_TASKS]" k] by (simp_all add: reap_exited_def)
  let ?w = "wake_due now ?r"
  have "tk_state (task_at ?w ((k_current k + off) mod MAX_TASKS)) = Ready \<longleftrightarrow> due now (task_at k ((k_current k + off) mod MAX_TASKS))" for off
    by (simp only: wake_due_at [OF r(1) m] wake_task_ready due_reaped [OF assms(1) m])
  then have p: "pick_next (k_current k) ?w = map_option (\<lambda>off. (k_current k + off) mod MAX_TASKS)
      (find_between 1 (MAX_TASKS + 1) (\<lambda>off. due now (task_at k ((k_current k + off) mod MAX_TASKS))))"
    by (simp only: pick_next_def)
  show "length (k_tasks (schedule ops now sp k)) = MAX_TASKS"
    using r by (simp add: schedule_def Let_def split: option.split)
  show "k_current (schedule ops now sp k) =
    (case find_between 1 (MAX_TASKS + 1) (\<lambda>off. due now (task_at k ((k_current k + off) mod MAX_TASKS))) of
       None \<Rightarrow> k_current k | Some off \<Rightarrow> (k_current k + off) mod MAX_TASKS)"
    using r unfolding schedule_def Let_def p by (cases "find_between 1 (MAX_TASKS + 1) (\<lambda>off. due now (task_at k ((k_current k + off) mod MAX_TASKS)))")
      (simp_all del: find_between_Some find_between_None)
qed

section \<open>Fairness\<close>

text \<open>The running tasks act between the timer ticks: \<open>e\<close> is what happened before one call of \<open>schedule\<close>.\<close>

definition sched_run :: "task_ops \<Rightarrow> ((kernel \<Rightarrow> kernel) \<times> u64 \<times> u64) list \<Rightarrow> kernel \<Rightarrow> kernel" where
  "sched_run ops steps k = fold (\<lambda>(e, now, sp) k. schedule ops now sp (e k)) steps k"

definition table_ok :: "kernel \<Rightarrow> bool" where
  "table_ok k \<longleftrightarrow> length (k_tasks k) = MAX_TASKS \<and> k_current k < MAX_TASKS"

text \<open>What the other tasks and the task itself may do: anything that keeps the tables' shape and the
  running slot and leaves task \<open>i\<close> able to run at tick \<open>lo\<close>.\<close>

definition leaves_due :: "u64 \<Rightarrow> nat \<Rightarrow> (kernel \<Rightarrow> kernel) \<Rightarrow> bool" where
  "leaves_due lo i e \<longleftrightarrow> (\<forall>k. table_ok k \<and> due lo (task_at k i) \<longrightarrow>
     table_ok (e k) \<and> due lo (task_at (e k) i) \<and> k_current (e k) = k_current k)"

definition turn_distance :: "nat \<Rightarrow> nat \<Rightarrow> nat" where
  "turn_distance c i = (i + MAX_TASKS - c) mod MAX_TASKS"

lemma turn_distance_if:
  "c < MAX_TASKS \<Longrightarrow> i < MAX_TASKS \<Longrightarrow> turn_distance c i = (if c \<le> i then i - c else i + MAX_TASKS - c)"
proof -
  assume b: "c < MAX_TASKS" "i < MAX_TASKS"
  show ?thesis
  proof (cases "c \<le> i")
    case True
    then have e: "i + MAX_TASKS - c = MAX_TASKS + (i - c)" by simp
    have "(MAX_TASKS + (i - c)) mod MAX_TASKS = i - c" using b by (subst mod_add_self1) simp
    with True show ?thesis unfolding turn_distance_def e by simp
  next
    case False
    with b show ?thesis by (simp add: turn_distance_def)
  qed
qed

lemma turn_distance_0: "c < MAX_TASKS \<Longrightarrow> i < MAX_TASKS \<Longrightarrow> turn_distance c i = 0 \<longleftrightarrow> c = i"
  by (auto simp: turn_distance_if)

lemma turn_distance_step:
  assumes "c < MAX_TASKS" "i < MAX_TASKS" "off \<le> turn_distance c i"
  shows "turn_distance ((c + off) mod MAX_TASKS) i = turn_distance c i - off"
proof -
  note d = turn_distance_if [OF assms(1,2)]
  have "c + off < 2 * MAX_TASKS" using assms d by (auto split: if_splits)
  note m = mod_once [OF this]
  have "(c + off) mod MAX_TASKS < MAX_TASKS" using assms(1) by simp
  note d' = turn_distance_if [OF this assms(2)]
  show ?thesis using assms unfolding d' unfolding d m by (auto split: if_splits)
qed

lemma turn_distance_reach: "c < MAX_TASKS \<Longrightarrow> i < MAX_TASKS \<Longrightarrow> (c + turn_distance c i) mod MAX_TASKS = i"
  by (simp add: turn_distance_if)

lemma due_mono: "due lo t \<Longrightarrow> lo \<le> now \<Longrightarrow> due now t"
  by (auto simp: due_def split: task_state.splits)

lemma schedule_keeps_due:
  assumes "table_ok k" "i < MAX_TASKS" "due lo (task_at k i)"
  shows "due lo (task_at (schedule ops now sp k) i)"
proof -
  let ?r = "reap_exited ops (k_current k) k"
  have l: "length (k_tasks k) = MAX_TASKS" "k_current k < MAX_TASKS" using assms(1) by (simp_all add: table_ok_def)
  have r: "length (k_tasks ?r) = MAX_TASKS" "k_current ?r = k_current k"
    using l reap_fold(1,2) [of "[0..<MAX_TASKS]" k] by (simp_all add: reap_exited_def)
  have d: "due lo (task_at (wake_due now ?r) i)"
    using due_reaped [OF l(1) assms(2), of lo ops "k_current k"] assms(3)
    by (auto simp: wake_due_at [OF r(1) assms(2)] wake_task_def due_def split: task_state.splits)
  have "due lo (t\<lparr>tk_rsp := sp\<rparr>) = due lo t" for t by (simp add: due_def)
  then show ?thesis using d r l unfolding schedule_def Let_def
    by (auto simp: upd_task_def nth_list_update split: option.split)
qed

lemma schedule_turn:
  assumes "table_ok k" "i < MAX_TASKS" "due now (task_at k i)" "k_current k \<noteq> i"
  shows "table_ok (schedule ops now sp k)"
    "turn_distance (k_current (schedule ops now sp k)) i < turn_distance (k_current k) i"
proof -
  let ?c = "k_current k" and ?P = "\<lambda>off. due now (task_at k ((k_current k + off) mod MAX_TASKS))"
  have l: "length (k_tasks k) = MAX_TASKS" "?c < MAX_TASKS" using assms(1) by (simp_all add: table_ok_def)
  note s = schedule_current [OF l, of ops now sp]
  have dpos: "0 < turn_distance ?c i" using turn_distance_0 [OF l(2) assms(2)] assms(4) by simp
  have dle: "turn_distance ?c i < MAX_TASKS" by (simp add: turn_distance_def MAX_TASKS_def)
  have P: "?P (turn_distance ?c i)" using turn_distance_reach [OF l(2) assms(2)] assms(3) by simp
  have rng: "1 \<le> turn_distance ?c i \<and> turn_distance ?c i < MAX_TASKS + 1" using dpos dle by linarith
  obtain off where off: "find_between 1 (MAX_TASKS + 1) ?P = Some off"
  proof (cases "find_between 1 (MAX_TASKS + 1) ?P")
    case None
    with rng P show thesis unfolding find_between_None by blast
  qed (rule that)
  then have "1 \<le> off" "\<forall>j. 1 \<le> j \<and> j < off \<longrightarrow> \<not> ?P j" unfolding find_between_Some by blast+
  then have o: "1 \<le> off" "off \<le> turn_distance ?c i" using P rng by (blast, meson leI)
  then show "turn_distance (k_current (schedule ops now sp k)) i < turn_distance ?c i"
    using turn_distance_step [OF l(2) assms(2) o(2)] dpos unfolding s(1) off option.case by simp
  show "table_ok (schedule ops now sp k)"
    using s(2) l unfolding table_ok_def s(1) off option.case by (simp add: MAX_TASKS_def)
qed

text \<open>C2. Round-robin scheduling is fair: whatever the other tasks do between the calls of \<open>schedule\<close> - sleep,
  exit, fork, fill the table - a task that stays runnable from tick \<open>lo\<close> on gets the processor within
  fifteen calls made at or after that tick. A sleeping task counts as runnable once its wake tick has come.\<close>

theorem schedule_fair:
  assumes "table_ok k" and "i < MAX_TASKS" and "due lo (task_at k i)"
    and "\<And>e now sp. (e, now, sp) \<in> set steps \<Longrightarrow> leaves_due lo i e \<and> lo \<le> now"
    and "MAX_TASKS - 1 \<le> length steps"
  shows "\<exists>n<MAX_TASKS. k_current (sched_run ops (take n steps) k) = i"
proof -
  have "\<exists>n\<le>d. k_current (sched_run ops (take n steps) k) = i"
    if "turn_distance (k_current k) i \<le> d" "d \<le> length steps" "table_ok k" "due lo (task_at k i)"
      "\<And>e now sp. (e, now, sp) \<in> set steps \<Longrightarrow> leaves_due lo i e \<and> lo \<le> now" for d k steps
    using that
  proof (induction d arbitrary: k steps)
    case 0
    then show ?case using turn_distance_0 [OF _ assms(2), of "k_current k"] by (auto simp: sched_run_def table_ok_def)
  next
    case (Suc d)
    show ?case
    proof (cases "k_current k = i")
      case True
      then show ?thesis by (intro exI [of _ 0]) (simp add: sched_run_def)
    next
      case False
      obtain e now sp rest where s: "steps = (e, now, sp) # rest" using Suc.prems(2) by (cases steps) auto
      with Suc.prems(5) have le: "leaves_due lo i e" "lo \<le> now" by auto
      let ?k = "e k"
      have k1: "table_ok ?k" "due lo (task_at ?k i)" "k_current ?k = k_current k"
        using le(1) Suc.prems(3,4) by (auto simp: leaves_due_def)
      then have t: "table_ok (schedule ops now sp ?k)" "turn_distance (k_current (schedule ops now sp ?k)) i \<le> d"
        using schedule_turn [OF k1(1) assms(2) due_mono [OF k1(2) le(2)], of ops sp] False Suc.prems(1) by auto
      have "\<exists>n\<le>d. k_current (sched_run ops (take n rest) (schedule ops now sp ?k)) = i"
        using Suc.prems(2,5) s by (intro Suc.IH t schedule_keeps_due [OF k1(1) assms(2) k1(2)]) auto
      then obtain n where "n \<le> d" "k_current (sched_run ops (take n rest) (schedule ops now sp ?k)) = i" by blast
      then show ?thesis using s by (intro exI [of _ "Suc n"]) (simp add: sched_run_def)
    qed
  qed
  moreover have "turn_distance (k_current k) i \<le> MAX_TASKS - 1"
    unfolding turn_distance_def by (metis MAX_TASKS_def One_nat_def Suc_pred mod_less_divisor less_Suc_eq_le zero_less_numeral)
  ultimately obtain n where "n \<le> MAX_TASKS - 1" "k_current (sched_run ops (take n steps) k) = i"
    using assms(1,3,4,5) by blast
  then show ?thesis by (intro exI [of _ n]) (simp add: MAX_TASKS_def)
qed

text \<open>Slot 3 is due at tick 7; each tick the running task only computes.\<close>

definition demo_ops :: task_ops where
  "demo_ops = \<lparr>op_init_kernel_stack = (\<lambda>t _. t - 56), op_kernel_vm_root = 0x1000, op_free_user_vm = (\<lambda>_ f. f),
     op_phys_to_virt = (\<lambda>p. p + PHYS_OFFSET)\<rparr>"

definition demo_kernel :: kernel where
  "demo_kernel = \<lparr>k_tasks = replicate MAX_TASKS ((EMPTY_TASK 0)\<lparr>tk_state := Sleeping 7\<rparr>), k_current = 5, k_next_id = 0, k_switches = 0,
     k_frames = demo_frames, k_fs = fs_boot, k_brk = brk_boot, k_procs = procs_boot, k_calls = []\<rparr>"

theorem schedule_fair_witness:
  "\<exists>n<MAX_TASKS. k_current (sched_run demo_ops (take n (replicate 15 (\<lambda>k. k, 9, 0))) demo_kernel) = 3"
proof (rule schedule_fair [where lo = 8])
  show "table_ok demo_kernel" "due 8 (task_at demo_kernel 3)" "3 < MAX_TASKS"
    by (simp_all add: table_ok_def demo_kernel_def due_def MAX_TASKS_def)
  show "MAX_TASKS - 1 \<le> length (replicate 15 (\<lambda>k :: kernel. k, 9 :: u64, 0 :: u64))" by (simp add: MAX_TASKS_def)
  show "leaves_due 8 3 e \<and> 8 \<le> now" if "(e, now, sp) \<in> set (replicate 15 (\<lambda>k. k, 9, 0))" for e and now sp :: u64
    using that by (auto simp: leaves_due_def)
qed

section \<open>The task table and the process table\<close>

definition proc_of :: "kernel \<Rightarrow> nat \<Rightarrow> proc" where
  "proc_of k i = k_procs k ! i"

text \<open>Slot \<open>i\<close>: a user task has a live process entry with its id, which is alive until the task exits; no other slot
  but the boot context's has one.\<close>

definition slot_agrees :: "nat \<Rightarrow> task \<Rightarrow> proc \<Rightarrow> bool" where
  "slot_agrees i t p \<longleftrightarrow>
     (tk_is_user t \<and> tk_state t \<noteq> Unused \<longrightarrow> pr_used p \<and> pr_id p = tk_id t \<and> (pr_alive p \<longleftrightarrow> tk_state t \<noteq> Exited))
     \<and> (pr_used p \<longrightarrow> i = 0 \<or> tk_is_user t \<and> tk_state t \<noteq> Unused)"

definition ids_ok :: "kernel \<Rightarrow> bool" where
  "ids_ok k \<longleftrightarrow> (\<forall>i<MAX_TASKS. tk_state (task_at k i) \<noteq> Unused \<longrightarrow> tk_id (task_at k i) \<le> k_next_id k)
     \<and> (\<forall>i<MAX_TASKS. \<forall>j<MAX_TASKS. tk_state (task_at k i) \<noteq> Unused \<and> tk_state (task_at k j) \<noteq> Unused
          \<and> tk_id (task_at k i) = tk_id (task_at k j) \<longrightarrow> i = j)"

definition kernel_inv :: "kernel \<Rightarrow> bool" where
  "kernel_inv k \<longleftrightarrow> table_ok k \<and> length (k_procs k) = MAX_TASKS \<and> ids_ok k \<and> tk_state (task_at k (k_current k)) \<noteq> Unused
     \<and> (\<forall>i<MAX_TASKS. slot_agrees i (task_at k i) (proc_of k i))"

text \<open>The signal, group and wait operations of the process table keep who is in it.\<close>

definition same_ident :: "procs \<Rightarrow> procs \<Rightarrow> bool" where
  "same_ident ps ps' \<longleftrightarrow> length ps' = length ps \<and> (\<forall>i<length ps. pr_used (ps' ! i) = pr_used (ps ! i)
     \<and> pr_alive (ps' ! i) = pr_alive (ps ! i) \<and> pr_id (ps' ! i) = pr_id (ps ! i) \<and> pr_ppid (ps' ! i) = pr_ppid (ps ! i)
     \<and> pr_exit_status (ps' ! i) = pr_exit_status (ps ! i))"

lemma same_ident_refl [intro]: "same_ident ps ps"
  by (simp add: same_ident_def)

lemma same_ident_trans: "same_ident ps qs \<Longrightarrow> same_ident qs rs \<Longrightarrow> same_ident ps rs"
  by (simp add: same_ident_def)

lemma same_ident_upd:
  assumes "\<And>p. pr_used (f p) = pr_used p \<and> pr_alive (f p) = pr_alive p \<and> pr_id (f p) = pr_id p \<and> pr_ppid (f p) = pr_ppid p
    \<and> pr_exit_status (f p) = pr_exit_status p"
  shows "same_ident ps (upd_proc s f ps)"
  using assms by (cases "s < length ps") (auto simp: same_ident_def upd_proc_def nth_list_update)

inductive kernel_step :: "task_ops \<Rightarrow> kernel \<Rightarrow> kernel \<Rightarrow> bool" for ops where
  register: "tk_state t = Ready \<Longrightarrow> k_next_id k \<noteq> - 1 \<Longrightarrow> kernel_step ops k (snd (register t k))"
| fork: "tk_state t = Ready \<Longrightarrow> tk_is_user t \<Longrightarrow> tk_is_user (task_at k (k_current k)) \<Longrightarrow> k_next_id k \<noteq> - 1 \<Longrightarrow>
    kernel_step ops k (snd (register_fork (k_current k) t k))"
| schedule: "kernel_step ops k (schedule ops now sp k)"
| sleep: "tk_state (task_at k (k_current k)) \<noteq> Exited \<Longrightarrow> kernel_step ops k (sleep_ms ops ms now now' sp k)"
| exit: "tk_state (task_at k (k_current k)) \<noteq> Exited \<Longrightarrow> kernel_step ops k (exit_with status k)"
| exec: "kernel_step ops k (set_current_vm_root root k)"
| other: "same_ident (k_procs k) ps \<Longrightarrow> kernel_step ops k (k\<lparr>k_procs := ps, k_fs := s, k_brk := b, k_frames := f\<rparr>)"

inductive kernel_reach :: "task_ops \<Rightarrow> kernel \<Rightarrow> bool" for ops where
  boot: "k_procs k = procs_boot \<Longrightarrow> k_tasks k = replicate MAX_TASKS (EMPTY_TASK db) \<Longrightarrow> k_current k = 0 \<Longrightarrow>
    kernel_reach ops (task_init ops db stk k)"
| step: "kernel_reach ops k \<Longrightarrow> kernel_step ops k k' \<Longrightarrow> kernel_reach ops k'"

lemma kernel_inv_D:
  assumes "kernel_inv k"
  shows "length (k_tasks k) = MAX_TASKS" "k_current k < MAX_TASKS" "length (k_procs k) = MAX_TASKS"
    "tk_state (task_at k (k_current k)) \<noteq> Unused" "i < MAX_TASKS \<Longrightarrow> slot_agrees i (task_at k i) (proc_of k i)"
    "i < MAX_TASKS \<Longrightarrow> tk_state (task_at k i) \<noteq> Unused \<Longrightarrow> tk_id (task_at k i) \<le> k_next_id k"
    "i < MAX_TASKS \<Longrightarrow> j < MAX_TASKS \<Longrightarrow> tk_state (task_at k i) \<noteq> Unused \<Longrightarrow> tk_state (task_at k j) \<noteq> Unused \<Longrightarrow>
      tk_id (task_at k i) = tk_id (task_at k j) \<Longrightarrow> i = j"
  using assms unfolding kernel_inv_def table_ok_def ids_ok_def by blast+

lemma kernel_inv_I:
  assumes "length (k_tasks k) = MAX_TASKS" "k_current k < MAX_TASKS" "length (k_procs k) = MAX_TASKS"
    "tk_state (task_at k (k_current k)) \<noteq> Unused" "\<And>i. i < MAX_TASKS \<Longrightarrow> slot_agrees i (task_at k i) (proc_of k i)"
    "\<And>i. i < MAX_TASKS \<Longrightarrow> tk_state (task_at k i) \<noteq> Unused \<Longrightarrow> tk_id (task_at k i) \<le> k_next_id k"
    "\<And>i j. i < MAX_TASKS \<Longrightarrow> j < MAX_TASKS \<Longrightarrow> tk_state (task_at k i) \<noteq> Unused \<Longrightarrow> tk_state (task_at k j) \<noteq> Unused \<Longrightarrow>
      tk_id (task_at k i) = tk_id (task_at k j) \<Longrightarrow> i = j"
  shows "kernel_inv k"
  using assms unfolding kernel_inv_def table_ok_def ids_ok_def by blast

text \<open>Steps that rewrite one task record without its identity.\<close>

lemma kernel_inv_update:
  assumes "kernel_inv k" "length (k_tasks k') = MAX_TASKS" "length (k_procs k') = MAX_TASKS" "k_current k' < MAX_TASKS" "k_next_id k' = k_next_id k"
    "tk_state (task_at k' (k_current k')) \<noteq> Unused"
    "\<And>i. i < MAX_TASKS \<Longrightarrow> slot_agrees i (task_at k i) (proc_of k i) \<Longrightarrow> slot_agrees i (task_at k' i) (proc_of k' i)
      \<and> tk_id (task_at k' i) = tk_id (task_at k i) \<and> (tk_state (task_at k' i) \<noteq> Unused \<longrightarrow> tk_state (task_at k i) \<noteq> Unused)"
  shows "kernel_inv k'"
proof (rule kernel_inv_I)
  note d = kernel_inv_D [OF assms(1)]
  have h: "slot_agrees i (task_at k' i) (proc_of k' i)" "tk_id (task_at k' i) = tk_id (task_at k i)"
    "tk_state (task_at k' i) \<noteq> Unused \<Longrightarrow> tk_state (task_at k i) \<noteq> Unused" if "i < MAX_TASKS" for i
    using assms(7) [OF that d(5) [OF that]] by blast+
  show "slot_agrees i (task_at k' i) (proc_of k' i)" if "i < MAX_TASKS" for i by (rule h(1) [OF that])
  show "tk_id (task_at k' i) \<le> k_next_id k'" if "i < MAX_TASKS" "tk_state (task_at k' i) \<noteq> Unused" for i
    unfolding h(2) [OF that(1)] assms(5) by (rule d(6) [OF that(1) h(3) [OF that]])
  show "i = j" if "i < MAX_TASKS" "j < MAX_TASKS" "tk_state (task_at k' i) \<noteq> Unused" "tk_state (task_at k' j) \<noteq> Unused"
    "tk_id (task_at k' i) = tk_id (task_at k' j)" for i j
    using that(5) unfolding h(2) [OF that(1)] h(2) [OF that(2)]
    by (rule d(7) [OF that(1,2) h(3) [OF that(1,3)] h(3) [OF that(2,4)]])
qed (fact assms)+

lemma find_slot_D: "find_slot k = Some s \<Longrightarrow> s < MAX_TASKS \<and> tk_state (task_at k s) = Unused"
  by (simp add: find_slot_def)

lemma unused_id_fresh:
  assumes "kernel_inv k" "k_next_id k \<noteq> - 1" "i < MAX_TASKS" "tk_state (task_at k i) \<noteq> Unused"
  shows "tk_id (task_at k i) < k_next_id k + 1" "tk_id (task_at k i) \<noteq> k_next_id k + 1"
proof -
  have "k_next_id k < k_next_id k + 1" by (rule u64_less_succ [OF assms(2)])
  then show "tk_id (task_at k i) < k_next_id k + 1" using kernel_inv_D(6) [OF assms(1,3,4)] by simp
  then show "tk_id (task_at k i) \<noteq> k_next_id k + 1" by simp
qed

lemma kernel_inv_new:
  assumes inv: "kernel_inv k" and s: "find_slot k = Some s" and n: "k_next_id k \<noteq> - 1"
    and k': "k_tasks k' = (k_tasks k)[s := t]" "k_current k' = k_current k" "k_next_id k' = k_next_id k + 1" "length (k_procs k') = MAX_TASKS"
    and t: "tk_id t = k_next_id k + 1" "slot_agrees s t (proc_of k' s)"
    and other: "\<And>i. i < MAX_TASKS \<Longrightarrow> i \<noteq> s \<Longrightarrow> proc_of k' i = proc_of k i"
  shows "kernel_inv k'"
proof -
  note d = kernel_inv_D [OF inv] and sl = find_slot_D [OF s]
  have at: "task_at k' j = (if j = s then t else task_at k j)" for j using d(1) sl by (simp add: k'(1) nth_list_update)
  have cur: "k_current k \<noteq> s" using d(4) sl by auto
  show ?thesis
  proof (rule kernel_inv_I)
    show "length (k_tasks k') = MAX_TASKS" "k_current k' < MAX_TASKS" "length (k_procs k') = MAX_TASKS" using d k' by simp_all
    show "tk_state (task_at k' (k_current k')) \<noteq> Unused" using d(4) cur by (simp add: at k'(2))
    show "slot_agrees i (task_at k' i) (proc_of k' i)" if "i < MAX_TASKS" for i
      using t(2) d(5) [OF that] other [OF that] by (auto simp: at)
    show "tk_id (task_at k' i) \<le> k_next_id k'" if "i < MAX_TASKS" "tk_state (task_at k' i) \<noteq> Unused" for i
    proof (cases "i = s")
      case False
      with that have "tk_state (task_at k i) \<noteq> Unused" by (simp add: at)
      from unused_id_fresh(1) [OF inv n that(1) this] show ?thesis unfolding at k'(3) using False by simp
    qed (simp add: at t(1) k'(3))
    show "i = j" if "i < MAX_TASKS" "j < MAX_TASKS" "tk_state (task_at k' i) \<noteq> Unused" "tk_state (task_at k' j) \<noteq> Unused"
      "tk_id (task_at k' i) = tk_id (task_at k' j)" for i j
    proof -
      have o: "tk_id (task_at k x) \<noteq> k_next_id k + 1" "tk_state (task_at k x) \<noteq> Unused"
        if "x < MAX_TASKS" "tk_state (task_at k' x) \<noteq> Unused" "x \<noteq> s" for x
        using that unused_id_fresh(2) [OF inv n that(1)] by (simp_all only: at if_False not_False_eq_True simp_thms)
      show ?thesis
      proof (cases "i = s \<or> j = s")
        case True
        then show ?thesis using o(1) [OF that(1,3)] o(1) [OF that(2,4)] that(5) t(1) unfolding at by (metis (full_types))
      next
        case False
        with that(5) have "tk_id (task_at k i) = tk_id (task_at k j)" by (simp only: at) simp
        with False show ?thesis by (intro d(7) [OF that(1,2) o(2) [OF that(1,3)] o(2) [OF that(2,4)]]) simp_all
      qed
    qed
  qed
qed

lemma proc_init_task_at:
  assumes "s < length ps"
  shows "length (proc_init_task s i pp ps) = length ps" "j \<noteq> s \<Longrightarrow> proc_init_task s i pp ps ! j = ps ! j"
    "pr_used (proc_init_task s i pp ps ! s) \<and> pr_alive (proc_init_task s i pp ps ! s) \<and> pr_id (proc_init_task s i pp ps ! s) = i"
  using assms by (simp_all add: proc_init_task_def upd_proc_def Let_def EMPTY_PROC_def)

lemma register_inv [keeps]:
  assumes inv: "kernel_inv k" and t: "tk_state t = Ready" and n: "k_next_id k \<noteq> - 1"
  shows "kernel_inv (snd (register t k))"
proof (cases "find_slot k")
  case None
  with inv show ?thesis by (simp add: register_def)
next
  case (Some s)
  note d = kernel_inv_D [OF inv] and sl = find_slot_D [OF Some]
  have sp: "s < length (k_procs k)" using sl d(3) by simp
  have r: "snd (register t k) = (let k1 = k\<lparr>k_next_id := k_next_id k + 1, k_tasks := (k_tasks k)[s := t\<lparr>tk_id := k_next_id k + 1\<rparr>]\<rparr> in
      if tk_is_user t then k1\<lparr>k_fs := fd_init_task s (k_fs k1), k_brk := brk_init_task s (tk_heap_base t) (k_brk k1),
        k_procs := proc_init_task s (k_next_id k + 1) 0 (k_procs k1)\<rparr> else k1)"
    by (simp add: register_def Some Let_def upd_task_def)
  have "pr_used (k_procs k ! s) \<longrightarrow> s = 0" using d(5) [of s] sl by (auto simp: slot_agrees_def proc_of_def)
  then show ?thesis using proc_init_task_at [OF sp] t sl d(3) unfolding r Let_def
    by (intro kernel_inv_new [OF inv Some n]) (auto simp: proc_of_def slot_agrees_def)
qed

lemma register_fork_inv [keeps]:
  assumes inv: "kernel_inv k" and t: "tk_state t = Ready" "tk_is_user t" and p: "tk_is_user (task_at k (k_current k))"
    and n: "k_next_id k \<noteq> - 1"
  shows "kernel_inv (snd (register_fork (k_current k) t k))"
proof (cases "find_slot k")
  case None
  with inv show ?thesis by (simp add: register_fork_def)
next
  case (Some s)
  note d = kernel_inv_D [OF inv] and sl = find_slot_D [OF Some]
  have u: "pr_used (k_procs k ! k_current k)" using d(5) [OF d(2)] d(4) p by (auto simp: slot_agrees_def proc_of_def)
  have sp: "s < length (k_procs k)" using sl d(3) by simp
  have r: "snd (register_fork (k_current k) t k) = k\<lparr>k_next_id := k_next_id k + 1, k_tasks := (k_tasks k)[s := t\<lparr>tk_id := k_next_id k + 1\<rparr>],
        k_fs := fd_clone_task (k_current k) s (k_fs k), k_brk := brk_clone_task (k_current k) s (k_brk k),
        k_procs := proc_clone_task (k_current k) s (k_next_id k + 1) (k_procs k)\<rparr>"
    by (simp add: register_fork_def Some Let_def upd_task_def)
  show ?thesis using u t sp d(3) unfolding r
    by (intro kernel_inv_new [OF inv Some n]) (auto simp: proc_of_def slot_agrees_def proc_clone_task_def Let_def)
qed

lemma reap_slot_inv [keeps]:
  assumes inv: "kernel_inv k" and i: "i < MAX_TASKS"
  shows "kernel_inv (reap_slot ops (k_current k) i k)"
proof -
  note d = kernel_inv_D [OF inv]
  have at: "task_at (reap_slot ops (k_current k) i k) j = (if j = i \<and> reaps (k_current k) i k then (task_at k i)\<lparr>tk_state := Unused\<rparr> else task_at k j)" for j
    using i d(1) by (intro reap_slot_at) simp
  show ?thesis
    using d i by (intro kernel_inv_update [OF inv])
      (auto simp: at reaps_def proc_of_def proc_on_reap_def slot_agrees_def EMPTY_PROC_def nth_list_update)
qed

lemma reap_exited_inv [keeps]:
  assumes "kernel_inv k" shows "kernel_inv (reap_exited ops (k_current k) k)"
proof -
  have "kernel_inv (fold (reap_slot ops (k_current k)) is k)" if "\<forall>i\<in>set is. i < MAX_TASKS" for "is"
    using that assms
  proof (induction "is" arbitrary: k)
    case (Cons i "is")
    then have "kernel_inv (reap_slot ops (k_current k) i k)" by (simp add: reap_slot_inv)
    from Cons.IH [OF _ this] Cons.prems(1) show ?case by simp
  qed simp
  then show ?thesis by (simp add: reap_exited_def)
qed

lemma wake_due_inv [keeps]:
  assumes inv: "kernel_inv k" shows "kernel_inv (wake_due now k)"
  using kernel_inv_D [OF inv] by (intro kernel_inv_update [OF inv]) (auto simp: wake_due_at proc_of_def slot_agrees_def)

lemma slot_agrees_rsp [simp]: "slot_agrees i (t\<lparr>tk_rsp := sp\<rparr>) p = slot_agrees i t p"
  by (simp add: slot_agrees_def)

lemma kernel_inv_switch:
  assumes inv: "kernel_inv k" and n: "n < MAX_TASKS" "tk_state (task_at k n) = Ready" and c: "c < MAX_TASKS"
    and k': "k_tasks k' = (k_tasks k)[c := (task_at k c)\<lparr>tk_rsp := sp\<rparr>]" "k_current k' = n" "k_procs k' = k_procs k" "k_next_id k' = k_next_id k"
  shows "kernel_inv k'"
proof -
  note d = kernel_inv_D(1,3) [OF inv]
  have "task_at k' i = (if i = c then (task_at k c)\<lparr>tk_rsp := sp\<rparr> else task_at k i)" for i
    using c d by (simp add: k'(1) nth_list_update)
  with d n k'(2-4) show ?thesis by (intro kernel_inv_update [OF inv]) (auto simp: proc_of_def k'(1))
qed

lemma schedule_inv [keeps]:
  assumes inv: "kernel_inv k" shows "kernel_inv (schedule ops now sp k)"
proof -
  let ?r = "reap_exited ops (k_current k) k"
  let ?k = "wake_due now ?r"
  have ri: "kernel_inv ?r" by (rule reap_exited_inv [OF inv])
  have ki: "kernel_inv ?k" by (rule wake_due_inv [OF ri])
  note d = kernel_inv_D [OF ki]
  have c: "k_current ?k = k_current k" using kernel_inv_D(1) [OF ri] kernel_inv_D(1) [OF inv] reap_fold(2) [of "[0..<MAX_TASKS]" k]
    by (simp add: reap_exited_def)
  show ?thesis
  proof (cases "pick_next (k_current k) ?k")
    case None
    with ki show ?thesis by (simp add: schedule_def Let_def)
  next
    case (Some n)
    then have n: "n < MAX_TASKS" "tk_state (task_at ?k n) = Ready" by (auto simp: pick_next_def MAX_TASKS_def)
    show ?thesis
    proof (cases "n = k_current k")
      case True
      with Some ki show ?thesis by (simp add: schedule_def Let_def)
    next
      case False
      with Some show ?thesis
        by (intro kernel_inv_switch [OF ki n kernel_inv_D(2) [OF inv]]) (simp_all add: schedule_def Let_def task_call_def upd_task_def)
    qed
  qed
qed

lemma on_exit_at:
  assumes "length ps = MAX_TASKS" "s < MAX_TASKS"
  shows "length (on_exit s st ps) = MAX_TASKS"
    "pr_used (on_exit s st ps ! i) = pr_used (ps ! i)" "pr_id (on_exit s st ps ! i) = pr_id (ps ! i)" "pr_ppid (on_exit s st ps ! i) = pr_ppid (ps ! i)"
    "pr_alive (on_exit s st ps ! i) = (if i = s \<and> pr_used (ps ! s) then False else pr_alive (ps ! i))"
  using assms by (auto simp: on_exit_def Let_def upd_proc_def nth_list_update slot_of_id_def split: option.split)

lemma exit_with_inv [keeps]:
  assumes inv: "kernel_inv k" shows "kernel_inv (exit_with status k)"
proof -
  note d = kernel_inv_D [OF inv]
  show ?thesis
    using d on_exit_at [OF d(3,2), of status]
    by (intro kernel_inv_update [OF inv]) (auto simp: exit_with_def Let_def upd_task_at proc_of_def slot_agrees_def)
qed

lemma upd_current_inv:
  assumes inv: "kernel_inv k" and f: "\<And>t. tk_id (f t) = tk_id t \<and> tk_is_user (f t) = tk_is_user t"
    "tk_state (f (task_at k (k_current k))) \<noteq> Unused"
    "tk_state (f (task_at k (k_current k))) = Exited \<longleftrightarrow> tk_state (task_at k (k_current k)) = Exited"
  shows "kernel_inv (upd_task (k_current k) f k)"
  using kernel_inv_D [OF inv] f by (intro kernel_inv_update [OF inv]) (auto simp: upd_task_at proc_of_def slot_agrees_def)

lemma sleep_ms_inv [keeps]:
  assumes inv: "kernel_inv k" and "tk_state (task_at k (k_current k)) \<noteq> Exited"
  shows "kernel_inv (sleep_ms ops ms now now' sp k)"
  using assms unfolding sleep_ms_def by (intro schedule_inv upd_current_inv) auto

lemma other_inv:
  assumes inv: "kernel_inv k" and s: "same_ident (k_procs k) ps"
  shows "kernel_inv (k\<lparr>k_procs := ps, k_fs := x, k_brk := b, k_frames := f\<rparr>)"
  using kernel_inv_D [OF inv] s by (intro kernel_inv_update [OF inv]) (auto simp: same_ident_def proc_of_def slot_agrees_def)

lemma kernel_step_inv: "kernel_step ops k k' \<Longrightarrow> kernel_inv k \<Longrightarrow> kernel_inv k'"
proof (induction rule: kernel_step.induct)
  case (exec k root)
  then show ?case using kernel_inv_D(4) [OF exec] unfolding set_current_vm_root_def by (intro upd_current_inv) auto
qed (simp_all add: keeps other_inv)

lemma kernel_reach_inv: "kernel_reach ops k \<Longrightarrow> kernel_inv k"
proof (induction rule: kernel_reach.induct)
  case (boot k db stk)
  show ?case
    using boot by (intro kernel_inv_I) (auto simp: task_init_def Let_def upd_task_def EMPTY_TASK_def proc_of_def slot_agrees_def
      proc_init_boot_def procs_boot_def upd_proc_def EMPTY_PROC_def MAX_TASKS_def nth_list_update split: if_splits)
next
  case (step k k')
  then show ?case by (simp add: kernel_step_inv)
qed

text \<open>The calls on a process table that the rule \<open>other\<close> stands for.\<close>

lemma same_ident_queue: "same_ident ps (queue_slot s sig ps)"
  by (auto simp: queue_slot_def intro!: same_ident_upd)

lemma same_ident_kill: "same_ident ps (snd (kill cur pid sig ps))"
proof -
  have "same_ident ps (fold (\<lambda>s qs. queue_slot s sig qs) vs ps)" for vs
  proof (induction vs arbitrary: ps)
    case (Cons v vs)
    show ?case using same_ident_trans [OF same_ident_queue Cons.IH] by simp
  qed auto
  then show ?thesis by (auto simp: kill_def Let_def)
qed

lemma same_ident_signals:
  "same_ident ps (snd (sigaction_set s sig act ps))" "same_ident ps (snd (sigprocmask s how m ps))"
  "same_ident ps (set_blocked s m ps)" "same_ident ps (block_for_handler s sig hm ps)" "same_ident ps (snd (dequeue s ps))"
  "same_ident ps (signal_reset_for_exec s ps)" "same_ident ps (signal_console s g sig ps)"
  by (simp_all add: sigaction_set_def sigprocmask_def set_blocked_def block_for_handler_def dequeue_def signal_reset_for_exec_def
      signal_console_def Let_def same_ident_queue same_ident_kill same_ident_upd same_ident_refl split: option.split)

lemma same_ident_groups:
  "same_ident ps (snd (setsid s ps))" "same_ident ps (snd (setpgid s pid g ps))" "same_ident ps (upd_proc s (\<lambda>p. p\<lparr>pr_waited := True\<rparr>) ps)"
  "same_ident ps (vma_clear s ps)" "same_ident ps (vma_forget s a b ps)" "same_ident ps (vma_reprotect s a b pt ps)"
  by (simp_all add: setsid_def setpgid_def vma_clear_def vma_forget_def vma_reprotect_def Let_def same_ident_upd same_ident_refl split: option.split)

section \<open>Zombies\<close>

text \<open>An exit status that somebody can still collect: the slot holds an exited user task whose status was
  not waited for and whose parent is alive.\<close>

definition status_due :: "nat \<Rightarrow> kernel \<Rightarrow> bool" where
  "status_due i k \<longleftrightarrow> i < MAX_TASKS \<and> tk_is_user (task_at k i) \<and> tk_state (task_at k i) = Exited \<and> \<not> pr_waited (proc_of k i)
     \<and> pr_ppid (proc_of k i) \<noteq> 0 \<and> alive_by_id (pr_ppid (proc_of k i)) (k_procs k)"

lemma reap_slot_status:
  assumes l: "length (k_tasks k) = MAX_TASKS" "length (k_procs k) = MAX_TASKS" and h: "status_due i k" and j: "j < MAX_TASKS"
  shows "task_at (reap_slot ops c j k) i = task_at k i \<and> proc_of (reap_slot ops c j k) i = proc_of k i \<and> status_due i (reap_slot ops c j k)"
proof -
  obtain s where s: "slot_of_id (pr_ppid (proc_of k i)) (k_procs k) = Some s" "pr_alive (k_procs k ! s)"
    using h by (auto simp: status_due_def alive_by_id_def split: option.splits)
  have "\<not> reapable i (k_procs k)" using h s by (auto simp: status_due_def reapable_def proc_of_def Let_def)
  then have ji: "j \<noteq> i" if "reaps c j k" using that by (auto simp: reaps_def)
  have js: "j \<noteq> s" if "reaps c j k" using that s by (auto simp: reaps_def reapable_def Let_def split: if_splits)
  have "slot_of_id (pr_ppid (proc_of k i)) (proc_on_reap j (k_procs k)) = Some s" if "reaps c j k"
    using s(1) js [OF that] l j by (auto simp: slot_of_id_def proc_on_reap_def EMPTY_PROC_def nth_list_update)
  then show ?thesis using h s ji js j l
    by (auto simp: status_due_def reap_slot_at proc_of_def alive_by_id_def proc_on_reap_def)
qed

lemma reap_status:
  assumes "length (k_tasks k) = MAX_TASKS" "length (k_procs k) = MAX_TASKS" "status_due i k"
  shows "task_at (reap_exited ops c k) i = task_at k i \<and> proc_of (reap_exited ops c k) i = proc_of k i"
proof -
  have "task_at (fold (reap_slot ops c) js k) i = task_at k i \<and> proc_of (fold (reap_slot ops c) js k) i = proc_of k i"
    if "\<forall>j\<in>set js. j < MAX_TASKS" for js
    using that assms
  proof (induction js arbitrary: k)
    case (Cons j js)
    then have r: "task_at (reap_slot ops c j k) i = task_at k i" "proc_of (reap_slot ops c j k) i = proc_of k i" "status_due i (reap_slot ops c j k)"
      using reap_slot_status by (simp_all del: reap_slot_simps)
    have "length (k_tasks (reap_slot ops c j k)) = MAX_TASKS" "length (k_procs (reap_slot ops c j k)) = MAX_TASKS"
      using Cons.prems by (simp_all add: proc_on_reap_def)
    from Cons.IH [OF _ this r(3)] Cons.prems(1) r(1,2) show ?case by simp
  qed simp
  then show ?thesis by (simp add: reap_exited_def)
qed

definition same_zombie :: "nat \<Rightarrow> kernel \<Rightarrow> kernel \<Rightarrow> bool" where
  "same_zombie i k k' \<longleftrightarrow> tk_state (task_at k' i) = Exited \<and> tk_id (task_at k' i) = tk_id (task_at k i)
     \<and> pr_used (proc_of k' i) \<and> pr_id (proc_of k' i) = pr_id (proc_of k i) \<and> pr_exit_status (proc_of k' i) = pr_exit_status (proc_of k i)"

lemma status_due_used:
  assumes "kernel_inv k" "status_due i k" shows "pr_used (proc_of k i)" "tk_state (task_at k i) = Exited" "i < MAX_TASKS"
  using assms kernel_inv_D(5) [OF assms(1), of i] by (auto simp: status_due_def slot_agrees_def)

lemma schedule_zombie:
  assumes inv: "kernel_inv k" and h: "status_due i k"
  shows "same_zombie i k (schedule ops now sp k)"
proof -
  let ?r = "reap_exited ops (k_current k) k"
  note d = kernel_inv_D [OF inv] and u = status_due_used [OF inv h]
  have ri: "kernel_inv ?r" by (rule reap_exited_inv [OF inv])
  have r: "task_at ?r i = task_at k i" "proc_of ?r i = proc_of k i" using reap_status [OF d(1,3) h] by blast+
  have "task_at (wake_due now ?r) i = task_at k i" "proc_of (wake_due now ?r) i = proc_of k i" "length (k_tasks (wake_due now ?r)) = MAX_TASKS"
    using wake_due_at [OF kernel_inv_D(1) [OF ri] u(3)] r u(2) kernel_inv_D(1) [OF ri] by (simp_all add: wake_task_def proc_of_def)
  then show ?thesis using u d(2) unfolding same_zombie_def schedule_def Let_def
    by (auto simp: proc_of_def upd_task_def nth_list_update split: option.split)
qed

lemma new_slot_zombie:
  assumes inv: "kernel_inv k" and h: "status_due i k" and s: "find_slot k = Some s"
    and k': "k_tasks k' = (k_tasks k)[s := t]" "i \<noteq> s \<Longrightarrow> proc_of k' i = proc_of k i"
  shows "same_zombie i k k'"
proof -
  note u = status_due_used [OF inv h]
  have "i \<noteq> s" using find_slot_D [OF s] u(2) by auto
  then have "task_at k' i = task_at k i" "proc_of k' i = proc_of k i" using k' by simp_all
  then show ?thesis using u by (simp add: same_zombie_def)
qed

lemma same_zombie_refl: "kernel_inv k \<Longrightarrow> status_due i k \<Longrightarrow> same_zombie i k k"
  using status_due_used by (simp add: same_zombie_def)


text \<open>A run that leaves a zombie: a user task forks, the child runs and exits.\<close>

lemma reap_none: "\<forall>i<MAX_TASKS. tk_state (task_at k i) \<noteq> Exited \<Longrightarrow> reap_exited ops c k = k"
proof -
  assume a: "\<forall>i<MAX_TASKS. tk_state (task_at k i) \<noteq> Exited"
  have "fold (reap_slot ops c) is k = k" if "\<forall>i\<in>set is. i < MAX_TASKS" for "is"
    using that by (induction "is") (auto simp: reap_slot_def a)
  then show ?thesis by (simp add: reap_exited_def)
qed

lemma wake_none: "\<forall>i<MAX_TASKS. tk_state (task_at k i) \<in> {Ready, Unused} \<Longrightarrow> wake_due now k = k"
proof -
  assume a: "\<forall>i<MAX_TASKS. tk_state (task_at k i) \<in> {Ready, Unused}"
  have u: "upd_task i (wake_task now) k = k" if "i < MAX_TASKS" for i
    using that a [rule_format, of i] by (auto simp: upd_task_def wake_task_def)
  have "fold (\<lambda>i. upd_task i (wake_task now)) is k = k" if "\<forall>i\<in>set is. i < MAX_TASKS" for "is"
    using that by (induction "is") (auto simp: u)
  then show ?thesis by (simp add: wake_due_def)
qed

lemma schedule_next:
  assumes "\<forall>i<MAX_TASKS. tk_state (task_at k i) \<in> {Ready, Unused}" "k_current k + 1 < MAX_TASKS" "tk_state (task_at k (k_current k + 1)) = Ready"
  shows "k_tasks (schedule ops now sp k) = (k_tasks k)[k_current k := (task_at k (k_current k))\<lparr>tk_rsp := sp\<rparr>]"
    "k_current (schedule ops now sp k) = k_current k + 1" "k_procs (schedule ops now sp k) = k_procs k" "k_next_id (schedule ops now sp k) = k_next_id k"
proof -
  have "reap_exited ops (k_current k) k = k" "wake_due now k = k" using assms(1) by (intro reap_none wake_none; force)+
  moreover have "pick_next (k_current k) k = Some (k_current k + 1)"
    using assms(2,3) by (auto simp: pick_next_def intro!: exI [of _ 1])
  ultimately show "k_tasks (schedule ops now sp k) = (k_tasks k)[k_current k := (task_at k (k_current k))\<lparr>tk_rsp := sp\<rparr>]"
    "k_current (schedule ops now sp k) = k_current k + 1" "k_procs (schedule ops now sp k) = k_procs k" "k_next_id (schedule ops now sp k) = k_next_id k"
    by (simp_all add: schedule_def Let_def upd_task_def task_call_def)
qed

definition demo_task :: task where
  "demo_task = (EMPTY_TASK 0)\<lparr>tk_state := Ready, tk_is_user := True, tk_stack_phys := 0x8000, tk_heap_base := USER_HEAP_BASE\<rparr>"

definition demo_parent :: kernel where
  "demo_parent = schedule demo_ops 1 0
     (snd (register demo_task (task_init demo_ops 0 0x9000 (demo_kernel\<lparr>k_tasks := replicate MAX_TASKS (EMPTY_TASK 0), k_current := 0\<rparr>))))"

definition demo_zombie :: kernel where
  "demo_zombie = exit_with (status_exited 7) (schedule demo_ops 2 0 (snd (register_fork 1 demo_task demo_parent)))"

lemma list16: "replicate MAX_TASKS x = [x, x, x, x, x, x, x, x, x, x, x, x, x, x, x, x]"
  by (simp add: MAX_TASKS_def numeral_eq_Suc)

lemma all_tasks: "(\<forall>i<MAX_TASKS. P i) \<longleftrightarrow> (\<forall>i\<in>set [0..<MAX_TASKS]. P i)"
  by auto

lemma demo_parent_facts:
  "kernel_reach demo_ops demo_parent" "k_current demo_parent = 1" "k_next_id demo_parent = 1"
  "k_tasks demo_parent = (EMPTY_TASK 0)\<lparr>tk_state := Ready, tk_vm_root := 0x1000, tk_kernel_stack_top := 0x9000\<rparr> #
     demo_task\<lparr>tk_id := 1\<rparr> # replicate 14 (EMPTY_TASK 0)"
  "k_procs demo_parent = EMPTY_PROC\<lparr>pr_used := True, pr_alive := True\<rparr> #
     EMPTY_PROC\<lparr>pr_used := True, pr_alive := True, pr_id := 1, pr_pgid := 1, pr_sid := 1\<rparr> # replicate 14 EMPTY_PROC"
proof -
  define b where "b = demo_kernel\<lparr>k_tasks := replicate MAX_TASKS (EMPTY_TASK 0), k_current := 0\<rparr>"
  define i0 where "i0 = task_init demo_ops 0 0x9000 b"
  let ?t = "(EMPTY_TASK 0)\<lparr>tk_state := Ready, tk_vm_root := 0x1000, tk_kernel_stack_top := 0x9000\<rparr>"
  have i: "k_tasks i0 = ?t # replicate 15 (EMPTY_TASK 0)" "k_current i0 = 0" "k_next_id i0 = 0"
    "k_procs i0 = EMPTY_PROC\<lparr>pr_used := True, pr_alive := True\<rparr> # replicate 15 EMPTY_PROC"
    unfolding i0_def b_def by (simp_all add: task_init_def Let_def upd_task_def demo_kernel_def demo_ops_def procs_boot_def proc_init_boot_def upd_proc_def MAX_TASKS_def numeral_eq_Suc EMPTY_PROC_def)
  define r0 where "r0 = snd (register demo_task i0)"
  have f: "find_slot i0 = Some 1" by (simp add: find_slot_def i MAX_TASKS_def EMPTY_TASK_def nth_Cons')
  have r: "k_tasks r0 = ?t # demo_task\<lparr>tk_id := 1\<rparr> # replicate 14 (EMPTY_TASK 0)" "k_current r0 = 0" "k_next_id r0 = 1"
    "k_procs r0 = EMPTY_PROC\<lparr>pr_used := True, pr_alive := True\<rparr> #
     EMPTY_PROC\<lparr>pr_used := True, pr_alive := True, pr_id := 1, pr_pgid := 1, pr_sid := 1\<rparr> # replicate 14 EMPTY_PROC"
    unfolding r0_def by (simp_all add: register_def f Let_def upd_task_def i demo_task_def proc_init_task_def upd_proc_def EMPTY_PROC_def numeral_eq_Suc)
  have st: "\<forall>i<MAX_TASKS. tk_state (task_at r0 i) \<in> {Ready, Unused}" "k_current r0 + 1 < MAX_TASKS" "tk_state (task_at r0 (k_current r0 + 1)) = Ready"
    using r by (auto simp: nth_Cons' demo_task_def EMPTY_TASK_def MAX_TASKS_def)
  note s = schedule_next [OF st, of demo_ops 1 0, unfolded r0_def i0_def b_def, folded demo_parent_def, folded b_def, folded i0_def, folded r0_def]
  show "k_current demo_parent = 1" "k_next_id demo_parent = 1" using s r by simp_all
  show "k_tasks demo_parent = ?t # demo_task\<lparr>tk_id := 1\<rparr> # replicate 14 (EMPTY_TASK 0)" using s r by (simp add: EMPTY_TASK_def)
  show "k_procs demo_parent = EMPTY_PROC\<lparr>pr_used := True, pr_alive := True\<rparr> #
     EMPTY_PROC\<lparr>pr_used := True, pr_alive := True, pr_id := 1, pr_pgid := 1, pr_sid := 1\<rparr> # replicate 14 EMPTY_PROC" using s r by simp
  have "kernel_reach demo_ops i0" unfolding i0_def b_def by (rule kernel_reach.boot) (simp_all add: demo_kernel_def)
  then have "kernel_reach demo_ops r0" unfolding r0_def by (rule kernel_reach.step) (rule kernel_step.register, simp_all add: i demo_task_def)
  then show "kernel_reach demo_ops demo_parent" unfolding demo_parent_def b_def [symmetric] i0_def [symmetric] r0_def [symmetric] by (rule kernel_reach.step) (rule kernel_step.schedule)
qed

lemma demo_zombie_facts:
  "kernel_reach demo_ops demo_zombie" "status_due 2 demo_zombie" "pr_exit_status (proc_of demo_zombie 2) = 0x700"
proof -
  note p = demo_parent_facts
  define f0 where "f0 = snd (register_fork 1 demo_task demo_parent)"
  have f: "find_slot demo_parent = Some 2" by (auto simp: find_slot_def p MAX_TASKS_def demo_task_def EMPTY_TASK_def nth_Cons' less_2_cases_iff)
  have k: "k_tasks f0 = task_at demo_parent 0 # demo_task\<lparr>tk_id := 1\<rparr> # demo_task\<lparr>tk_id := 2\<rparr> # replicate 13 (EMPTY_TASK 0)" "k_current f0 = 1"
    "k_procs f0 = k_procs demo_parent ! 0 # k_procs demo_parent ! 1 # (k_procs demo_parent ! 1)\<lparr>pr_id := 2, pr_ppid := 1\<rparr> # replicate 13 EMPTY_PROC"
    unfolding f0_def by (simp_all add: register_fork_def f Let_def upd_task_def p proc_clone_task_def EMPTY_PROC_def numeral_eq_Suc)
  have st: "\<forall>i<MAX_TASKS. tk_state (task_at f0 i) \<in> {Ready, Unused}" "k_current f0 + 1 < MAX_TASKS" "tk_state (task_at f0 (k_current f0 + 1)) = Ready"
    using k p by (auto simp: nth_Cons' demo_task_def EMPTY_TASK_def MAX_TASKS_def)
  define s0 where "s0 = schedule demo_ops 2 0 f0"
  note s = schedule_next [OF st, of demo_ops 2 0, folded s0_def]
  have c: "k_current s0 = 2" using s(2) k(2) by simp
  have zt: "task_at demo_zombie 2 = demo_task\<lparr>tk_id := 2, tk_state := Exited, tk_exit_code := 0x700\<rparr>"
    unfolding demo_zombie_def f0_def [symmetric] s0_def [symmetric] exit_with_def Let_def c using s(1) k by (simp add: upd_task_def status_exited_def)
  define qs where "qs = k_procs f0"
  have q: "length qs = 16" "pr_used (qs ! 2)" "pr_ppid (qs ! 2) = 1" "pr_id (qs ! 2) = 2" "\<not> pr_waited (qs ! 2)" "pr_used (qs ! 1)" "pr_id (qs ! 1) = 1"
    "pr_alive (qs ! 1)" "pr_id (qs ! 0) = 0" "pr_pending (qs ! 1) = 0"
    using k(3) p(5) by (simp_all add: qs_def EMPTY_PROC_def)
  let ?z = "(qs ! 2)\<lparr>pr_alive := False, pr_exit_status := 0x700\<rparr>"
  have sl: "slot_of_id 1 (qs[2 := ?z]) = Some 1" using q by (auto simp: slot_of_id_def MAX_TASKS_def nth_list_update)
  have "on_exit 2 0x700 qs = qs[2 := ?z, 1 := (qs ! 1)\<lparr>pr_pending := sig_mask SIGCHLD\<rparr>]"
    unfolding on_exit_def Let_def using q sl by (simp add: upd_proc_def)
  moreover have "k_procs demo_zombie = on_exit 2 0x700 qs"
    unfolding demo_zombie_def f0_def [symmetric] s0_def [symmetric] exit_with_def Let_def c using s(3) by (simp add: qs_def status_exited_def)
  ultimately have zp: "k_procs demo_zombie = qs[2 := ?z, 1 := (qs ! 1)\<lparr>pr_pending := sig_mask SIGCHLD\<rparr>]" by simp
  then show "pr_exit_status (proc_of demo_zombie 2) = 0x700" using q by (simp add: proc_of_def)
  have "slot_of_id 1 (k_procs demo_zombie) = Some 1"
    unfolding zp using q by (auto simp: slot_of_id_def MAX_TASKS_def nth_list_update)
  then show "status_due 2 demo_zombie" using zt q zp by (simp add: status_due_def proc_of_def MAX_TASKS_def demo_task_def alive_by_id_def)
  have "kernel_reach demo_ops f0"
    unfolding f0_def using kernel_reach.step [OF p(1) kernel_step.fork [of demo_task demo_parent]] p by (simp add: demo_task_def)
  then have "kernel_reach demo_ops s0" unfolding s0_def by (rule kernel_reach.step) (rule kernel_step.schedule)
  then show "kernel_reach demo_ops demo_zombie" unfolding demo_zombie_def f0_def [symmetric] s0_def [symmetric]
    by (rule kernel_reach.step) (rule kernel_step.exit, use s c k in \<open>simp add: demo_task_def EMPTY_TASK_def\<close>)
qed


text \<open>C12. The task table and the process table agree in every reachable state: every user task in the table has
  a used process entry in the same slot with the same id, which is alive exactly until the task exits;
  no other slot but the boot context's has an entry; and ids of tasks in the table are pairwise distinct,
  for the first \<open>2 ^ 64 - 1\<close> tasks created.\<close>

theorem task_process_agree:
  assumes "kernel_reach ops k" and "i < MAX_TASKS" and "tk_state (task_at k i) \<noteq> Unused"
  shows "(tk_is_user (task_at k i) \<longrightarrow> pr_used (proc_of k i) \<and> pr_id (proc_of k i) = tk_id (task_at k i)
      \<and> (pr_alive (proc_of k i) \<longleftrightarrow> tk_state (task_at k i) \<noteq> Exited))
    \<and> (pr_used (proc_of k i) \<and> i \<noteq> 0 \<longrightarrow> tk_is_user (task_at k i))
    \<and> (\<forall>j. j < MAX_TASKS \<and> j \<noteq> i \<and> tk_state (task_at k j) \<noteq> Unused \<longrightarrow> tk_id (task_at k j) \<noteq> tk_id (task_at k i))"
proof -
  have inv: "kernel_inv k" by (rule kernel_reach_inv [OF assms(1)])
  show ?thesis using kernel_inv_D(5) [OF inv assms(2)] kernel_inv_D(7) [OF inv _ assms(2) _ assms(3)] assms(3)
    unfolding slot_agrees_def by blast
qed

theorem task_process_agree_witness: "pr_id (proc_of demo_zombie 2) = tk_id (task_at demo_zombie 2)"
proof -
  have "tk_state (task_at demo_zombie 2) \<noteq> Unused" "tk_is_user (task_at demo_zombie 2)"
    using demo_zombie_facts(2) by (simp_all add: status_due_def)
  with task_process_agree [OF demo_zombie_facts(1), of 2] show ?thesis by (simp add: MAX_TASKS_def)
qed

text \<open>A task that sleeps while no other task is runnable keeps the processor: \<open>schedule\<close> finds nobody, and
  \<open>sleep_ms\<close> returns to its caller at once with the task still marked sleeping.\<close>

lemma sleep_alone:
  assumes t: "table_ok k" and others: "\<And>j. j < MAX_TASKS \<Longrightarrow> j \<noteq> k_current k \<Longrightarrow> \<not> due now' (task_at k j)"
    and wake: "now' < now + max (ms * 100 div 1000) 1"
  shows "k_current (sleep_ms ops ms now now' sp k) = k_current k"
proof -
  let ?k = "upd_task (k_current k) (\<lambda>t. t\<lparr>tk_state := Sleeping (now + max (ms * 100 div 1000) 1)\<rparr>) k"
  have l: "length (k_tasks ?k) = MAX_TASKS" "k_current ?k < MAX_TASKS" using t by (simp_all add: table_ok_def)
  have "\<not> due now' (task_at ?k j)" if "j < MAX_TASKS" for j
    using others [OF that] wake t by (cases "j = k_current k") (simp_all add: upd_task_at table_ok_def due_def)
  then have "\<not> due now' (task_at ?k ((k_current ?k + off) mod MAX_TASKS))" for off by (simp add: MAX_TASKS_def)
  then have "find_between 1 (MAX_TASKS + 1) (\<lambda>off. due now' (task_at ?k ((k_current ?k + off) mod MAX_TASKS))) = None"
    unfolding find_between_None by blast
  then show ?thesis unfolding sleep_ms_def schedule_current(1) [OF l] by (simp del: find_between_None)
qed

end
