(* ===== verification/Signal.thy ===== *)
theory Signal
  imports Process User_Vm
begin

text \<open>
  Signal delivery and the signal system calls of \<^verbatim>\<open>src/kernel-core/src/signal.rs\<close>, with the register context of
  \<^verbatim>\<open>process/mod.rs\<close> and the \<open>SignalFrame\<close> and \<open>SigAction\<close> layouts of \<^verbatim>\<open>src/abi/src/posix.rs\<close>. The environment has the
  process table, the running slot, its user memory and the context that \<open>FrameOps\<close> reads and writes
  (\<open>None\<close> when the interruption came from the kernel). \<^verbatim>\<open>task::exit_signal(sig)\<close> does not return: such a path gives
  \<^term>\<open>Some sig\<close>.
\<close>

section \<open>Context and frame\<close>

record user_context =
  r15 :: u64
  r14 :: u64
  r13 :: u64
  r12 :: u64
  r11 :: u64
  r10 :: u64
  r9 :: u64
  r8 :: u64
  rbp :: u64
  rdi :: u64
  rsi :: u64
  rdx :: u64
  rcx :: u64
  rbx :: u64
  rax :: u64
  rip :: u64
  rflags :: u64
  rsp :: u64

record sig_env =
  sg_procs :: procs
  sg_slot :: nat
  sg_mem :: umem
  sg_ctx :: "user_context option"

definition ctx_words :: "user_context \<Rightarrow> u64 list" where
  "ctx_words c = [r15 c, r14 c, r13 c, r12 c, r11 c, r10 c, r9 c, r8 c, rbp c, rdi c, rsi c, rdx c, rcx c, rbx c, rax c,
     rip c, rflags c, rsp c]"

definition ctx_of_words :: "u64 list \<Rightarrow> user_context" where
  "ctx_of_words ws = \<lparr>r15 = ws ! 0, r14 = ws ! 1, r13 = ws ! 2, r12 = ws ! 3, r11 = ws ! 4, r10 = ws ! 5, r9 = ws ! 6, r8 = ws ! 7,
     rbp = ws ! 8, rdi = ws ! 9, rsi = ws ! 10, rdx = ws ! 11, rcx = ws ! 12, rbx = ws ! 13, rax = ws ! 14, rip = ws ! 15,
     rflags = ws ! 16, rsp = ws ! 17\<rparr>"

definition signal_frame :: "user_context \<Rightarrow> u32 \<Rightarrow> u32 \<Rightarrow> u64 list" where
  "signal_frame c sig saved_mask = ctx_words c @ [ucast sig, ucast saved_mask]"

text \<open>The bytes of a structure of 64-bit fields, and reading one back.\<close>

definition words_bytes :: "u64 list \<Rightarrow> u8 list" where
  "words_bytes ws = concat (map to_le64 ws)"

definition bytes_words :: "nat \<Rightarrow> u8 list \<Rightarrow> u64 list" where
  "bytes_words n bs = map (\<lambda>i. le64 (take 8 (drop (8 * i) bs))) [0..<n]"

definition FRAME_BYTES :: nat where "FRAME_BYTES = 160"

section \<open>Delivery\<close>

definition handler_sp :: "u64 \<Rightarrow> u64" where
  "handler_sp sp = ((sp - (of_nat FRAME_BYTES + 8)) AND NOT 15) - 8"

definition enter_handler :: "user_context \<Rightarrow> u32 \<Rightarrow> action \<Rightarrow> sig_env \<Rightarrow> u32 option \<times> sig_env" where
  "enter_handler ctx sig act e =
     (let slot = sg_slot e;
          bytes = words_bytes (signal_frame ctx sig (blocked_of slot (sg_procs e)));
          sp = handler_sp (rsp ctx) in
      case copy_out (sp + 8) bytes (sg_mem e) of
        None \<Rightarrow> (Some SIGSEGV, e)
      | Some m \<Rightarrow>
          (case copy_out sp (to_le64 (a_restorer act)) m of
             None \<Rightarrow> (Some SIGSEGV, e\<lparr>sg_mem := m\<rparr>)
           | Some m' \<Rightarrow>
               (None, e\<lparr>sg_mem := m', sg_procs := block_for_handler slot sig (a_mask act) (sg_procs e),
                        sg_ctx := Some (ctx\<lparr>rdi := ucast sig, rip := a_handler act, rsp := sp\<rparr>)\<rparr>)))"

definition deliver_current :: "sig_env \<Rightarrow> u32 option \<times> sig_env" where
  "deliver_current e =
     (case sg_ctx e of
        None \<Rightarrow> (None, e)
      | Some ctx \<Rightarrow>
          (case dequeue (sg_slot e) (sg_procs e) of
             (None, ps) \<Rightarrow> (None, e\<lparr>sg_procs := ps\<rparr>)
           | (Some sig, ps) \<Rightarrow>
               let e1 = e\<lparr>sg_procs := ps\<rparr>; act = action_of (sg_slot e) sig ps in
               if sig = SIGKILL then (Some SIGKILL, e1)
               else if a_handler act = SIG_IGN then (None, e1)
               else if a_handler act = SIG_DFL then (if default_ignored sig then None else Some sig, e1)
               else if a_restorer act = 0 then (Some sig, e1)
               else enter_handler ctx sig act e1))"

definition raise_current :: "u32 \<Rightarrow> sig_env \<Rightarrow> u32 option \<times> sig_env" where
  "raise_current sig e = deliver_current (e\<lparr>sg_procs := queue_slot (sg_slot e) sig (sg_procs e)\<rparr>)"

section \<open>System calls\<close>

text \<open>\<^term>\<open>Inl sig\<close>: killed by the signal; \<^term>\<open>Inr v\<close>: the returned value.\<close>

definition sigreturn :: "sig_env \<Rightarrow> (u32 + u64) \<times> sig_env" where
  "sigreturn e =
     (case sg_ctx e of
        None \<Rightarrow> (Inr SYS_ERR_NOSYS, e)
      | Some ctx \<Rightarrow>
          (case copy_in FRAME_BYTES (rsp ctx) (sg_mem e) of
             None \<Rightarrow> (Inl SIGSEGV, e)
           | Some bytes \<Rightarrow>
               let ws = bytes_words 20 bytes in
               (Inr SYS_OK, e\<lparr>sg_procs := set_blocked (sg_slot e) (ucast (ws ! 19)) (sg_procs e),
                              sg_ctx := Some (ctx_of_words ws)\<rparr>)))"

text \<open>\<open>env\<close> lists what the other tasks do to the table during each sleep; \<open>None\<close>: still waiting after all of it.\<close>

fun suspend_loop :: "nat \<Rightarrow> (procs \<Rightarrow> procs) list \<Rightarrow> procs \<Rightarrow> procs option" where
  "suspend_loop slot env ps =
     (if has_deliverable slot ps then Some ps
      else case env of [] \<Rightarrow> None | sleep # env' \<Rightarrow> suspend_loop slot env' (sleep ps))"

declare suspend_loop.simps [simp del]

definition sigsuspend :: "u64 \<Rightarrow> (procs \<Rightarrow> procs) list \<Rightarrow> sig_env \<Rightarrow> (u64 \<times> sig_env) option" where
  "sigsuspend m env e =
     (let slot = sg_slot e in
      if drop_bit (unat NSIG) m \<noteq> 0 then Some (SYS_ERR_INVAL, e)
      else
        let old = blocked_of slot (sg_procs e) in
        (case suspend_loop slot env (set_blocked slot (ucast m) (sg_procs e)) of
           None \<Rightarrow> None
         | Some ps \<Rightarrow> Some (SYS_OK, e\<lparr>sg_procs := set_blocked slot old ps\<rparr>)))"

text \<open>The 32 bytes of \<open>SigAction\<close>: handler, mask, flags with padding, restorer.\<close>

definition action_bytes :: "action \<Rightarrow> u8 list" where
  "action_bytes a = words_bytes [a_handler a, a_mask a] @ to_le32 (a_flags a) @ to_le32 0 @ to_le64 (a_restorer a)"

definition action_of_bytes :: "u8 list \<Rightarrow> action" where
  "action_of_bytes bs = \<lparr>a_handler = le64 (take 8 bs), a_mask = le64 (take 8 (drop 8 bs)),
     a_flags = le32 (bs ! 16) (bs ! 17) (bs ! 18) (bs ! 19), a_restorer = le64 (take 8 (drop 24 bs))\<rparr>"

definition put_old :: "u64 \<Rightarrow> u8 list \<Rightarrow> sig_env \<Rightarrow> sig_env option" where
  "put_old ptr bs e =
     (if ptr \<noteq> 0 then (case copy_out ptr bs (sg_mem e) of None \<Rightarrow> None | Some m \<Rightarrow> Some (e\<lparr>sg_mem := m\<rparr>)) else Some e)"

definition sys_sigaction :: "u64 \<Rightarrow> u64 \<Rightarrow> u64 \<Rightarrow> sig_env \<Rightarrow> u64 \<times> sig_env" where
  "sys_sigaction signum act oldact e =
     (let sig = ucast signum :: u32; slot = sg_slot e in
      if sig = 0 \<or> sig \<ge> NSIG then (SYS_ERR_INVAL, e)
      else if oldact \<noteq> 0 \<and> sigaction_get slot sig (sg_procs e) = None then (SYS_ERR_INVAL, e)
      else
        (case put_old oldact (case sigaction_get slot sig (sg_procs e) of Some a \<Rightarrow> action_bytes a | None \<Rightarrow> []) e of
           None \<Rightarrow> (SYS_ERR_FAULT, e)
         | Some e1 \<Rightarrow>
             if act \<noteq> 0 then
               (case copy_in 32 act (sg_mem e1) of
                  None \<Rightarrow> (SYS_ERR_FAULT, e1)
                | Some bs \<Rightarrow>
                    (case sigaction_set slot sig (action_of_bytes bs) (sg_procs e1) of (r, ps) \<Rightarrow> (r, e1\<lparr>sg_procs := ps\<rparr>)))
             else (SYS_OK, e1)))"

definition sys_sigprocmask :: "u64 \<Rightarrow> u64 \<Rightarrow> u64 \<Rightarrow> sig_env \<Rightarrow> u64 \<times> sig_env" where
  "sys_sigprocmask how set' oldset e =
     (let slot = sg_slot e in
      case put_old oldset (to_le64 (ucast (blocked_of slot (sg_procs e)))) e of
        None \<Rightarrow> (SYS_ERR_FAULT, e)
      | Some e1 \<Rightarrow>
          if set' \<noteq> 0 then
            (case copy_in 8 set' (sg_mem e1) of
               None \<Rightarrow> (SYS_ERR_FAULT, e1)
             | Some raw \<Rightarrow>
                 (case sigprocmask slot how (ucast (le64 raw)) (sg_procs e1) of (r, ps) \<Rightarrow> (r, e1\<lparr>sg_procs := ps\<rparr>)))
          else (SYS_OK, e1))"

section \<open>Structure bytes\<close>

lemma length_words_bytes [simp]: "length (words_bytes ws) = 8 * length ws"
  unfolding words_bytes_def by (induction ws) simp_all

lemma words_bytes_nth: "i < length ws \<Longrightarrow> take 8 (drop (8 * i) (words_bytes ws)) = to_le64 (ws ! i)"
proof (induction ws arbitrary: i)
  case (Cons w ws)
  then show ?case
  proof (cases i)
    case (Suc j)
    have "drop (8 * i) (words_bytes (w # ws)) = drop (8 * j) (words_bytes ws)"
      unfolding words_bytes_def Suc by simp
    with Cons.IH [of j] Cons.prems Suc show ?thesis by simp
  qed (simp add: words_bytes_def)
qed simp

lemma bytes_words_words_bytes: "bytes_words (length ws) (words_bytes ws) = ws"
  by (intro nth_equalityI) (simp_all add: bytes_words_def words_bytes_nth)

lemma ctx_of_ctx_words [simp]: "ctx_of_words (ctx_words c @ xs) = c"
  by (simp add: ctx_of_words_def ctx_words_def)

lemma length_ctx_words [simp]: "length (ctx_words c) = 18"
  by (simp add: ctx_words_def)

section \<open>Properties\<close>

lemma copy_in_same:
  assumes "copy_in n a m = Some bs" "\<And>j. j < n \<Longrightarrow> m' (a + of_nat j) = m (a + of_nat j)"
  shows "copy_in n a m' = Some bs"
  using assms by (auto simp: copy_in_def split: if_splits option.splits)

lemma handler_sp_moves: "handler_sp x \<noteq> x"
proof
  assume "handler_sp x = x"
  then have "((x - 168) AND NOT 15) = x + 8"
    unfolding handler_sp_def FRAME_BYTES_def diff_eq_eq by simp
  with and_split [of "x - 168" 15] have "x + 8 + ((x - 168) AND 15) = x - 168" by simp
  then have "((x - 168) AND 15) + 176 = 0" by (simp add: algebra_simps)
  then have "(x - 168) AND 15 = - 176" by (simp add: eq_neg_iff_add_eq_0)
  moreover have "(x - 168) AND 15 \<le> 15" by (rule word_and_le1)
  ultimately show False by simp
qed

text \<open>What it takes to enter a handler.\<close>

lemma deliver_entered:
  assumes "sg_ctx e = Some ctx" "deliver_current e = (None, e')" "sg_ctx e' \<noteq> Some ctx"
  obtains sig ps act where "dequeue (sg_slot e) (sg_procs e) = (Some sig, ps)" "act = action_of (sg_slot e) sig ps"
    "enter_handler ctx sig act (e\<lparr>sg_procs := ps\<rparr>) = (None, e')" "a_handler act \<notin> {SIG_DFL, SIG_IGN}" "a_restorer act \<noteq> 0" "sig \<noteq> SIGKILL"
  using assms by (auto simp: deliver_current_def Let_def split: option.splits prod.splits if_splits)

lemma sp_offset_apart:
  assumes "i < 8" "j < 160" shows "sp + of_nat i \<noteq> (sp + 8 + of_nat j :: u64)"
proof
  assume "sp + of_nat i = sp + 8 + of_nat j"
  then have "(of_nat i :: u64) = of_nat (8 + j)" by (simp add: add.assoc)
  then have "unat (of_nat i :: u64) = unat (of_nat (8 + j) :: u64)" by simp
  then show False using assms by (simp add: unat_of_nat_u64 del: of_nat_add)
qed

lemma enter_handler_frame:
  assumes "enter_handler ctx sig act e = (None, e')"
  defines "sp \<equiv> handler_sp (rsp ctx)"
  shows "sg_ctx e' = Some (ctx\<lparr>rdi := ucast sig, rip := a_handler act, rsp := sp\<rparr>)" "sg_slot e' = sg_slot e"
    "sg_procs e' = block_for_handler (sg_slot e) sig (a_mask act) (sg_procs e)"
    "copy_in 8 sp (sg_mem e') = Some (to_le64 (a_restorer act))"
    "copy_in FRAME_BYTES (sp + 8) (sg_mem e') = Some (words_bytes (signal_frame ctx sig (blocked_of (sg_slot e) (sg_procs e))))"
proof -
  let ?bs = "words_bytes (signal_frame ctx sig (blocked_of (sg_slot e) (sg_procs e)))"
  have l: "length ?bs = FRAME_BYTES" by (simp add: signal_frame_def FRAME_BYTES_def)
  from assms obtain m m' where m: "copy_out (sp + 8) ?bs (sg_mem e) = Some m" "copy_out sp (to_le64 (a_restorer act)) m = Some m'"
    and e': "e' = e\<lparr>sg_mem := m', sg_procs := block_for_handler (sg_slot e) sig (a_mask act) (sg_procs e),
      sg_ctx := Some (ctx\<lparr>rdi := ucast sig, rip := a_handler act, rsp := sp\<rparr>)\<rparr>"
    by (auto simp: enter_handler_def Let_def split: option.splits)
  show "sg_ctx e' = Some (ctx\<lparr>rdi := ucast sig, rip := a_handler act, rsp := sp\<rparr>)" "sg_slot e' = sg_slot e"
    "sg_procs e' = block_for_handler (sg_slot e) sig (a_mask act) (sg_procs e)" by (simp_all add: e')
  show "copy_in 8 sp (sg_mem e') = Some (to_le64 (a_restorer act))" using copy_out_in [OF m(2)] by (simp add: e')
  have "copy_in FRAME_BYTES (sp + 8) m = Some ?bs" using copy_out_in [OF m(1)] l by (simp add: FRAME_BYTES_def)
  moreover have "m' (sp + 8 + of_nat j) = m (sp + 8 + of_nat j)" if "j < FRAME_BYTES" for j
  proof -
    have "m' = write_bytes sp (to_le64 (a_restorer act)) m" using m(2) by (auto simp: copy_out_def split: option.splits if_splits)
    moreover have "write_bytes sp (to_le64 (a_restorer act)) m (sp + 8 + of_nat j) = m (sp + 8 + of_nat j)"
    proof (rule write_bytes_outside)
      fix i assume "i < length (to_le64 (a_restorer act))"
      then show "sp + of_nat i \<noteq> sp + 8 + of_nat j" using that by (intro sp_offset_apart) (simp_all add: FRAME_BYTES_def)
    qed
    ultimately show ?thesis by simp
  qed
  ultimately have "copy_in FRAME_BYTES (sp + 8) m' = Some ?bs" by (rule copy_in_same)
  then show "copy_in FRAME_BYTES (sp + 8) (sg_mem e') = Some ?bs" by (simp add: e')
qed

lemma unat_and_15: "unat (z AND 15 :: u64) = unat z mod 16"
proof -
  have "z AND 15 = take_bit 4 z" by (simp add: take_bit_eq_mask mask_eq_exp_minus_1)
  also have "\<dots> = z mod 16" by (simp add: take_bit_eq_mod)
  finally show ?thesis by (simp add: unat_mod_distrib)
qed

lemma handler_sp_aligned: "handler_sp x AND 15 = 8"
proof -
  define y where "y = (x - (of_nat FRAME_BYTES + 8)) AND NOT 15"
  have "y AND 15 = 0" unfolding y_def by (rule and_not_and)
  then have y0: "unat y mod 16 = 0" using unat_and_15 [of y] by simp
  have "unat (y - 8) mod 16 = 8"
  proof (cases "y = 0")
    case False
    obtain q where q: "unat y = 16 * q" using y0 [THEN mod_0_imp_dvd] by (rule dvdE)
    have "0 < unat y" using False by (simp add: unat_gt_0)
    then obtain p where p: "q = Suc p" using q by (cases q) simp_all
    have "unat (y - 8) = unat y - unat (8 :: u64)" using q p by (intro unat_sub) (simp add: word_le_nat_alt)
    also have "\<dots> = 8 + 16 * p" using q p by simp
    finally show ?thesis by (simp only: mod_mult_self2) simp
  qed simp
  then have "unat ((y - 8) AND 15) = unat (8 :: u64)" unfolding unat_and_15 by simp
  then have "(y - 8) AND 15 = 8" by (rule unsigned_word_eqI)
  then show ?thesis unfolding handler_sp_def y_def [symmetric] .
qed

lemma handler_blocks:
  assumes "s < length ps" "sig < NSIG" "sig \<noteq> SIGKILL" shows "bit (blocked_of s (block_for_handler s sig hm ps)) (unat sig)"
proof -
  have "unat sig < 32" "unat sig \<noteq> 9" using assms(2,3) by (auto simp: NSIG_def SIGKILL_def word_less_nat_alt word_unat_eq_iff)
  then show ?thesis using assms
    by (simp add: block_for_handler_def blocked_of_def upd_proc_def bit_and_iff bit_or_iff bit_not_iff bit_sig_mask)
qed

lemma dequeue_range: "dequeue s ps = (Some sig, ps') \<Longrightarrow> sig < NSIG"
proof -
  assume a: "dequeue s ps = (Some sig, ps')"
  have "trailing_zeros w < NSIG" if "w \<noteq> 0" for w
  proof (cases "find_below (bit w) 32")
    case None
    then have "\<not> bit w i" for i using bit_imp_le_length [of w i] by auto
    then have "w = 0" by (intro bit_word_eqI) simp
    with that show ?thesis by simp
  next
    case (Some i)
    then have "i < 32" by simp
    then show ?thesis using Some unfolding trailing_zeros_def
      by (simp del: find_below_Some add: word_less_nat_alt NSIG_def unat_of_nat_u32)
  qed
  with a show ?thesis by (auto simp: dequeue_def Let_def SIGKILL_def NSIG_def split: if_splits)
qed

lemma kill_unblocked:
  assumes "procs_inv ps" "s < MAX_TASKS" shows "blocked_of s ps AND NOT (sig_mask SIGKILL) = blocked_of s ps"
proof -
  have "\<not> bit (blocked_of s ps) 9" using procs_inv_nth [OF assms] by (simp add: blocked_of_def proc_ok_def)
  then show ?thesis by (intro bit_word_eqI) (auto simp: bit_and_iff bit_not_iff)
qed

text \<open>C11. Signal delivery and \<open>sigreturn\<close> are inverse: when a handler is entered, it starts with the signal number as its
  argument, the restorer as its return address, a stack pointer that is 8 modulo 16 below the interrupted one, and its
  own signal blocked. If it then returns to the restorer with the saved frame intact - whatever else it changed in memory, registers
  or the process table - \<open>sigreturn\<close> restores every register of the interrupted context and the signal mask.\<close>

theorem signal_roundtrip:
  assumes "procs_inv (sg_procs e)" and "sg_slot e < MAX_TASKS" and "sg_ctx e = Some ctx"
    and "deliver_current e = (None, e')" and "sg_ctx e' = Some c" and "c \<noteq> ctx"
    and "\<And>j. j < FRAME_BYTES \<Longrightarrow> sg_mem e2 (rsp c + 8 + of_nat j) = sg_mem e' (rsp c + 8 + of_nat j)"
    and "sg_ctx e2 = Some c2" and "rsp c2 = rsp c + 8" and "sg_slot e2 = sg_slot e" and "length (sg_procs e2) = MAX_TASKS"
  shows "\<exists>sig e3. fst (dequeue (sg_slot e) (sg_procs e)) = Some sig \<and> rdi c = ucast sig \<and> rsp c AND 15 = 8
    \<and> (let act = action_of (sg_slot e) sig (sg_procs e) in rip c = a_handler act \<and> copy_in 8 (rsp c) (sg_mem e') = Some (to_le64 (a_restorer act)))
    \<and> bit (blocked_of (sg_slot e) (sg_procs e')) (unat sig)
    \<and> sigreturn e2 = (Inr SYS_OK, e3) \<and> sg_ctx e3 = Some ctx \<and> blocked_of (sg_slot e) (sg_procs e3) = blocked_of (sg_slot e) (sg_procs e)"
proof -
  let ?s = "sg_slot e"
  have "sg_ctx e' \<noteq> Some ctx" using assms(5,6) by simp
  then obtain sig ps act where d: "dequeue ?s (sg_procs e) = (Some sig, ps)" "act = action_of ?s sig ps"
    "enter_handler ctx sig act (e\<lparr>sg_procs := ps\<rparr>) = (None, e')" "sig \<noteq> SIGKILL"
    by (rule deliver_entered [OF assms(3,4)])
  have ps: "blocked_of ?s ps = blocked_of ?s (sg_procs e)" "action_of ?s sig ps = action_of ?s sig (sg_procs e)" "length ps = MAX_TASKS"
    using d(1) procs_inv_length [OF assms(1)] assms(2)
    by (auto simp: dequeue_def Let_def blocked_of_def action_of_def upd_proc_def split: if_splits)
  let ?sp = "handler_sp (rsp ctx)" and ?fr = "signal_frame ctx sig (blocked_of ?s (sg_procs e))"
  note f = enter_handler_frame [OF d(3), simplified, unfolded ps]
  have c: "c = ctx\<lparr>rdi := ucast sig, rip := a_handler act, rsp := ?sp\<rparr>" using f(1) assms(5) by simp
  then have rc: "rsp c = ?sp" by simp
  note al = handler_sp_aligned [of "rsp ctx"]
  have "copy_in FRAME_BYTES (rsp c2) (sg_mem e2) = Some (words_bytes ?fr)"
    unfolding assms(9) rc by (rule copy_in_same [OF f(5) assms(7) [unfolded rc]])
  moreover have "bytes_words 20 (words_bytes ?fr) = ?fr" using bytes_words_words_bytes [of ?fr] by (simp add: signal_frame_def)
  ultimately have r: "sigreturn e2 = (Inr SYS_OK, e2\<lparr>sg_procs := set_blocked ?s (ucast (?fr ! 19)) (sg_procs e2), sg_ctx := Some (ctx_of_words ?fr)\<rparr>)"
    using assms(8,10) by (simp add: sigreturn_def Let_def)
  have "ctx_of_words ?fr = ctx" "ucast (?fr ! 19) = blocked_of ?s (sg_procs e)"
    by (simp_all add: signal_frame_def nth_append ucast_down_ucast_id is_down)
  moreover from this have "blocked_of ?s (set_blocked ?s (ucast (?fr ! 19)) (sg_procs e2)) = blocked_of ?s (sg_procs e)"
    using kill_unblocked [OF assms(1,2)] assms(2,11) by (simp add: set_blocked_def blocked_of_def upd_proc_def)
  moreover have "bit (blocked_of ?s (sg_procs e')) (unat sig)"
    unfolding f(3) using handler_blocks [OF _ dequeue_range [OF d(1)] d(4)] ps(3) assms(2) by simp
  ultimately show ?thesis using d(1,2) f(4) c r al ps(2) by (intro exI [of _ sig]) (simp add: Let_def)
qed

text \<open>A task with a handler for SIGINT and SIGINT pending.\<close>

definition demo_ctx :: user_context where
  "demo_ctx = \<lparr>r15 = 15, r14 = 14, r13 = 13, r12 = 12, r11 = 11, r10 = 10, r9 = 9, r8 = 8, rbp = 7, rdi = 6, rsi = 5, rdx = 4,
     rcx = 3, rbx = 2, rax = 1, rip = 0x400100, rflags = 0x202, rsp = 0x7000\<rparr>"

definition demo_sig :: sig_env where
  "demo_sig = \<lparr>sg_procs = upd_proc 1 (\<lambda>p. p\<lparr>pr_used := True, pr_alive := True, pr_pending := sig_mask SIGINT,
       pr_actions := (pr_actions p)[2 := \<lparr>a_handler = 0x400800, a_mask = 0, a_flags = 0, a_restorer = 0x400900\<rparr>]\<rparr>) procs_boot,
     sg_slot = 1, sg_mem = (\<lambda>_. 0), sg_ctx = Some demo_ctx\<rparr>"

lemma demo_sig_delivers:
  obtains e' where "deliver_current demo_sig = (None, e')" "sg_ctx e' = Some (demo_ctx\<lparr>rdi := 2, rip := 0x400800, rsp := 0x6F48\<rparr>)"
    "sg_slot e' = 1" "length (sg_procs e') = MAX_TASKS"
proof -
  let ?a = "\<lparr>a_handler = 0x400800, a_mask = 0, a_flags = 0, a_restorer = 0x400900\<rparr> :: action"
  have p: "sg_procs demo_sig ! 1 = EMPTY_PROC\<lparr>pr_used := True, pr_alive := True, pr_pending := 4, pr_actions := (replicate 32 DEFAULT_ACTION)[2 := ?a]\<rparr>"
    "length (sg_procs demo_sig) = MAX_TASKS"
    by (simp_all add: demo_sig_def upd_proc_def procs_boot_def MAX_TASKS_def EMPTY_PROC_def sig_mask_def SIGINT_def NSIG_def)
  have tz: "trailing_zeros 4 = 2"
  proof -
    have "find_below (bit (4 :: u32)) 32 = Some 2" by (auto simp: less_2_cases_iff)
    then show ?thesis unfolding trailing_zeros_def by (simp del: find_below_Some)
  qed
  obtain ps where d: "dequeue 1 (sg_procs demo_sig) = (Some 2, ps)" and ps: "length ps = MAX_TASKS" "action_of 1 2 ps = ?a"
  proof (rule that)
    let ?ps = "upd_proc 1 (\<lambda>p. p\<lparr>pr_pending := pr_pending p AND NOT (push_bit (unat (2 :: u32)) 1)\<rparr>) (sg_procs demo_sig)"
    show "dequeue 1 (sg_procs demo_sig) = (Some 2, ?ps)"
      unfolding dequeue_def Let_def p(1) by (simp add: sig_mask_def SIGKILL_def NSIG_def EMPTY_PROC_def tz)
    show "length ?ps = MAX_TASKS" "action_of 1 2 ?ps = ?a" using p by (simp_all add: upd_proc_def action_of_def MAX_TASKS_def)
  qed
  have sp: "handler_sp (rsp demo_ctx) = 0x6F48" by (simp add: handler_sp_def FRAME_BYTES_def demo_ctx_def)
  have len: "length (words_bytes (signal_frame demo_ctx 2 b)) = 160" for b by (simp add: signal_frame_def)
  have co: "copy_out a bs m = Some (write_bytes a bs m)" if "a = 0x6F50 \<and> length bs = 160 \<or> a = 0x6F48 \<and> length bs = 8" for a bs m
    using that by (auto simp: copy_out_def checked_add_def PHYS_OFFSET_def)
  have "deliver_current demo_sig = enter_handler demo_ctx 2 ?a (demo_sig\<lparr>sg_procs := ps\<rparr>)"
    using d ps(2) by (simp add: deliver_current_def demo_sig_def Let_def SIGKILL_def SIG_IGN_def SIG_DFL_def)
  also have "\<dots> = (None, demo_sig\<lparr>sg_procs := block_for_handler 1 2 0 ps,
      sg_mem := write_bytes 0x6F48 (to_le64 0x400900) (write_bytes 0x6F50 (words_bytes (signal_frame demo_ctx 2 (blocked_of 1 ps))) (\<lambda>_. 0)),
      sg_ctx := Some (demo_ctx\<lparr>rdi := 2, rip := 0x400800, rsp := 0x6F48\<rparr>)\<rparr>)"
    unfolding enter_handler_def Let_def sp using len by (simp add: co demo_sig_def)
  finally show thesis by (rule that) (use ps(1) in \<open>simp_all add: demo_sig_def block_for_handler_def upd_proc_def\<close>)
qed

theorem signal_roundtrip_witness:
  "\<exists>e2 e3. sg_ctx e2 = Some (demo_ctx\<lparr>rdi := 0, rax := 77, rip := 0x400900, rsp := 0x6F50\<rparr>) \<and> sigreturn e2 = (Inr SYS_OK, e3)
     \<and> sg_ctx e3 = Some demo_ctx"
proof -
  obtain e' where e': "deliver_current demo_sig = (None, e')" "sg_ctx e' = Some (demo_ctx\<lparr>rdi := 2, rip := 0x400800, rsp := 0x6F48\<rparr>)"
    "sg_slot e' = 1" "length (sg_procs e') = MAX_TASKS" by (rule demo_sig_delivers)
  let ?c = "demo_ctx\<lparr>rdi := 0, rax := 77, rip := 0x400900, rsp := 0x6F50\<rparr>"
  have "procs_inv (sg_procs demo_sig)" unfolding demo_sig_def sig_env.simps
    by (rule procs_inv_upd [OF procs_inv_boot]) (simp add: proc_ok_def bit_sig_mask SIGINT_def NSIG_def)
  from signal_roundtrip [OF this _ _ e'(1,2), of demo_ctx "e'\<lparr>sg_ctx := Some ?c\<rparr>" ?c] e'(3,4) obtain e3 where
    "sigreturn (e'\<lparr>sg_ctx := Some ?c\<rparr>) = (Inr SYS_OK, e3)" "sg_ctx e3 = Some demo_ctx"
    by (auto simp: demo_sig_def MAX_TASKS_def demo_ctx_def)
  then show ?thesis by (intro exI [of _ "e'\<lparr>sg_ctx := Some ?c\<rparr>"] exI [of _ e3]) simp
qed

text \<open>The signal that ends a \<open>sigsuspend\<close> is not delivered if the caller's own mask blocks it: the old mask is back
  before the return path delivers.\<close>

lemma sigsuspend_not_delivered:
  assumes "sg_slot e < length (sg_procs e)" "sg_ctx e = Some c"
    "pr_pending (sg_procs e ! sg_slot e) = sig_mask SIGINT" "pr_blocked (sg_procs e ! sg_slot e) = sig_mask SIGINT"
  shows "\<exists>e'. sigsuspend 0 [] e = Some (SYS_OK, e') \<and> deliver_current e' = (None, e')"
proof -
  let ?s = "sg_slot e"
  have m: "sig_mask SIGINT = 4" "sig_mask SIGKILL = 512" by (simp_all add: sig_mask_def SIGINT_def SIGKILL_def NSIG_def)
  let ?ps = "set_blocked ?s 0 (sg_procs e)"
  have "has_deliverable ?s ?ps" using assms by (simp add: has_deliverable_def set_blocked_def upd_proc_def m)
  then have l: "suspend_loop ?s [] ?ps = Some ?ps" by (simp add: suspend_loop.simps)
  let ?e = "e\<lparr>sg_procs := set_blocked ?s 4 ?ps\<rparr>"
  have s: "sigsuspend 0 [] e = Some (SYS_OK, ?e)" using l assms(4) by (simp add: sigsuspend_def Let_def blocked_of_def m)
  have "sg_procs ?e ! ?s = (sg_procs e ! ?s)\<lparr>pr_blocked := 4\<rparr>" using assms(1) by (simp add: set_blocked_def upd_proc_def m)
  then have "dequeue ?s (sg_procs ?e) = (None, sg_procs ?e)" using assms(3) by (simp add: dequeue_def Let_def m)
  then have "deliver_current ?e = (None, ?e)" using assms(2) by (simp add: deliver_current_def)
  with s show ?thesis by blast
qed

end
