(* ===== verification/Lifecycle.thy ===== *)
theory Lifecycle
  imports Posix Task Signal
begin

text \<open>
  \<open>fork\<close> and \<open>execve\<close> of \<^verbatim>\<open>src/kernel-core/src/process/lifecycle.rs\<close>, and \<open>nanosleep\<close> of \<^verbatim>\<open>syscall.rs\<close>. The
  architecture's address-space and stack builders (\<^verbatim>\<open>UserOps::clone_root\<close>, \<open>free_root\<close>, \<^verbatim>\<open>TaskOps::init_fork_stack\<close>,
  \<open>exec_image\<close>) are a record of functions on the frame allocator; \<open>lf_mem\<close> is the caller's user memory, \<open>lf_root\<close> the
  root last loaded by \<open>load_root\<close>.
\<close>

section \<open>Argument vectors\<close>

definition MAX_ARGS :: nat where "MAX_ARGS = 16"
definition ARG_MAX_BYTES :: nat where "ARG_MAX_BYTES = 128"

text \<open>\<open>n\<close> bytes of the string buffer are left.\<close>

fun parse_str :: "nat \<Rightarrow> u64 \<Rightarrow> u8 list \<Rightarrow> umem \<Rightarrow> u8 list res" where
  "parse_str 0 p acc m = Inr acc"
| "parse_str (Suc n) p acc m =
     (case copy_in 1 p m of
        None \<Rightarrow> Inl SYS_ERR_FAULT
      | Some bs \<Rightarrow> if bs ! 0 = 0 then Inr acc else if n = 0 then Inl SYS_ERR_INVAL else parse_str n (p + 1) (acc @ [bs ! 0]) m)"

fun parse_loop :: "nat \<Rightarrow> u64 \<Rightarrow> u8 list list \<Rightarrow> umem \<Rightarrow> u8 list list res" where
  "parse_loop 0 ptr acc m = Inl SYS_ERR_INVAL"
| "parse_loop (Suc room) ptr acc m =
     (case copy_in 8 ptr m of
        None \<Rightarrow> Inl SYS_ERR_FAULT
      | Some w \<Rightarrow>
          if le64 w = 0 then Inr acc
          else (case parse_str ARG_MAX_BYTES (le64 w) [] m of
                  Inl e \<Rightarrow> Inl e
                | Inr s \<Rightarrow> parse_loop room (ptr + 8) (acc @ [s]) m))"

definition parse_vec :: "u64 \<Rightarrow> umem \<Rightarrow> u8 list list res" where
  "parse_vec ptr m = (if ptr = 0 then Inr [] else parse_loop MAX_ARGS ptr [] m)"

section \<open>fork\<close>

record life_ops =
  lo_clone_root :: "u64 \<Rightarrow> frame_state \<Rightarrow> u64 option \<times> frame_state"
  lo_free_root :: "u64 \<Rightarrow> frame_state \<Rightarrow> frame_state"
  lo_init_fork_stack :: "user_context \<Rightarrow> frame_state \<Rightarrow> (u64 \<times> u64 \<times> u64) option \<times> frame_state"
  lo_exec_image :: "u8 list \<Rightarrow> u8 list list \<Rightarrow> u8 list list \<Rightarrow> frame_state \<Rightarrow> (u64 \<times> u64 \<times> u64 \<times> u64) option \<times> frame_state"

record life_env =
  lf_kernel :: kernel
  lf_mem :: umem
  lf_ctx :: "user_context option"
  lf_root :: u64

definition upd_frames :: "(frame_state \<Rightarrow> frame_state) \<Rightarrow> life_env \<Rightarrow> life_env" where
  "upd_frames f e = e\<lparr>lf_kernel := (lf_kernel e)\<lparr>k_frames := f (k_frames (lf_kernel e))\<rparr>\<rparr>"

definition fork :: "life_ops \<Rightarrow> u64 \<Rightarrow> life_env \<Rightarrow> u64 \<times> life_env" where
  "fork ops dead_body e =
     (case lf_ctx e of
        None \<Rightarrow> (SYS_ERR_NOSYS, e)
      | Some ctx \<Rightarrow>
          let k = lf_kernel e; parent = current_slot k in
          (case lo_clone_root ops (current_vm_root k) (k_frames k) of
             (None, f) \<Rightarrow> (SYS_ERR_NOMEM, upd_frames (\<lambda>_. f) e)
           | (Some child_root, f) \<Rightarrow>
               (case lo_init_fork_stack ops (ctx\<lparr>rax := 0\<rparr>) f of
                  (None, f') \<Rightarrow> (SYS_ERR_NOMEM, upd_frames (\<lambda>_. lo_free_root ops child_root f') e)
                | (Some (phys, ktop, sp), f') \<Rightarrow>
                    (case register_fork parent
                        \<lparr>tk_state = Ready, tk_rsp = sp, tk_vm_root = child_root, tk_kernel_stack_top = ktop, tk_is_user = True,
                         tk_stack_phys = phys, tk_body = dead_body, tk_id = 0, tk_exit_code = 0, tk_heap_base = 0\<rparr>
                        (k\<lparr>k_frames := f'\<rparr>) of
                       (Some i, k') \<Rightarrow> (i, e\<lparr>lf_kernel := k'\<rparr>)
                     | (None, k') \<Rightarrow> (SYS_ERR_NOMEM, upd_frames (lo_free_root ops child_root) (e\<lparr>lf_kernel := k'\<rparr>))))))"

section \<open>execve\<close>

definition DEFAULT_ENV :: "u8 list list" where
  "DEFAULT_ENV = map bytes_of
     [''PATH=/bin:/usr/bin'', ''HOME=/'', ''PWD=/'', ''TERM=fantuan'', ''USER=root'']"

definition zero_ctx :: user_context where
  "zero_ctx = \<lparr>r15 = 0, r14 = 0, r13 = 0, r12 = 0, r11 = 0, r10 = 0, r9 = 0, r8 = 0, rbp = 0, rdi = 0, rsi = 0, rdx = 0,
     rcx = 0, rbx = 0, rax = 0, rip = 0, rflags = 0, rsp = 0\<rparr>"

definition execve :: "life_ops \<Rightarrow> bins \<Rightarrow> u64 \<Rightarrow> u64 \<Rightarrow> u64 \<Rightarrow> life_env \<Rightarrow> u64 \<times> life_env" where
  "execve ops bins path argv envp e =
     (if lf_ctx e = None then (SYS_ERR_NOSYS, e)
      else case cpath path (lf_mem e) of Inl err \<Rightarrow> (err, e) | Inr p \<Rightarrow>
        (case parse_vec argv (lf_mem e) of Inl err \<Rightarrow> (err, e) | Inr args \<Rightarrow>
          (case parse_vec envp (lf_mem e) of Inl err \<Rightarrow> (err, e) | Inr envs \<Rightarrow>
            (case bins p of None \<Rightarrow> (SYS_ERR_NOENT, e) | Some img \<Rightarrow>
              (case lo_exec_image ops img (if args = [] then [[]] else args) (if envs = [] then DEFAULT_ENV else envs)
                      (k_frames (lf_kernel e)) of
                 (None, f) \<Rightarrow> (SYS_ERR_NOEXEC, upd_frames (\<lambda>_. f) e)
               | (Some (entry, user_rsp, new_root, heap_base), f) \<Rightarrow>
                   let k = lf_kernel e; slot = current_slot k; old_root = current_vm_root k;
                       k1 = k\<lparr>k_procs := vma_clear slot (signal_reset_for_exec slot (k_procs k)),
                              k_fs := exec_close slot (k_fs k), k_brk := brk_init_task slot heap_base (k_brk k)\<rparr>;
                       k2 = (set_current_vm_root new_root k1)\<lparr>k_frames := lo_free_root ops old_root f\<rparr> in
                   (SYS_OK, e\<lparr>lf_kernel := k2, lf_root := new_root,
                              lf_ctx := Some (zero_ctx\<lparr>rip := entry, rsp := user_rsp\<rparr>)\<rparr>))))))"

section \<open>nanosleep\<close>

text \<open>\<^term>\<open>Inl e\<close>: refused; \<^term>\<open>Inr ms\<close>: the milliseconds slept, none when zero.\<close>

definition nanosleep_ms :: "u64 \<Rightarrow> umem \<Rightarrow> u64 res" where
  "nanosleep_ms req m =
     (case copy_in 16 req m of
        None \<Rightarrow> Inl SYS_ERR_FAULT
      | Some bs \<Rightarrow>
          let sec = le64 (take 8 bs); nsec = le64 (drop 8 bs) in
          if sint sec < 0 \<or> sint nsec < 0 \<or> sint nsec \<ge> 1000000000 then Inl SYS_ERR_INVAL
          else Inr (sec * 1000 + nsec div 1000000))"

definition nanosleep :: "task_ops \<Rightarrow> u64 \<Rightarrow> u64 \<Rightarrow> u64 \<Rightarrow> u64 \<Rightarrow> life_env \<Rightarrow> u64 \<times> life_env" where
  "nanosleep ops req now now' sp e =
     (case nanosleep_ms req (lf_mem e) of
        Inl err \<Rightarrow> (err, e)
      | Inr ms \<Rightarrow> (SYS_OK, if ms > 0 then e\<lparr>lf_kernel := sleep_ms ops ms now now' sp (lf_kernel e)\<rparr> else e))"

section \<open>Properties\<close>

text \<open>A well-formed string and vector in user memory.\<close>

definition cstring_at :: "umem \<Rightarrow> u64 \<Rightarrow> u8 list \<Rightarrow> bool" where
  "cstring_at m p s \<longleftrightarrow> 0 \<notin> set s \<and> length s < ARG_MAX_BYTES \<and> user_range p (length s + 1) \<and> user_bytes p (length s + 1) m = s @ [0]"

lemma user_bytes_nth: "i < n \<Longrightarrow> user_bytes p n m ! i = m (p + of_nat i)"
  by (simp add: user_bytes_def)

lemma copy_in_byte: "user_range p n \<Longrightarrow> i < n \<Longrightarrow> copy_in 1 (p + of_nat i) m = Some [m (p + of_nat i)]"
  using copy_in_user [of p n i 1 m] by (simp add: user_bytes_def take_Suc_conv_app_nth drop_map)

lemma parse_str_at:
  assumes "cstring_at m p s" "i \<le> length s"
  shows "parse_str (ARG_MAX_BYTES - i) (p + of_nat i) (take i s) m = Inr s"
  using assms(2)
proof (induction "length s - i" arbitrary: i)
  case 0
  then have i: "i = length s" by simp
  have "m (p + of_nat i) = user_bytes p (length s + 1) m ! i" by (rule user_bytes_nth [symmetric]) (use i in simp)
  then have "m (p + of_nat i) = 0" using assms(1) i by (simp add: cstring_at_def)
  moreover have "ARG_MAX_BYTES - i = Suc (ARG_MAX_BYTES - Suc i)" using assms(1) i by (simp add: cstring_at_def Suc_diff_Suc)
  ultimately show ?case using copy_in_byte [of p "length s + 1" i m] assms(1) i by (simp add: cstring_at_def)
next
  case (Suc n)
  then have i: "i < length s" by simp
  have "m (p + of_nat i) = user_bytes p (length s + 1) m ! i" by (rule user_bytes_nth [symmetric]) (use i in simp)
  then have b: "m (p + of_nat i) = s ! i" using assms(1) i by (simp add: cstring_at_def nth_append)
  then have nz: "m (p + of_nat i) \<noteq> 0" using assms(1) nth_mem [OF i] unfolding cstring_at_def by metis
  have r: "ARG_MAX_BYTES - i = Suc (ARG_MAX_BYTES - Suc i)" "ARG_MAX_BYTES - Suc i \<noteq> 0" using assms(1) i by (auto simp: cstring_at_def Suc_diff_Suc)
  have "parse_str (ARG_MAX_BYTES - i) (p + of_nat i) (take i s) m = parse_str (ARG_MAX_BYTES - Suc i) (p + of_nat (Suc i)) (take (Suc i) s) m"
    using copy_in_byte [of p "length s + 1" i m] assms(1) i nz b unfolding r(1)
    by (simp add: cstring_at_def r(2) take_Suc_conv_app_nth ac_simps)
  also have "\<dots> = Inr s" using Suc by (intro Suc.hyps) auto
  finally show ?case .
qed

definition vector_at :: "umem \<Rightarrow> u64 \<Rightarrow> u8 list list \<Rightarrow> bool" where
  "vector_at m ptr ss \<longleftrightarrow> user_range ptr (8 * length ss + 8) \<and> length ss < MAX_ARGS
     \<and> (\<exists>ps. length ps = length ss \<and> 0 \<notin> set ps \<and> list_all2 (cstring_at m) ps ss \<and> user_bytes ptr (8 * length ss + 8) m = words_bytes (ps @ [0]))"

lemma parse_loop_at:
  assumes r: "user_range ptr (8 * length ss + 8)" "length ss < MAX_ARGS" and ps: "length ps = length ss" "0 \<notin> set ps" "list_all2 (cstring_at m) ps ss"
    "user_bytes ptr (8 * length ss + 8) m = words_bytes (ps @ [0])" and i: "i \<le> length ss"
  shows "parse_loop (MAX_ARGS - i) (ptr + of_nat (8 * i)) (take i ss) m = Inr ss"
  using i
proof (induction "length ss - i" arbitrary: i)
  case (0 i)
  then have i: "i = length ss" by simp
  have w: "copy_in 8 (ptr + of_nat (8 * i)) m = Some (to_le64 0)"
    using copy_in_user [OF r(1), of "8 * i" 8 m] words_bytes_nth [of i "ps @ [0]"] ps(1,4) i by (simp add: nth_append)
  have "MAX_ARGS - i = Suc (MAX_ARGS - Suc i)" using r(2) i by (simp add: Suc_diff_Suc)
  with w show ?case by (simp add: i)
next
  case (Suc n)
  then have i: "i < length ss" by simp
  have w: "copy_in 8 (ptr + of_nat (8 * i)) m = Some (to_le64 (ps ! i))"
    using copy_in_user [OF r(1), of "8 * i" 8 m] words_bytes_nth [of i "ps @ [0]"] ps(1,4) i by (simp add: nth_append)
  have nz: "ps ! i \<noteq> 0" using ps(2) nth_mem [of i ps] i unfolding ps(1) by metis
  have "parse_str ARG_MAX_BYTES (ps ! i) [] m = Inr (ss ! i)"
    using parse_str_at [of m "ps ! i" "ss ! i" 0] ps(3) i by (simp add: list_all2_conv_all_nth ps(1))
  moreover have "MAX_ARGS - i = Suc (MAX_ARGS - Suc i)" using r(2) i by (simp add: Suc_diff_Suc)
  ultimately have "parse_loop (MAX_ARGS - i) (ptr + of_nat (8 * i)) (take i ss) m = parse_loop (MAX_ARGS - Suc i) (ptr + of_nat (8 * Suc i)) (take (Suc i) ss) m"
    using w nz i by (simp add: take_Suc_conv_app_nth algebra_simps)
  also have "\<dots> = Inr ss" using Suc by (intro Suc.hyps) auto
  finally show ?case .
qed

lemma parse_vec_at: "vector_at m ptr ss \<Longrightarrow> parse_vec ptr m = Inr ss"
  using parse_loop_at [of ptr ss _ m 0] by (auto simp: vector_at_def parse_vec_def user_range_def)

lemma cpath_loop_err: "cpath_loop n p acc m = Inl e \<Longrightarrow> e \<in> {SYS_ERR_FAULT, SYS_ERR_NAMETOOLONG}"
  by (induction n p acc m rule: cpath_loop.induct) (auto split: option.splits if_splits)

lemma parse_str_err: "parse_str n p acc m = Inl e \<Longrightarrow> e \<in> {SYS_ERR_FAULT, SYS_ERR_INVAL}"
  by (induction n p acc m rule: parse_str.induct) (auto split: option.splits if_splits)

lemma parse_loop_err: "parse_loop n p acc m = Inl e \<Longrightarrow> e \<in> {SYS_ERR_FAULT, SYS_ERR_INVAL}"
  by (induction n p acc m rule: parse_loop.induct) (auto split: option.splits if_splits sum.splits dest: parse_str_err)

lemma errors_not_ok: "SYS_ERR_FAULT \<noteq> SYS_OK" "SYS_ERR_NAMETOOLONG \<noteq> SYS_OK" "SYS_ERR_INVAL \<noteq> SYS_OK" "SYS_ERR_NOSYS \<noteq> SYS_OK"
  "SYS_ERR_NOENT \<noteq> SYS_OK" "SYS_ERR_NOEXEC \<noteq> SYS_OK"
  by (simp_all add: abi_defs)

lemma exec_parse_err:
  "cpath p m = Inl e \<Longrightarrow> e \<noteq> SYS_OK" "parse_vec v m = Inl e \<Longrightarrow> e \<noteq> SYS_OK"
  using cpath_loop_err parse_loop_err errors_not_ok by (fastforce simp: cpath_def parse_vec_def split: if_splits)+

lemma reset_fold_at:
  assumes "distinct ss" "\<forall>s\<in>set ss. s < length acts"
  shows "fold (\<lambda>s acts. if a_handler (acts ! s) \<noteq> SIG_IGN then acts[s := DEFAULT_ACTION] else acts) ss acts ! j =
    (if j \<in> set ss \<and> a_handler (acts ! j) \<noteq> SIG_IGN then DEFAULT_ACTION else acts ! j)"
  using assms by (induction ss arbitrary: acts) (auto simp: nth_list_update)

lemma upd_frames_id: "upd_frames (\<lambda>_. k_frames (lf_kernel e)) e = e"
  by (simp add: upd_frames_def)

text \<open>How \<open>execve\<close> ends: with an error that leaves everything but the frame allocator as it was, or by committing.\<close>

lemma execve_cases:
  assumes "execve ops bins path argv envp e = (r, e')"
  obtains (failed) f where "r \<noteq> SYS_OK" "e' = upd_frames (\<lambda>_. f) e"
  | (committed) entry user_rsp new_root heap_base f where "r = SYS_OK"
      "lf_kernel e' = (set_current_vm_root new_root ((lf_kernel e)\<lparr>
         k_procs := vma_clear (k_current (lf_kernel e)) (signal_reset_for_exec (k_current (lf_kernel e)) (k_procs (lf_kernel e))),
         k_fs := exec_close (k_current (lf_kernel e)) (k_fs (lf_kernel e)), k_brk := brk_init_task (k_current (lf_kernel e)) heap_base (k_brk (lf_kernel e))\<rparr>))\<lparr>k_frames := f\<rparr>"
      "lf_root e' = new_root" "lf_ctx e' = Some (zero_ctx\<lparr>rip := entry, rsp := user_rsp\<rparr>)"
proof -
  note f0 = upd_frames_id [of e, symmetric]
  show thesis
  proof (cases "lf_ctx e")
    case None
    then have "r \<noteq> SYS_OK \<and> e' = e" using assms by (auto simp: execve_def errors_not_ok)
    then show thesis using failed f0 by metis
  next
    case (Some ctx)
    show thesis
    proof (cases "\<exists>p args envs img. cpath path (lf_mem e) = Inr p \<and> parse_vec argv (lf_mem e) = Inr args \<and> parse_vec envp (lf_mem e) = Inr envs \<and> bins p = Some img")
      case False
      then have "r \<noteq> SYS_OK \<and> e' = e" using assms Some
        by (auto simp: execve_def errors_not_ok exec_parse_err split: sum.splits option.splits)
      then show thesis using failed f0 by metis
    next
      case True
      then obtain p args envs img where p: "cpath path (lf_mem e) = Inr p" "parse_vec argv (lf_mem e) = Inr args"
        "parse_vec envp (lf_mem e) = Inr envs" "bins p = Some img" by blast
      let ?x = "lo_exec_image ops img (if args = [] then [[]] else args) (if envs = [] then DEFAULT_ENV else envs) (k_frames (lf_kernel e))"
      obtain xo f where x: "?x = (xo, f)" by (cases ?x)
      show thesis
      proof (cases xo)
        case None
        with assms Some p x have "r \<noteq> SYS_OK" "e' = upd_frames (\<lambda>_. f) e" by (auto simp: execve_def errors_not_ok)
        then show thesis by (rule failed)
      next
        case xo: (Some img')
        obtain entry user_rsp new_root heap_base where i: "img' = (entry, user_rsp, new_root, heap_base)" by (cases img')
        from assms Some p x xo i show thesis
          by (intro committed [where new_root = new_root and heap_base = heap_base and f = "lo_free_root ops (current_vm_root (lf_kernel e)) f" and entry = entry and user_rsp = user_rsp])
            (auto simp: execve_def Let_def current_slot_def)
      qed
    qed
  qed
qed


definition demo_life :: life_env where
  "demo_life = \<lparr>lf_kernel = task_init demo_ops 0 0x9000 (demo_kernel\<lparr>k_tasks := replicate MAX_TASKS (EMPTY_TASK 0), k_current := 0\<rparr>),
     lf_mem = (\<lambda>a. if a = 0x1000 then 97 else 0), lf_ctx = Some demo_ctx, lf_root = 0\<rparr>"

definition demo_life_ops :: life_ops where
  "demo_life_ops = \<lparr>lo_clone_root = (\<lambda>r f. (Some (r + 0x1000), f)), lo_free_root = (\<lambda>_ f. f),
     lo_init_fork_stack = (\<lambda>_ f. (Some (0x8000, 0xC000, 0xBF00), f)),
     lo_exec_image = (\<lambda>_ _ _ f. (Some (0x400000, 0x7000, 0x5000, 0x600000), f))\<rparr>"


end
