(* ===== verification/Sha256.thy ===== *)
theory Sha256
  imports Prelude
begin

text \<open>
  The streaming SHA-256 of \<open>src/kernel-core/src/sha256.rs\<close>, which the disk imager uses to compare a copy with
  its source: the state record, the compression function with its in-place message schedule, \<open>update\<close> with its
  partial-block buffer, and \<open>finish\<close> with its padding loop.  The reference is FIPS 180-4 over whole messages.
\<close>

unbundle bit_operations_syntax

section \<open>The state\<close>

record sha256 =
  sha_state :: "u32 list"
  sha_buf :: "u8 list"
  sha_buf_len :: nat
  sha_total :: u64

definition sha_K :: "u32 list" where
  "sha_K =
    [0x428a2f98, 0x71374491, 0xb5c0fbcf, 0xe9b5dba5, 0x3956c25b, 0x59f111f1, 0x923f82a4, 0xab1c5ed5]
     @ [0xd807aa98, 0x12835b01, 0x243185be, 0x550c7dc3, 0x72be5d74, 0x80deb1fe, 0x9bdc06a7, 0xc19bf174]
     @ [0xe49b69c1, 0xefbe4786, 0x0fc19dc6, 0x240ca1cc, 0x2de92c6f, 0x4a7484aa, 0x5cb0a9dc, 0x76f988da]
     @ [0x983e5152, 0xa831c66d, 0xb00327c8, 0xbf597fc7, 0xc6e00bf3, 0xd5a79147, 0x06ca6351, 0x14292967]
     @ [0x27b70a85, 0x2e1b2138, 0x4d2c6dfc, 0x53380d13, 0x650a7354, 0x766a0abb, 0x81c2c92e, 0x92722c85]
     @ [0xa2bfe8a1, 0xa81a664b, 0xc24b8b70, 0xc76c51a3, 0xd192e819, 0xd6990624, 0xf40e3585, 0x106aa070]
     @ [0x19a4c116, 0x1e376c08, 0x2748774c, 0x34b0bcb5, 0x391c0cb3, 0x4ed8aa4a, 0x5b9cca4f, 0x682e6ff3]
     @ [0x748f82ee, 0x78a5636f, 0x84c87814, 0x8cc70208, 0x90befffa, 0xa4506ceb, 0xbef9a3f7, 0xc67178f2]"

definition sha_H0 :: "u32 list" where
  "sha_H0 = [0x6a09e667, 0xbb67ae85, 0x3c6ef372, 0xa54ff53a, 0x510e527f, 0x9b05688c, 0x1f83d9ab, 0x5be0cd19]"

definition sha_new :: sha256 where
  "sha_new = \<lparr>sha_state = sha_H0, sha_buf = replicate 64 0, sha_buf_len = 0, sha_total = 0\<rparr>"

section \<open>Compression\<close>

definition be32 :: "u8 \<Rightarrow> u8 \<Rightarrow> u8 \<Rightarrow> u8 \<Rightarrow> u32" where
  "be32 a b c d = le32 d c b a"

definition to_be32 :: "u32 \<Rightarrow> u8 list" where
  "to_be32 w = rev (to_le32 w)"

definition to_be64 :: "u64 \<Rightarrow> u8 list" where
  "to_be64 w = rev (to_le64 w)"

text \<open>The message schedule: the first loop reads the block, the second extends it to 64 words.\<close>

definition sched_word :: "u32 list \<Rightarrow> nat \<Rightarrow> u32" where
  "sched_word w i =
     (let s0 = word_rotr 7 (w ! (i - 15)) XOR word_rotr 18 (w ! (i - 15)) XOR drop_bit 3 (w ! (i - 15));
          s1 = word_rotr 17 (w ! (i - 2)) XOR word_rotr 19 (w ! (i - 2)) XOR drop_bit 10 (w ! (i - 2))
      in w ! (i - 16) + s0 + w ! (i - 7) + s1)"

definition sha_schedule :: "u8 list \<Rightarrow> u32 list" where
  "sha_schedule block =
     fold (\<lambda>i w. w[i := sched_word w i]) [16..<64]
       (fold (\<lambda>i w. w[i := be32 (block ! (i * 4)) (block ! (i * 4 + 1)) (block ! (i * 4 + 2)) (block ! (i * 4 + 3))])
          [0..<16] (replicate 64 0))"

text \<open>One round on the working variables \<open>a\<close> to \<open>h\<close>.\<close>

type_synonym sha_vars = "u32 \<times> u32 \<times> u32 \<times> u32 \<times> u32 \<times> u32 \<times> u32 \<times> u32"

fun sha_round :: "u32 \<Rightarrow> u32 \<Rightarrow> sha_vars \<Rightarrow> sha_vars" where
  "sha_round k w (a, b, c, d, e, f, g, h) =
     (let s1 = word_rotr 6 e XOR word_rotr 11 e XOR word_rotr 25 e;
          ch = (e AND f) XOR (NOT e AND g);
          t1 = h + s1 + ch + k + w;
          s0 = word_rotr 2 a XOR word_rotr 13 a XOR word_rotr 22 a;
          maj = (a AND b) XOR (a AND c) XOR (b AND c);
          t2 = s0 + maj
      in (t1 + t2, a, b, c, d + t1, e, f, g))"

definition compress :: "u8 list \<Rightarrow> u32 list \<Rightarrow> u32 list" where
  "compress block st =
     (let w = sha_schedule block in
      case fold (\<lambda>i. sha_round (sha_K ! i) (w ! i)) [0..<64]
             (st ! 0, st ! 1, st ! 2, st ! 3, st ! 4, st ! 5, st ! 6, st ! 7) of
        (a, b, c, d, e, f, g, h) \<Rightarrow> map2 (+) st [a, b, c, d, e, f, g, h])"

section \<open>Streaming\<close>

text \<open>The loop of \<open>update\<close> over whole blocks; the bytes left over are the second result.\<close>

function sha_blocks :: "u8 list \<Rightarrow> u32 list \<Rightarrow> u32 list \<times> u8 list" where
  "sha_blocks data st =
     (if 64 \<le> length data then sha_blocks (drop 64 data) (compress (take 64 data) st) else (st, data))"
  by pat_completeness auto
termination by (relation "measure (\<lambda>(data, _). length data)") auto

declare sha_blocks.simps [simp del]

text \<open>The first step of \<open>update\<close>: fill up a block that is already started.\<close>

definition sha_fill :: "u8 list \<Rightarrow> sha256 \<Rightarrow> sha256 \<times> u8 list" where
  "sha_fill data s =
     (if sha_buf_len s > 0 then
        let n = min (64 - sha_buf_len s) (length data);
            buf' = take (sha_buf_len s) (sha_buf s) @ take n data @ drop (sha_buf_len s + n) (sha_buf s);
            s1 = s\<lparr>sha_buf := buf', sha_buf_len := sha_buf_len s + n\<rparr> in
        (if sha_buf_len s1 = 64 then s1\<lparr>sha_state := compress buf' (sha_state s), sha_buf_len := 0\<rparr> else s1,
         drop n data)
      else (s, data))"

definition sha_update :: "u8 list \<Rightarrow> sha256 \<Rightarrow> sha256" where
  "sha_update data s =
     (let (s1, data1) = sha_fill data (s\<lparr>sha_total := sha_total s + of_nat (length data)\<rparr>);
          (st, rest) = sha_blocks data1 (sha_state s1);
          s2 = s1\<lparr>sha_state := st\<rparr> in
      if rest \<noteq> [] then s2\<lparr>sha_buf := rest @ drop (length rest) (sha_buf s2), sha_buf_len := length rest\<rparr> else s2)"

text \<open>The padding loop of \<open>finish\<close>; \<open>None\<close> if it never ends.\<close>

partial_function (option) sha_pad :: "sha256 \<Rightarrow> sha256 option" where
  "sha_pad s = (if sha_buf_len s \<noteq> 56 then sha_pad (sha_update [0] s) else Some s)"

definition sha_finish :: "sha256 \<Rightarrow> u8 list option" where
  "sha_finish s =
     (let bits = sha_total s * 8 in
      case sha_pad (sha_update [0x80] s) of
        None \<Rightarrow> None
      | Some s1 \<Rightarrow> Some (concat (map to_be32 (sha_state (sha_update (to_be64 bits) s1)))))"

definition digest :: "u8 list \<Rightarrow> u8 list option" where
  "digest data = sha_finish (sha_update data sha_new)"

section \<open>The standard\<close>

text \<open>FIPS 180-4 as a reference: the padding of section 5.1.1, the parsing of 5.2.1 into 64-byte blocks, the
  message schedule of 6.2.2 by its recurrence, and the sum of the working variables into the hash value.\<close>

definition fips_pad :: "u8 list \<Rightarrow> u8 list" where
  "fips_pad m = m @ [0x80] @ replicate ((119 - length m mod 64) mod 64) 0 @ to_be64 (8 * of_nat (length m))"

definition fips_blocks :: "u8 list \<Rightarrow> u8 list list" where
  "fips_blocks m = map (\<lambda>i. take 64 (drop (64 * i) m)) [0..<length m div 64]"

definition sigma0 :: "u32 \<Rightarrow> u32" where
  "sigma0 x = word_rotr 7 x XOR word_rotr 18 x XOR drop_bit 3 x"

definition sigma1 :: "u32 \<Rightarrow> u32" where
  "sigma1 x = word_rotr 17 x XOR word_rotr 19 x XOR drop_bit 10 x"

fun fips_W :: "u8 list \<Rightarrow> nat \<Rightarrow> u32" where
  "fips_W M t =
     (if t < 16 then be32 (M ! (4 * t)) (M ! (4 * t + 1)) (M ! (4 * t + 2)) (M ! (4 * t + 3))
      else sigma1 (fips_W M (t - 2)) + fips_W M (t - 7) + sigma0 (fips_W M (t - 15)) + fips_W M (t - 16))"

declare fips_W.simps [simp del]

definition fips_compress :: "u8 list \<Rightarrow> u32 list \<Rightarrow> u32 list" where
  "fips_compress M H =
     (case fold (\<lambda>t. sha_round (sha_K ! t) (fips_W M t)) [0..<64]
             (H ! 0, H ! 1, H ! 2, H ! 3, H ! 4, H ! 5, H ! 6, H ! 7) of
        (a, b, c, d, e, f, g, h) \<Rightarrow> map2 (+) H [a, b, c, d, e, f, g, h])"

definition fips_sha256 :: "u8 list \<Rightarrow> u8 list" where
  "fips_sha256 m = concat (map to_be32 (fold fips_compress (fips_blocks (fips_pad m)) sha_H0))"

section \<open>The message schedule\<close>

lemma length_fold_upd [simp]: "length (fold (\<lambda>i w. w[i := f w i]) is w) = length w"
  by (induction "is" arbitrary: w) simp_all

lemma sched_load:
  assumes "n \<le> 16" and "i < n"
  shows "fold (\<lambda>i w. w[i := g i]) [0..<n] (replicate 64 (0 :: u32)) ! i = g i"
  using assms by (induction n) (auto simp: nth_list_update less_Suc_eq)

lemma sched_extend:
  assumes "\<And>i. i < 16 \<Longrightarrow> w0 ! i = fips_W M i" and "length w0 = 64" and "16 + n \<le> 64" and "i < 16 + n"
  shows "fold (\<lambda>i w. w[i := sched_word w i]) [16..<16 + n] w0 ! i = fips_W M i"
  using assms(3,4)
proof (induction n arbitrary: i)
  case 0
  then show ?case using assms(1) by simp
next
  case (Suc n)
  let ?w = "fold (\<lambda>i w. w[i := sched_word w i]) [16..<16 + n] w0"
  have old: "?w ! j = fips_W M j" if "j < 16 + n" for j using Suc.IH that Suc.prems(1) by simp
  have "sched_word ?w (16 + n) = ?w ! n + sigma0 (?w ! (1 + n)) + ?w ! (9 + n) + sigma1 (?w ! (14 + n))"
    by (simp add: sched_word_def Let_def sigma0_def sigma1_def)
  also have "\<dots> = fips_W M n + sigma0 (fips_W M (1 + n)) + fips_W M (9 + n) + sigma1 (fips_W M (14 + n))"
    by (simp add: old)
  also have "\<dots> = fips_W M (16 + n)"
    by (subst (5) fips_W.simps) simp
  finally have "sched_word ?w (16 + n) = fips_W M (16 + n)" .
  moreover have "[16..<16 + Suc n] = [16..<16 + n] @ [16 + n]" using upt_Suc_append [of 16 "16 + n"] by simp
  ultimately show ?case using Suc.prems old [of i] assms(2) by (auto simp: nth_list_update)
qed

lemma sha_schedule_nth: "i < 64 \<Longrightarrow> sha_schedule M ! i = fips_W M i"
proof -
  assume i: "i < 64"
  let ?g = "\<lambda>i. be32 (M ! (i * 4)) (M ! (i * 4 + 1)) (M ! (i * 4 + 2)) (M ! (i * 4 + 3))"
  let ?w0 = "fold (\<lambda>i w. w[i := ?g i]) [0..<16] (replicate 64 0)"
  have "?w0 ! j = fips_W M j" if "j < 16" for j
    unfolding sched_load [OF order_refl that, of ?g] using that by (simp add: fips_W.simps [of M j] mult.commute)
  from sched_extend [OF this _ _, of 48 i] i show ?thesis by (simp add: sha_schedule_def del: upt_rec_numeral)
qed

lemma compress_fips: "compress = fips_compress"
proof (intro ext)
  fix M H
  have "fold (\<lambda>i. sha_round (sha_K ! i) (sha_schedule M ! i)) [0..<64] v
      = fold (\<lambda>t. sha_round (sha_K ! t) (fips_W M t)) [0..<64] v" for v
    by (rule fold_cong) (simp_all add: sha_schedule_nth del: upt_rec_numeral)
  then show "compress M H = fips_compress M H" by (simp add: compress_def fips_compress_def Let_def del: upt_rec_numeral)
qed

section \<open>Streaming computes the standard's digest\<close>

lemma sha_blocks_short [simp]: "length data < 64 \<Longrightarrow> sha_blocks data st = (st, data)"
  by (simp add: sha_blocks.simps)

lemma sha_blocks_more:
  "64 \<le> length data \<Longrightarrow> sha_blocks data st = sha_blocks (drop 64 data) (compress (take 64 data) st)"
  by (simp add: sha_blocks.simps [of data])

lemma sha_blocks_append:
  "sha_blocks a st = (st', r) \<Longrightarrow> sha_blocks (a @ b) st = sha_blocks (r @ b) st'"
proof (induction a st rule: sha_blocks.induct)
  case (1 a st)
  show ?case
  proof (cases "64 \<le> length a")
    case True
    with 1 show ?thesis by (simp add: sha_blocks_more [of a] sha_blocks_more [of "a @ b"])
  qed (use 1 in simp)
qed

lemma sha_blocks_rest: "length (snd (sha_blocks data st)) < 64"
proof (induction data st rule: sha_blocks.induct)
  case (1 a st)
  then show ?case by (cases "64 \<le> length a") (simp_all add: sha_blocks_more [of a])
qed

lemma fips_blocks_more:
  assumes "64 \<le> length m"
  shows "fips_blocks m = take 64 m # fips_blocks (drop 64 m)"
proof -
  have "length m div 64 = Suc ((length m - 64) div 64)" using assms by (simp add: le_div_geq)
  moreover have "[0..<Suc k] = 0 # map Suc [0..<k]" for k by (simp add: map_Suc_upt upt_conv_Cons)
  ultimately show ?thesis by (simp add: fips_blocks_def o_def add.commute)
qed

lemma sha_blocks_spec: "sha_blocks m st = (fold compress (fips_blocks m) st, drop (64 * (length m div 64)) m)"
proof (induction m st rule: sha_blocks.induct)
  case (1 m st)
  show ?case
  proof (cases "64 \<le> length m")
    case True
    then have "64 * (length m div 64) = 64 * ((length m - 64) div 64) + 64" by (simp add: le_div_geq)
    then show ?thesis using 1 True by (simp add: sha_blocks_more [of m] fips_blocks_more add.commute)
  qed (simp add: fips_blocks_def)
qed

text \<open>A state has absorbed the bytes \<open>m\<close>.\<close>

definition sha_inv :: "u8 list \<Rightarrow> sha256 \<Rightarrow> bool" where
  "sha_inv m s \<longleftrightarrow> length (sha_buf s) = 64 \<and> sha_buf_len s < 64 \<and> sha_total s = of_nat (length m)
     \<and> sha_blocks m sha_H0 = (sha_state s, take (sha_buf_len s) (sha_buf s))"

lemma sha_inv_new: "sha_inv [] sha_new"
  by (simp add: sha_inv_def sha_new_def)

lemma sha_inv_len: "sha_inv m s \<Longrightarrow> sha_buf_len s = length m mod 64"
proof -
  assume "sha_inv m s"
  then have "take (sha_buf_len s) (sha_buf s) = drop (64 * (length m div 64)) m" "length (sha_buf s) = 64" "sha_buf_len s < 64"
    by (simp_all add: sha_inv_def sha_blocks_spec)
  then have "sha_buf_len s = length m - 64 * (length m div 64)"
    by (metis length_drop length_take less_imp_le min.absorb2)
  then show ?thesis by (simp add: minus_mult_div_eq_mod)
qed

lemma sha_fill_inv:
  assumes "length (sha_buf s) = 64" and "sha_buf_len s < 64"
  shows "\<exists>s' d'. sha_fill data s = (s', d') \<and> length (sha_buf s') = 64 \<and> sha_total s' = sha_total s
    \<and> sha_buf_len s' < 64 \<and> (0 < sha_buf_len s' \<longrightarrow> d' = [])
    \<and> sha_blocks (take (sha_buf_len s) (sha_buf s) @ data) (sha_state s)
      = sha_blocks (take (sha_buf_len s') (sha_buf s') @ d') (sha_state s')"
proof -
  let ?l = "sha_buf_len s"
  have tl: "length (take ?l (sha_buf s)) = ?l" using assms by simp
  consider "?l = 0" | "0 < ?l" "length data < 64 - ?l" | "0 < ?l" "64 - ?l \<le> length data" by linarith
  then show ?thesis
  proof cases
    case 2
    moreover from this have "?l + length data < 64" by simp
    ultimately show ?thesis using assms tl by (simp add: sha_fill_def Let_def)
  next
    case 3
    then have "sha_blocks (take ?l (sha_buf s) @ data) (sha_state s)
        = sha_blocks (drop (64 - ?l) data) (compress (take ?l (sha_buf s) @ take (64 - ?l) data) (sha_state s))"
      using assms tl by (simp add: sha_blocks_more [of "take ?l (sha_buf s) @ data"])
    then show ?thesis using 3 assms tl by (simp add: sha_fill_def Let_def min_absorb1)
  qed (use assms in \<open>simp add: sha_fill_def\<close>)
qed

lemma sha_update_inv:
  assumes "sha_inv m s"
  shows "sha_inv (m @ data) (sha_update data s)"
proof -
  let ?s0 = "s\<lparr>sha_total := sha_total s + of_nat (length data)\<rparr>"
  from assms have a: "length (sha_buf ?s0) = 64" "sha_buf_len ?s0 < 64" "sha_total ?s0 = of_nat (length (m @ data))"
    by (simp_all add: sha_inv_def)
  obtain s1 d1 where f: "sha_fill data ?s0 = (s1, d1)" "length (sha_buf s1) = 64" "sha_total s1 = sha_total ?s0"
      "sha_buf_len s1 < 64" "0 < sha_buf_len s1 \<longrightarrow> d1 = []"
      "sha_blocks (take (sha_buf_len s) (sha_buf s) @ data) (sha_state s)
        = sha_blocks (take (sha_buf_len s1) (sha_buf s1) @ d1) (sha_state s1)"
    using sha_fill_inv [OF a(1,2), of data] by auto
  have b: "sha_blocks (m @ data) sha_H0 = sha_blocks (take (sha_buf_len s1) (sha_buf s1) @ d1) (sha_state s1)"
    using sha_blocks_append [of m sha_H0 _ _ data] assms f(6) by (simp add: sha_inv_def)
  obtain st rest where r: "sha_blocks d1 (sha_state s1) = (st, rest)" by fastforce
  then have rl: "length rest < 64" using sha_blocks_rest [of d1 "sha_state s1"] by simp
  show ?thesis
  proof (cases "0 < sha_buf_len s1")
    case True
    then show ?thesis using f b r a(3) by (simp add: sha_update_def sha_inv_def)
  next
    case False
    then show ?thesis using f b r rl a(3) by (cases "rest = []") (simp_all add: sha_update_def sha_inv_def)
  qed
qed

lemma sha_updates_inv: "sha_inv m s \<Longrightarrow> sha_inv (m @ concat chunks) (fold sha_update chunks s)"
proof (induction chunks arbitrary: m s)
  case (Cons c chunks)
  from Cons.IH [OF sha_update_inv [OF Cons.prems, of c]] show ?case by simp
qed simp

lemma sha_pad_inv:
  assumes "sha_inv m s" and "k < 64" and "(length m + k) mod 64 = 56"
  shows "\<exists>s'. sha_pad s = Some s' \<and> sha_inv (m @ replicate k 0) s'"
  using assms
proof (induction k arbitrary: m s)
  case 0
  then show ?case using sha_inv_len [of m s] by (simp add: sha_pad.simps [of s])
next
  case (Suc k)
  have "length m mod 64 \<noteq> 56"
  proof
    assume e: "length m mod 64 = 56"
    have "(length m + Suc k) mod 64 = (length m mod 64 + Suc k) mod 64" by (rule mod_add_left_eq [symmetric])
    then have "(56 + Suc k) mod 64 = 56" using e Suc.prems(3) by simp
    moreover have "(56 + Suc k) mod 64 = (if Suc k < 8 then 56 + Suc k else Suc k - 8)"
      using mod_once [of "56 + Suc k" 64] Suc.prems(2) by auto
    ultimately show False using Suc.prems(2) by (auto split: if_splits)
  qed
  then have "sha_pad s = sha_pad (sha_update [0] s)"
    using sha_inv_len [OF Suc.prems(1)] by (simp add: sha_pad.simps [of s])
  moreover have "sha_inv (m @ [0]) (sha_update [0] s)" by (rule sha_update_inv [OF Suc.prems(1)])
  ultimately show ?case using Suc.IH [of "m @ [0]" "sha_update [0] s"] Suc.prems(2,3) by simp
qed

lemma fips_pad_zeros: "(length (m @ [0x80 :: u8]) + (119 - length m mod 64) mod 64) mod 64 = 56"
proof -
  have l: "length m mod 64 < 64" by simp
  have "(length m mod 64 + 1 + (119 - length m mod 64)) mod 64 = 56" using l by simp
  then have "(length m + 1 + (119 - length m mod 64) mod 64) mod 64 = 56"
    by (metis mod_add_left_eq mod_add_right_eq)
  then show ?thesis by simp
qed

lemma sha_finish_inv:
  assumes "sha_inv m s"
  shows "sha_finish s = Some (fips_sha256 m)"
proof -
  let ?k = "(119 - length m mod 64) mod 64"
  obtain s1 where s1: "sha_pad (sha_update [0x80] s) = Some s1" "sha_inv ((m @ [0x80]) @ replicate ?k 0) s1"
    using sha_pad_inv [OF sha_update_inv [OF assms, of "[0x80]"] _ fips_pad_zeros] by auto
  have t: "sha_total s * 8 = 8 * of_nat (length m)" using assms by (simp add: sha_inv_def)
  have "sha_inv (fips_pad m) (sha_update (to_be64 (sha_total s * 8)) s1)"
    using sha_update_inv [OF s1(2), of "to_be64 (sha_total s * 8)"] t by (simp add: fips_pad_def)
  then have "sha_state (sha_update (to_be64 (sha_total s * 8)) s1) = fold compress (fips_blocks (fips_pad m)) sha_H0"
    by (simp add: sha_inv_def sha_blocks_spec)
  then show ?thesis using s1(1) by (simp add: sha_finish_def fips_sha256_def compress_fips Let_def)
qed

text \<open>C7. However a message is cut into chunks for \<open>update\<close>, \<open>finish\<close> returns, and the digest is the one FIPS
  180-4 assigns to the whole message: the buffering across chunk boundaries loses and duplicates nothing, the
  padding loop ends, and the in-place message schedule is the standard's recurrence.\<close>

theorem sha256_streaming: "sha_finish (fold sha_update chunks sha_new) = Some (fips_sha256 (concat chunks))"
  using sha_finish_inv [OF sha_updates_inv [OF sha_inv_new]] by simp

lemma digest_fips: "digest data = Some (fips_sha256 data)"
  using sha_finish_inv [OF sha_update_inv [OF sha_inv_new]] by (simp add: digest_def)

end
