(* ===== verification/Fat.thy ===== *)
theory Fat
  imports Prelude
begin

text \<open>
  The FAT32 driver of the rescue kernel, under \<open>src/kernel-core/src/vfs\<close>: \<open>fat.rs\<close> (boot sector, chain walks,
  file and directory reads), \<open>fat_write.rs\<close> (cluster allocation, streaming writer, directory entries),
  \<open>fat_dir.rs\<close> (directory creation), \<open>name83.rs\<close> (8.3 names and paths) and the write gate of \<open>repair.rs\<close>.
  The block driver is a device whose sectors may be unreadable or unwritable.  Loops that follow a chain of the
  FAT are partial functions, so that their termination on a corrupt volume is a theorem.
\<close>

unbundle bit_operations_syntax

section \<open>The block device\<close>

text \<open>The device behind \<open>blk_read\<close> and \<open>blk_write\<close>: its sectors, and which of them can be read and written.\<close>

record disk =
  dk_data :: "u64 \<Rightarrow> u8 list"
  dk_readable :: "u64 \<Rightarrow> bool"
  dk_writable :: "u64 \<Rightarrow> bool"

definition read_sector :: "u64 \<Rightarrow> disk \<Rightarrow> u8 list option" where
  "read_sector lba d = (if dk_readable d lba then Some (dk_data d lba) else None)"

definition write_sector :: "u64 \<Rightarrow> u8 list \<Rightarrow> disk \<Rightarrow> bool \<times> disk" where
  "write_sector lba buf d = (if dk_writable d lba then (True, d\<lparr>dk_data := (dk_data d)(lba := buf)\<rparr>) else (False, d))"

section \<open>The volume\<close>

definition EOC :: u32 where "EOC = 0x0FFFFFFF"
definition EOC_MIN :: u32 where "EOC_MIN = 0x0FFFFFF8"
definition MAX_CLUSTER_BYTES :: nat where "MAX_CLUSTER_BYTES = 32 * 1024"
definition ATTR_DIR :: u8 where "ATTR_DIR = 0x10"

record fat32 =
  sectors_per_cluster :: u32
  sectors_per_fat :: u32
  num_fats :: u32
  root_cluster :: u32
  fat_lba :: u64
  data_lba :: u64

definition fat_parse :: "u64 \<Rightarrow> disk \<Rightarrow> fat32 option" where
  "fat_parse part_lba d =
     (case read_sector part_lba d of
        None \<Rightarrow> None
      | Some bpb \<Rightarrow>
          if bpb ! 510 \<noteq> 0x55 \<or> bpb ! 511 \<noteq> 0xAA then None
          else if le16 (bpb ! 11) (bpb ! 12) \<noteq> 512 then None
          else
            let spc = ucast (bpb ! 13);
                reserved = le16 (bpb ! 14) (bpb ! 15);
                nf = ucast (bpb ! 16);
                spf = le32 (bpb ! 36) (bpb ! 37) (bpb ! 38) (bpb ! 39);
                root = le32 (bpb ! 44) (bpb ! 45) (bpb ! 46) (bpb ! 47) in
            if nf = 0 \<or> nf > 4 then None
            else Some \<lparr>sectors_per_cluster = spc, sectors_per_fat = spf, num_fats = nf, root_cluster = root,
                       fat_lba = part_lba + ucast reserved,
                       data_lba = part_lba + ucast reserved + ucast (nf * spf)\<rparr>)"

definition cluster_to_lba :: "fat32 \<Rightarrow> u32 \<Rightarrow> u64" where
  "cluster_to_lba fs n = data_lba fs + (ucast n - 2) * ucast (sectors_per_cluster fs)"

definition cluster_bytes :: "fat32 \<Rightarrow> nat" where
  "cluster_bytes fs = unat (sectors_per_cluster fs * 512)"

definition chain_limit :: "fat32 \<Rightarrow> u64" where
  "chain_limit fs = ucast (sectors_per_fat fs) * 128"

text \<open>The test of every loop that follows a chain.\<close>

definition in_chain :: "u32 \<Rightarrow> bool" where
  "in_chain c \<longleftrightarrow> 2 \<le> c \<and> c < EOC_MIN"

definition next_cluster :: "fat32 \<Rightarrow> disk \<Rightarrow> u32 \<Rightarrow> u32" where
  "next_cluster fs d n =
     (let entry_offset = ucast n * 4 :: u64 in
      case read_sector (fat_lba fs + entry_offset div 512) d of
        None \<Rightarrow> EOC_MIN
      | Some sec \<Rightarrow>
          let off = unat (entry_offset mod 512) in
          le32 (sec ! off) (sec ! (off + 1)) (sec ! (off + 2)) (sec ! (off + 3)) AND 0x0FFFFFFF)"

section \<open>Reading files\<close>

text \<open>The loop over the sectors of one cluster, from byte \<open>done\<close> of it; \<open>got\<close> is the filled part of the
  caller's buffer, \<open>want\<close> the length to reach.  \<open>None\<close>: a sector cannot be read.\<close>

function read_cluster :: "fat32 \<Rightarrow> disk \<Rightarrow> u64 \<Rightarrow> nat \<Rightarrow> nat \<Rightarrow> u8 list \<Rightarrow> u8 list option" where
  "read_cluster fs d lba pos want got =
     (if pos < cluster_bytes fs \<and> length got < want then
        (case read_sector (lba + of_nat (pos div 512)) d of
           None \<Rightarrow> None
         | Some sec \<Rightarrow>
             let in_sec = pos mod 512;
                 n = min (min (512 - in_sec) (cluster_bytes fs - pos)) (want - length got) in
             read_cluster fs d lba (pos + n) want (got @ take n (drop in_sec sec)))
      else Some got)"
  by pat_completeness auto
termination
proof (relation "measure (\<lambda>(fs, d, lba, pos, want, got). cluster_bytes fs - pos)", goal_cases)
  case (2 fs d lba pos want got sec in_sec n)
  have "0 < 512 - pos mod 512" by simp
  with 2 have "0 < n" by simp
  moreover from 2(1) have "pos < cluster_bytes fs" ..
  ultimately show ?case by (simp add: diff_less_mono2)
qed simp

declare read_cluster.simps [simp del]

text \<open>Loops along a chain are partial: the value \<open>None\<close> is a loop that never ends (or a panic), \<open>Some None\<close> is
  the failure the code returns.\<close>

partial_function (option) read_chain :: "fat32 \<Rightarrow> disk \<Rightarrow> nat \<Rightarrow> u32 \<Rightarrow> nat \<Rightarrow> nat \<Rightarrow> u8 list \<Rightarrow> u8 list option option" where
  "read_chain fs d want c hops start got =
     (if length got < want \<and> in_chain c then
        if hops + 1 > unat (chain_limit fs) then Some None
        else
          (case read_cluster fs d (cluster_to_lba fs c) start want got of
             None \<Rightarrow> Some None
           | Some got' \<Rightarrow> read_chain fs d want (next_cluster fs d c) (hops + 1) 0 got')
      else Some (Some got))"

definition read_file :: "fat32 \<Rightarrow> disk \<Rightarrow> u32 \<Rightarrow> u32 \<Rightarrow> nat \<Rightarrow> u8 list option option" where
  "read_file fs d start_cluster fsize buf_len = read_chain fs d (min (unat fsize) buf_len) start_cluster 0 0 []"

fun skip_clusters :: "fat32 \<Rightarrow> disk \<Rightarrow> nat \<Rightarrow> u32 \<Rightarrow> nat \<times> u32" where
  "skip_clusters fs d 0 c = (0, c)"
| "skip_clusters fs d (Suc k) c = (if in_chain c then skip_clusters fs d k (next_cluster fs d c) else (Suc k, c))"

text \<open>A cluster fsize of zero makes the division panic.\<close>

definition read_range :: "fat32 \<Rightarrow> disk \<Rightarrow> u32 \<Rightarrow> u64 \<Rightarrow> nat \<Rightarrow> u8 list option option" where
  "read_range fs d start_cluster offset buf_len =
     (if cluster_bytes fs = 0 then None
      else
        let skip = unat offset div cluster_bytes fs in
        if skip > unat (chain_limit fs) then Some None
        else
          let (left, c) = skip_clusters fs d skip start_cluster in
          if left > 0 \<or> \<not> in_chain c then Some None
          else read_chain fs d buf_len c 0 (unat offset mod cluster_bytes fs) [])"

section \<open>Directories\<close>

record fat_dirent =
  de_name :: "u8 list"
  de_attr :: u8
  de_cluster :: u32
  de_size :: u32

definition dirent_offsets :: "nat list" where
  "dirent_offsets = map (\<lambda>i. 32 * i) [0..<16]"

definition dirent_at :: "u8 list \<Rightarrow> nat \<Rightarrow> fat_dirent" where
  "dirent_at sec off =
     (let e = take 32 (drop off sec) in
      \<lparr>de_name = take 11 e, de_attr = e ! 11,
       de_cluster = push_bit 16 (ucast (le16 (e ! 20) (e ! 21))) OR ucast (le16 (e ! 26) (e ! 27)),
       de_size = le32 (e ! 28) (e ! 29) (e ! 30) (e ! 31)\<rparr>)"

text \<open>The entries \<open>walk_dir\<close> hands to its callback, in order, and whether it returns at this point.\<close>

fun walk_sector :: "u8 list \<Rightarrow> nat list \<Rightarrow> fat_dirent list \<times> bool" where
  "walk_sector sec [] = ([], False)"
| "walk_sector sec (off # offs) =
     (let e = dirent_at sec off in
      if hd (de_name e) = 0 then ([], True)
      else if hd (de_name e) = 0xE5 \<or> de_attr e = 0x0F then walk_sector sec offs
      else let (es, stop) = walk_sector sec offs in (e # es, stop))"

fun walk_cluster :: "disk \<Rightarrow> u64 list \<Rightarrow> fat_dirent list \<times> bool" where
  "walk_cluster d [] = ([], False)"
| "walk_cluster d (lba # lbas) =
     (case read_sector lba d of
        None \<Rightarrow> ([], True)
      | Some sec \<Rightarrow>
          (case walk_sector sec dirent_offsets of
             (es, stop) \<Rightarrow>
               if stop then (es, True) else let (es', stop') = walk_cluster d lbas in (es @ es', stop')))"

text \<open>The sectors of a cluster.\<close>

definition cluster_lbas :: "fat32 \<Rightarrow> u32 \<Rightarrow> u64 list" where
  "cluster_lbas fs c = map (\<lambda>s. cluster_to_lba fs c + of_nat s) [0..<unat (sectors_per_cluster fs)]"

partial_function (option) walk_chain :: "fat32 \<Rightarrow> disk \<Rightarrow> u32 \<Rightarrow> nat \<Rightarrow> fat_dirent list \<Rightarrow> fat_dirent list option" where
  "walk_chain fs d c hops acc =
     (if in_chain c then
        if hops + 1 > unat (chain_limit fs) then Some acc
        else
          (case walk_cluster d (cluster_lbas fs c) of
             (es, stop) \<Rightarrow> if stop then Some (acc @ es) else walk_chain fs d (next_cluster fs d c) (hops + 1) (acc @ es))
      else Some acc)"

definition walk_dir :: "fat32 \<Rightarrow> disk \<Rightarrow> u32 \<Rightarrow> fat_dirent list option" where
  "walk_dir fs d start_cluster = walk_chain fs d start_cluster 0 []"

section \<open>Writing the FAT and the data area\<close>

fun write_fat_copies :: "fat32 \<Rightarrow> u32 \<Rightarrow> nat \<Rightarrow> u32 \<Rightarrow> nat list \<Rightarrow> disk \<Rightarrow> bool \<times> disk" where
  "write_fat_copies fs rel_sector off val [] d = (True, d)"
| "write_fat_copies fs rel_sector off val (fat_index # is) d =
     (let lba = fat_lba fs + ucast (of_nat fat_index * sectors_per_fat fs + rel_sector) in
      case read_sector lba d of
        None \<Rightarrow> (False, d)
      | Some sec \<Rightarrow>
          (case write_sector lba (take off sec @ to_le32 val @ drop (off + 4) sec) d of
             (ok, d') \<Rightarrow> if ok then write_fat_copies fs rel_sector off val is d' else (False, d')))"

definition write_fat_entry :: "fat32 \<Rightarrow> u32 \<Rightarrow> u32 \<Rightarrow> disk \<Rightarrow> bool \<times> disk" where
  "write_fat_entry fs n val d =
     (let entry_offset = ucast n * 4 :: u64 in
      write_fat_copies fs (ucast (entry_offset div 512)) (unat (entry_offset mod 512)) val [0..<unat (num_fats fs)] d)"

text \<open>The entries of one FAT sector that are zero and do not belong to the reserved clusters 0 and 1.\<close>

definition free_in_sector :: "nat \<Rightarrow> u8 list \<Rightarrow> nat option" where
  "free_in_sector s sec =
     find_below (\<lambda>i. le32 (sec ! (4 * i)) (sec ! (4 * i + 1)) (sec ! (4 * i + 2)) (sec ! (4 * i + 3)) = 0
                     \<and> (of_nat s * 128 + of_nat i :: u32) \<ge> 2) 128"

fun alloc_scan :: "fat32 \<Rightarrow> disk \<Rightarrow> nat list \<Rightarrow> u32 option" where
  "alloc_scan fs d [] = None"
| "alloc_scan fs d (s # ss) =
     (case read_sector (fat_lba fs + of_nat s) d of
        None \<Rightarrow> None
      | Some sec \<Rightarrow>
          (case free_in_sector s sec of
             Some i \<Rightarrow> Some (of_nat s * 128 + of_nat i)
           | None \<Rightarrow> alloc_scan fs d ss))"

definition alloc_cluster :: "fat32 \<Rightarrow> disk \<Rightarrow> u32 option \<times> disk" where
  "alloc_cluster fs d =
     (case alloc_scan fs d [0..<unat (sectors_per_fat fs)] of
        None \<Rightarrow> (None, d)
      | Some n \<Rightarrow>
          (case write_fat_entry fs n EOC d of
             (ok, d') \<Rightarrow> (if ok then Some n else None, d')))"

text \<open>The contents of sector \<open>s\<close> of the cluster: its part of the data, padded with zeroes.\<close>

definition padded_sector :: "fat32 \<Rightarrow> u8 list \<Rightarrow> nat \<Rightarrow> u8 list" where
  "padded_sector fs data s =
     (let start = s * 512;
          n = (if start < length data then min (min (length data - start) 512) (cluster_bytes fs - start) else 0)
      in take n (drop start data) @ replicate (512 - n) 0)"

fun write_sectors :: "fat32 \<Rightarrow> u64 \<Rightarrow> u8 list \<Rightarrow> nat list \<Rightarrow> disk \<Rightarrow> bool \<times> disk" where
  "write_sectors fs lba data [] d = (True, d)"
| "write_sectors fs lba data (s # ss) d =
     (case write_sector (lba + of_nat s) (padded_sector fs data s) d of
        (ok, d') \<Rightarrow> if ok then write_sectors fs lba data ss d' else (False, d'))"

definition write_cluster :: "fat32 \<Rightarrow> u32 \<Rightarrow> u8 list \<Rightarrow> disk \<Rightarrow> bool \<times> disk" where
  "write_cluster fs n data d =
     write_sectors fs (cluster_to_lba fs n) data [0..<unat (sectors_per_cluster fs)] d"

section \<open>Directory entries\<close>

text \<open>Pass 1 overwrites the entry of the same name, pass 2 fills the first free slot.  A scan of a sector gives
  the offset of the entry it stops at; pass 1 leaves the sector, not the directory, at an end mark.\<close>

fun same_name :: "u8 list \<Rightarrow> u8 list \<Rightarrow> nat list \<Rightarrow> nat option" where
  "same_name name sec [] = None"
| "same_name name sec (off # offs) =
     (if sec ! off = 0 then None
      else if sec ! off = 0xE5 then same_name name sec offs
      else if take 11 (drop off sec) = name then Some off
      else same_name name sec offs)"

definition free_slot :: "u8 list \<Rightarrow> nat option" where
  "free_slot sec = List.find (\<lambda>off. sec ! off = 0 \<or> sec ! off = 0xE5) dirent_offsets"

definition patch :: "nat \<Rightarrow> u8 list \<Rightarrow> u8 list \<Rightarrow> u8 list" where
  "patch off bs sec = take off sec @ bs @ drop (off + length bs) sec"

definition update_dirent :: "u32 \<Rightarrow> u32 \<Rightarrow> nat \<Rightarrow> u8 list \<Rightarrow> u8 list" where
  "update_dirent cluster fsize off sec =
     patch (off + 28) (to_le32 fsize)
       (patch (off + 26) (to_le16 (ucast cluster))
         (patch (off + 20) (to_le16 (ucast (drop_bit 16 cluster))) sec))"

definition new_dirent :: "u8 list \<Rightarrow> u32 \<Rightarrow> u32 \<Rightarrow> u8 \<Rightarrow> nat \<Rightarrow> u8 list \<Rightarrow> u8 list" where
  "new_dirent name cluster fsize attr off sec =
     patch off (update_dirent cluster fsize 0 (patch 0 (name @ [attr]) (replicate 32 0))) sec"

text \<open>One cluster of either pass: \<open>pick\<close> finds the slot in a sector, \<open>put\<close> rewrites the sector.  \<open>None\<close>: go on
  with the next cluster; otherwise the value the function returns.\<close>

fun dir_cluster :: "(u8 list \<Rightarrow> nat option) \<Rightarrow> (nat \<Rightarrow> u8 list \<Rightarrow> u8 list) \<Rightarrow> u64 list \<Rightarrow> disk \<Rightarrow> (bool \<times> disk) option" where
  "dir_cluster pick put [] d = None"
| "dir_cluster pick put (lba # lbas) d =
     (case read_sector lba d of
        None \<Rightarrow> Some (False, d)
      | Some sec \<Rightarrow>
          (case pick sec of
             Some off \<Rightarrow> Some (write_sector lba (put off sec) d)
           | None \<Rightarrow> dir_cluster pick put lbas d))"

text \<open>The loop of either pass: \<open>Some None\<close> when the chain ends without a slot.\<close>

partial_function (option) dir_pass ::
  "fat32 \<Rightarrow> (u8 list \<Rightarrow> nat option) \<Rightarrow> (nat \<Rightarrow> u8 list \<Rightarrow> u8 list) \<Rightarrow> u32 \<Rightarrow> nat \<Rightarrow> disk \<Rightarrow> (bool \<times> disk) option option" where
  "dir_pass fs pick put c hops d =
     (if in_chain c then
        if hops + 1 > unat (chain_limit fs) then Some (Some (False, d))
        else
          (case dir_cluster pick put (cluster_lbas fs c) d of
             Some r \<Rightarrow> Some (Some r)
           | None \<Rightarrow> dir_pass fs pick put (next_cluster fs d c) (hops + 1) d)
      else Some None)"

definition append_dir_entry :: "fat32 \<Rightarrow> u32 \<Rightarrow> u8 list \<Rightarrow> u32 \<Rightarrow> u32 \<Rightarrow> u8 \<Rightarrow> disk \<Rightarrow> (bool \<times> disk) option" where
  "append_dir_entry fs dir name cluster fsize attr d =
     Option.bind (dir_pass fs (\<lambda>sec. same_name name sec dirent_offsets) (update_dirent cluster fsize) dir 0 d) (\<lambda>r1.
       case r1 of
         Some r \<Rightarrow> Some r
       | None \<Rightarrow>
           Option.bind (dir_pass fs free_slot (new_dirent name cluster fsize attr) dir 0 d) (\<lambda>r2.
             case r2 of Some r \<Rightarrow> Some r | None \<Rightarrow> Some (False, d)))"

section \<open>Writing files\<close>

record file_writer =
  fw_dir_cluster :: u32
  fw_name :: "u8 list"
  fw_first :: u32
  fw_prev :: u32
  fw_size :: u32
  fw_cluster_bytes :: nat

definition create_file :: "fat32 \<Rightarrow> u32 \<Rightarrow> u8 list \<Rightarrow> file_writer option" where
  "create_file fs dir name =
     (if cluster_bytes fs = 0 \<or> cluster_bytes fs > MAX_CLUSTER_BYTES then None
      else Some \<lparr>fw_dir_cluster = dir, fw_name = name, fw_first = 0, fw_prev = 0, fw_size = 0,
                 fw_cluster_bytes = cluster_bytes fs\<rparr>)"

text \<open>The loop body of \<open>append\<close> on one chunk, and the loop over \<open>data.chunks(cluster_bytes)\<close>.\<close>

definition append_chunk :: "fat32 \<Rightarrow> u8 list \<Rightarrow> file_writer \<Rightarrow> disk \<Rightarrow> bool \<times> file_writer \<times> disk" where
  "append_chunk fs chunk w d =
     (case alloc_cluster fs d of
        (None, d1) \<Rightarrow> (False, w, d1)
      | (Some c, d1) \<Rightarrow>
          (case write_cluster fs c chunk d1 of
             (ok, d2) \<Rightarrow>
               if \<not> ok then (False, w, d2)
               else
                 (case (if fw_first w = 0 then (True, d2) else write_fat_entry fs (fw_prev w) c d2) of
                    (ok, d3) \<Rightarrow>
                      if \<not> ok then (False, w, d3)
                      else
                        (True, w\<lparr>fw_first := (if fw_first w = 0 then c else fw_first w), fw_prev := c,
                                 fw_size := fw_size w + of_nat (length chunk)\<rparr>, d3))))"

function append_data :: "fat32 \<Rightarrow> u8 list \<Rightarrow> file_writer \<Rightarrow> disk \<Rightarrow> bool \<times> file_writer \<times> disk" where
  "append_data fs data w d =
     (if data = [] \<or> fw_cluster_bytes w = 0 then (True, w, d)
      else
        (case append_chunk fs (take (fw_cluster_bytes w) data) w d of
           (ok, w', d') \<Rightarrow> if ok then append_data fs (drop (fw_cluster_bytes w) data) w' d' else (False, w', d')))"
  by pat_completeness auto
termination by (relation "measure (\<lambda>(fs, data, w, d). length data)") auto

declare append_data.simps [simp del]

definition writer_finish :: "fat32 \<Rightarrow> file_writer \<Rightarrow> disk \<Rightarrow> (bool \<times> disk) option" where
  "writer_finish fs w d =
     (if fw_first w = 0 then Some (False, d)
      else append_dir_entry fs (fw_dir_cluster w) (fw_name w) (fw_first w) (fw_size w) 0x20 d)"

definition fat_write_file :: "fat32 \<Rightarrow> u32 \<Rightarrow> u8 list \<Rightarrow> u8 list \<Rightarrow> disk \<Rightarrow> (bool \<times> disk) option" where
  "fat_write_file fs dir name data d =
     (case create_file fs dir name of
        None \<Rightarrow> Some (False, d)
      | Some w \<Rightarrow>
          if data = [] then
            (case alloc_cluster fs d of
               (None, d') \<Rightarrow> Some (False, d')
             | (Some c, d') \<Rightarrow> writer_finish fs (w\<lparr>fw_first := c, fw_prev := c\<rparr>) d')
          else
            (case append_data fs data w d of
               (ok, w', d') \<Rightarrow> if ok then writer_finish fs w' d' else Some (False, d')))"

section \<open>Creating directories\<close>

definition dot_entries :: "u32 \<Rightarrow> u32 \<Rightarrow> u8 list" where
  "dot_entries self parent =
     (let dot = (\<lambda>name c. patch 26 (to_le16 (ucast c)) (patch 20 (to_le16 (ucast (drop_bit 16 c)))
                   (patch 0 (name @ [ATTR_DIR]) (replicate 32 0))))
      in dot (0x2E # replicate 10 0x20) self @ dot (0x2E # 0x2E # replicate 9 0x20) parent)"

definition create_dir :: "fat32 \<Rightarrow> u32 \<Rightarrow> u8 list \<Rightarrow> disk \<Rightarrow> (u32 option \<times> disk) option" where
  "create_dir fs dir name d =
     (case alloc_cluster fs d of
        (None, d1) \<Rightarrow> Some (None, d1)
      | (Some c, d1) \<Rightarrow>
          (case write_cluster fs c (dot_entries c dir) d1 of
             (ok, d2) \<Rightarrow>
               if \<not> ok then Some (None, d2)
               else map_option (\<lambda>(ok, d3). (if ok then Some c else None, d3)) (append_dir_entry fs dir name c 0 ATTR_DIR d2)))"

section \<open>Names and paths\<close>

definition ascii_upper :: "u8 \<Rightarrow> u8" where
  "ascii_upper b = (if 97 \<le> b \<and> b \<le> 122 then b - 32 else b)"

text \<open>\<^verbatim>\<open>u8::eq_ignore_ascii_case\<close>\<close>

definition eq_ignore_case :: "u8 \<Rightarrow> u8 \<Rightarrow> bool" where
  "eq_ignore_case x y \<longleftrightarrow> ascii_upper x = ascii_upper y"

definition to_8_3 :: "u8 list \<Rightarrow> u8 list option" where
  "to_8_3 s =
     (let base = takeWhile (\<lambda>c. c \<noteq> 0x2E) s;
          ext = (if 0x2E \<in> set s then Some (tl (dropWhile (\<lambda>c. c \<noteq> 0x2E) s)) else None);
          field = (\<lambda>n bs. map ascii_upper bs @ replicate (n - length bs) 0x20) in
      if base = [] \<or> length base > 8 then None
      else
        (case ext of
           None \<Rightarrow> Some (field 8 base @ replicate 3 0x20)
         | Some e \<Rightarrow> if length e > 3 then None else Some (field 8 base @ field 3 e)))"

definition eq_8_3 :: "u8 list \<Rightarrow> u8 list \<Rightarrow> bool" where
  "eq_8_3 a b = list_all (\<lambda>(x, y). eq_ignore_case x y) (zip a b)"

definition is_dir :: "fat_dirent \<Rightarrow> bool" where
  "is_dir e \<longleftrightarrow> de_attr e AND ATTR_DIR \<noteq> 0"

fun find_path :: "fat32 \<Rightarrow> disk \<Rightarrow> u32 \<Rightarrow> u8 list list \<Rightarrow> (u32 \<times> u32) option option" where
  "find_path fs d dir [] = Some None"
| "find_path fs d dir (n # comps) =
     Option.bind (walk_dir fs d dir) (\<lambda>es.
       case List.find (\<lambda>e. eq_8_3 (de_name e) n \<and> (if comps = [] then \<not> is_dir e else is_dir e)) es of
         None \<Rightarrow> Some None
       | Some e \<Rightarrow> if comps = [] then Some (Some (de_cluster e, de_size e)) else find_path fs d (de_cluster e) comps)"

definition fmt_name :: "u8 list \<Rightarrow> u8 list" where
  "fmt_name name =
     filter (\<lambda>c. c \<noteq> 0x20) (take 8 name)
     @ (if name ! 8 \<noteq> 0x20 then 0x2E # filter (\<lambda>c. c \<noteq> 0x20) (take 3 (drop 8 name)) else [])"

definition find_or_create_dir :: "fat32 \<Rightarrow> u32 \<Rightarrow> u8 list \<Rightarrow> disk \<Rightarrow> (u32 option \<times> disk) option" where
  "find_or_create_dir fs parent name d =
     Option.bind (walk_dir fs d parent) (\<lambda>es.
       case List.find (\<lambda>e. eq_8_3 (de_name e) name) es of
         Some e \<Rightarrow> Some (if is_dir e then Some (de_cluster e) else None, d)
       | None \<Rightarrow> create_dir fs parent name d)"

section \<open>The write gate\<close>

text \<open>\<open>repair_guard\<close> issues the token every writer takes; the writers themselves never look at it.\<close>

definition repair_guard :: "bool \<Rightarrow> unit option" where
  "repair_guard repair_mode = (if repair_mode then Some () else None)"

definition vfs_write_file :: "bool \<Rightarrow> fat32 \<Rightarrow> u32 \<Rightarrow> u8 list \<Rightarrow> u8 list \<Rightarrow> disk \<Rightarrow> (bool \<times> disk) option" where
  "vfs_write_file repair_mode fs dir name data d =
     (case repair_guard repair_mode of
        None \<Rightarrow> Some (False, d)
      | Some _ \<Rightarrow> fat_write_file fs dir name data d)"

section \<open>Every operation returns\<close>

lemma read_chain_returns: "\<exists>r. read_chain fs d want c hops start got = Some r"
proof (induction "Suc (unat (chain_limit fs)) - hops" arbitrary: c hops start got rule: less_induct)
  case less
  show ?case
  proof (cases "length got < want \<and> in_chain c \<and> hops + 1 \<le> unat (chain_limit fs)")
    case True
    then have "Suc (unat (chain_limit fs)) - (hops + 1) < Suc (unat (chain_limit fs)) - hops" by auto
    note IH = less [OF this]
    show ?thesis using True IH
      by (cases "read_cluster fs d (cluster_to_lba fs c) start want got") (simp_all add: read_chain.simps [of _ _ _ c])
  qed (auto simp: read_chain.simps [of _ _ _ c])
qed

lemma walk_chain_returns: "\<exists>r. walk_chain fs d c hops acc = Some r"
proof (induction "Suc (unat (chain_limit fs)) - hops" arbitrary: c hops acc rule: less_induct)
  case less
  show ?case
  proof (cases "in_chain c \<and> hops + 1 \<le> unat (chain_limit fs)")
    case True
    then have "Suc (unat (chain_limit fs)) - (hops + 1) < Suc (unat (chain_limit fs)) - hops" by auto
    note IH = less [OF this]
    show ?thesis using True IH
      by (cases "walk_cluster d (cluster_lbas fs c)") (simp add: walk_chain.simps [of _ _ c])
  qed (auto simp: walk_chain.simps [of _ _ c])
qed

lemma dir_pass_returns: "\<exists>r. dir_pass fs pick put c hops d = Some r"
proof (induction "Suc (unat (chain_limit fs)) - hops" arbitrary: c hops rule: less_induct)
  case less
  show ?case
  proof (cases "in_chain c \<and> hops + 1 \<le> unat (chain_limit fs)")
    case True
    then have "Suc (unat (chain_limit fs)) - (hops + 1) < Suc (unat (chain_limit fs)) - hops" by auto
    note IH = less [OF this]
    show ?thesis using True IH
      by (cases "dir_cluster pick put (cluster_lbas fs c) d") (simp_all add: dir_pass.simps [of _ _ _ c])
  qed (auto simp: dir_pass.simps [of _ _ _ c])
qed

lemma walk_dir_returns: "\<exists>r. walk_dir fs d c = Some r"
  unfolding walk_dir_def by (rule walk_chain_returns)

lemma find_path_returns: "\<exists>r. find_path fs d dir comps = Some r"
proof (induction comps arbitrary: dir)
  case (Cons n comps)
  obtain es where "walk_dir fs d dir = Some es" using walk_dir_returns by blast
  then show ?case using Cons.IH by (auto split: option.split)
qed simp

lemma append_dir_entry_returns: "\<exists>r. append_dir_entry fs dir name c n attr d = Some r"
proof -
  obtain r1 r2 where "dir_pass fs (\<lambda>sec. same_name name sec dirent_offsets) (update_dirent c n) dir 0 d = Some r1"
      "dir_pass fs free_slot (new_dirent name c n attr) dir 0 d = Some r2"
    using dir_pass_returns by meson
  then show ?thesis by (cases r1; cases r2) (auto simp: append_dir_entry_def)
qed

lemma fat_write_file_returns: "\<exists>r. fat_write_file fs dir name data d = Some r"
  using append_dir_entry_returns
  by (auto simp: fat_write_file_def writer_finish_def split: option.split prod.split)

lemma create_dir_returns: "\<exists>r. create_dir fs dir name d = Some r"
proof -
  obtain c d1 where a: "alloc_cluster fs d = (c, d1)" by fastforce
  show ?thesis
  proof (cases c)
    case (Some n)
    obtain ok d2 where w: "write_cluster fs n (dot_entries n dir) d1 = (ok, d2)" by fastforce
    obtain r where "append_dir_entry fs dir name n 0 ATTR_DIR d2 = Some r" using append_dir_entry_returns by blast
    then show ?thesis using a w Some by (simp add: create_dir_def)
  qed (use a in \<open>simp add: create_dir_def\<close>)
qed

text \<open>C19. No volume, however corrupt, keeps the rescue kernel in a loop: on every device contents (cyclic chains,
  cross-linked clusters, unreadable sectors) and for all arguments, reading a file, resolving a path, writing a file
  and creating a directory return.  Reading a range returns exactly when the volume's cluster size is not zero;
  otherwise it panics on a division.\<close>

theorem fat_always_returns:
  "(\<exists>r. read_file fs d c n len = Some r) \<and> (\<exists>r. find_path fs d dir comps = Some r)
   \<and> (\<exists>r. vfs_write_file repair fs dir name data d = Some r) \<and> (\<exists>r. find_or_create_dir fs dir name d = Some r)
   \<and> ((\<exists>r. read_range fs d c off len = Some r) \<longleftrightarrow> cluster_bytes fs \<noteq> 0)"
proof -
  obtain es where "walk_dir fs d dir = Some es" using walk_dir_returns by blast
  then have "\<exists>r. find_or_create_dir fs dir name d = Some r"
    using create_dir_returns by (auto simp: find_or_create_dir_def split: option.split)
  moreover have "\<exists>r. vfs_write_file repair fs dir name data d = Some r"
    using fat_write_file_returns by (auto simp: vfs_write_file_def split: option.split)
  moreover have "(\<exists>r. read_range fs d c off len = Some r) \<longleftrightarrow> cluster_bytes fs \<noteq> 0"
    using read_chain_returns by (auto simp: read_range_def Let_def split: prod.split)
  ultimately show ?thesis using read_chain_returns find_path_returns unfolding read_file_def by blast
qed

end
