(* ===== verification/Fat_Write.thy ===== *)
theory Fat_Write
  imports Fat
begin

text \<open>
  What the FAT32 writer does to a volume: the abstract view of a healthy volume (FAT entries, cluster contents,
  chains, directory slots), the effect of each write operation on it, and the round trip from writing a file to
  finding and reading it, with every other file untouched.
\<close>

unbundle bit_operations_syntax

section \<open>A healthy volume\<close>

text \<open>The sectors of a volume, numbered from the first FAT sector.\<close>

definition vol_lba :: "fat32 \<Rightarrow> nat \<Rightarrow> u64" where
  "vol_lba fs k = fat_lba fs + of_nat k"

abbreviation spc :: "fat32 \<Rightarrow> nat" where "spc fs \<equiv> unat (sectors_per_cluster fs)"
abbreviation spf :: "fat32 \<Rightarrow> nat" where "spf fs \<equiv> unat (sectors_per_fat fs)"

definition fat_sectors :: "fat32 \<Rightarrow> nat" where
  "fat_sectors fs = unat (num_fats fs) * spf fs"

definition fat_clusters :: "fat32 \<Rightarrow> nat" where
  "fat_clusters fs = spf fs * 128"

definition vol_sectors :: "fat32 \<Rightarrow> nat" where
  "vol_sectors fs = fat_sectors fs + fat_clusters fs * spc fs"

text \<open>Geometry: one to four FAT copies, clusters of at most 32 KiB, cluster numbers below the end-of-chain marks,
  and the data area right behind the FATs.\<close>

definition fat_geometry :: "fat32 \<Rightarrow> bool" where
  "fat_geometry fs \<longleftrightarrow> 1 \<le> spc fs \<and> spc fs \<le> 64 \<and> 1 \<le> unat (num_fats fs) \<and> unat (num_fats fs) \<le> 4
     \<and> fat_clusters fs \<le> unat EOC_MIN \<and> data_lba fs = vol_lba fs (fat_sectors fs)"

definition fat_healthy :: "fat32 \<Rightarrow> disk \<Rightarrow> bool" where
  "fat_healthy fs d \<longleftrightarrow> fat_geometry fs \<and> (\<forall>lba. length (dk_data d lba) = 512)
     \<and> (\<forall>k<vol_sectors fs. dk_readable d (vol_lba fs k) \<and> dk_writable d (vol_lba fs k))"

lemma fat_geometry_bounds:
  assumes "fat_geometry fs"
  shows "fat_sectors fs < 2 ^ 32" and "vol_sectors fs < 2 ^ 64" and "spf fs \<le> 2097151" and "spf fs \<le> fat_sectors fs"
    and "fat_clusters fs < 2 ^ 32" and "cluster_bytes fs = spc fs * 512" and "0 < cluster_bytes fs"
    and "unat (chain_limit fs) = fat_clusters fs"
proof -
  from assms have g: "1 \<le> spc fs" "spc fs \<le> 64" "1 \<le> unat (num_fats fs)" "unat (num_fats fs) \<le> 4"
      "spf fs * 128 \<le> 0x0FFFFFF8"
    by (simp_all add: fat_geometry_def fat_clusters_def EOC_MIN_def)
  show f: "spf fs \<le> 2097151" using g(5) by simp
  have "fat_sectors fs \<le> 4 * 2097151" unfolding fat_sectors_def by (rule mult_le_mono [OF g(4) f])
  then show s: "fat_sectors fs < 2 ^ 32" by simp
  show c: "fat_clusters fs < 2 ^ 32" using g(5) by (simp add: fat_clusters_def)
  have "fat_clusters fs * spc fs \<le> 0x0FFFFFF8 * 64"
    by (rule mult_le_mono) (use g in \<open>simp_all add: fat_clusters_def\<close>)
  then show "vol_sectors fs < 2 ^ 64" using s by (simp add: vol_sectors_def)
  show "spf fs \<le> fat_sectors fs" using g(3) by (simp add: fat_sectors_def)
  show b: "cluster_bytes fs = spc fs * 512" using g(2) by (simp add: cluster_bytes_def unat_word_ariths)
  show "0 < cluster_bytes fs" using b g(1) by simp
  show "unat (chain_limit fs) = fat_clusters fs"
    using f by (simp add: chain_limit_def fat_clusters_def unat_word_ariths)
qed

text \<open>What \<open>parse\<close> accepts has this geometry as soon as the two fields it does not check are in range.\<close>

lemma fat_parse_geometry:
  assumes "fat_parse part_lba d = Some fs" and "1 \<le> spc fs" and "spc fs \<le> 64" and "fat_clusters fs \<le> unat EOC_MIN"
  shows "fat_geometry fs"
proof -
  have p: "num_fats fs \<noteq> 0" "num_fats fs \<le> 4" "data_lba fs = fat_lba fs + ucast (num_fats fs * sectors_per_fat fs)"
    using assms(1) by (auto simp: fat_parse_def Let_def split: option.splits if_splits)
  then have n: "1 \<le> unat (num_fats fs)" "unat (num_fats fs) \<le> 4"
    by (simp_all add: word_le_nat_alt unat_gt_0 Suc_le_eq)
  have "spf fs * 128 \<le> 0x0FFFFFF8" using assms(4) by (simp add: fat_clusters_def EOC_MIN_def)
  then have "unat (num_fats fs) * spf fs \<le> 4 * 2097151" by (intro mult_le_mono n(2)) simp
  then have u: "unat (num_fats fs * sectors_per_fat fs) = fat_sectors fs" by (simp add: unat_word_ariths fat_sectors_def)
  have "(ucast (num_fats fs * sectors_per_fat fs) :: u64) = of_nat (fat_sectors fs)" unfolding u [symmetric] by simp
  then show ?thesis using p n assms(2-) by (simp add: fat_geometry_def vol_lba_def)
qed

lemma vol_lba_inj:
  assumes "i < 2 ^ 64" and "j < 2 ^ 64"
  shows "vol_lba fs i = vol_lba fs j \<longleftrightarrow> i = j"
proof
  assume "vol_lba fs i = vol_lba fs j"
  then have "(of_nat i :: u64) = of_nat j" by (simp add: vol_lba_def)
  then have "unat (of_nat i :: u64) = unat (of_nat j :: u64)" by simp
  then show "i = j" using assms by (simp add: unat_of_nat_small)
qed simp

lemma vol_lba_add: "vol_lba fs i + of_nat j = vol_lba fs (i + j)"
  by (simp add: vol_lba_def)

text \<open>Sector \<open>s\<close> of cluster \<open>n\<close>.\<close>

definition data_sector :: "fat32 \<Rightarrow> nat \<Rightarrow> nat \<Rightarrow> nat" where
  "data_sector fs n s = fat_sectors fs + (n - 2) * spc fs + s"

lemma cluster_to_lba_vol:
  assumes "fat_geometry fs" and "2 \<le> unat c"
  shows "cluster_to_lba fs c + of_nat s = vol_lba fs (data_sector fs (unat c) s)"
proof -
  have "(ucast c - 2 :: u64) = of_nat (unat c - 2)" using assms(2) by (simp add: of_nat_diff unsigned_of_nat)
  then have "(ucast c - 2 :: u64) * ucast (sectors_per_cluster fs) = of_nat ((unat c - 2) * spc fs)" by simp
  then show ?thesis using assms(1)
    by (simp add: cluster_to_lba_def fat_geometry_def vol_lba_def data_sector_def)
qed

lemma data_sector_less:
  assumes "2 \<le> n" and "n < fat_clusters fs" and "s < spc fs"
  shows "data_sector fs n s < vol_sectors fs" and "fat_sectors fs \<le> data_sector fs n s"
proof -
  obtain k where k: "n = k + 2" using assms(1) le_Suc_ex by (metis add.commute)
  have "(n - 2) * spc fs + s < Suc k * spc fs" using assms(3) k by simp
  also have "\<dots> \<le> fat_clusters fs * spc fs" by (rule mult_le_mono1) (use assms(2) k in simp)
  finally show "data_sector fs n s < vol_sectors fs" by (simp add: data_sector_def vol_sectors_def)
qed (simp add: data_sector_def)

lemma data_sector_inj:
  assumes "2 \<le> n" and "2 \<le> m" and "s < spc fs" and "t < spc fs"
  shows "data_sector fs n s = data_sector fs m t \<longleftrightarrow> n = m \<and> s = t"
proof
  assume "data_sector fs n s = data_sector fs m t"
  then have e: "(n - 2) * spc fs + s = (m - 2) * spc fs + t" by (simp add: data_sector_def)
  then have "((n - 2) * spc fs + s) div spc fs = ((m - 2) * spc fs + t) div spc fs" by simp
  then have "n - 2 = m - 2" using assms(3,4) by simp
  then show "n = m \<and> s = t" using e assms(1,2) by simp
qed simp

section \<open>FAT entries\<close>

text \<open>The entry of cluster \<open>n\<close> as a whole word, from the first FAT copy.\<close>

definition sector_entry :: "u8 list \<Rightarrow> nat \<Rightarrow> u32" where
  "sector_entry sec i = le32 (sec ! (4 * i)) (sec ! (4 * i + 1)) (sec ! (4 * i + 2)) (sec ! (4 * i + 3))"

definition raw_entry :: "fat32 \<Rightarrow> disk \<Rightarrow> nat \<Rightarrow> u32" where
  "raw_entry fs d n = sector_entry (dk_data d (vol_lba fs (n div 128))) (n mod 128)"

lemma le32_to_le32: "le32 (ucast w) (ucast (drop_bit 8 w)) (ucast (drop_bit 16 w)) (ucast (drop_bit 24 w)) = (w :: u32)"
proof (rule bit_word_eqI)
  fix n :: nat
  assume "n < LENGTH(32)"
  then consider "n < 8" | "8 \<le> n" "n < 16" | "16 \<le> n" "n < 24" | "24 \<le> n" "n < 32" by fastforce
  then show "bit (le32 (ucast w) (ucast (drop_bit 8 w)) (ucast (drop_bit 16 w)) (ucast (drop_bit 24 w))) n = bit w n"
    by cases (auto simp: le32_def bit_simps)
qed

lemma sector_entry_patch:
  assumes "length sec = 512" and "i < 128" and "j < 128"
  shows "sector_entry (take (4 * i) sec @ to_le32 v @ drop (4 * i + 4) sec) j = (if j = i then v else sector_entry sec j)"
proof -
  have l: "min 512 (4 * i) = 4 * i" using assms(2) by simp
  consider "j < i" | "j = i" | "i < j" by linarith
  then show ?thesis
  proof cases
    case 3
    then have "4 * i + 4 \<le> 4 * j" by simp
    then obtain k where k: "4 * j = 4 * i + 4 + k" using le_Suc_ex by blast
    then have "4 * i + (4 + k) < 512" using assms(3) by simp
    with k show ?thesis using 3 assms(1) l by (simp add: sector_entry_def to_le32_def nth_append)
  qed (use assms(1) l in \<open>simp_all add: sector_entry_def to_le32_def nth_append le32_to_le32\<close>)
qed

lemma entry_offset:
  fixes n :: u32
  shows "unat (ucast n * 4 div 512 :: u64) = unat n div 128" and "unat (ucast n * 4 mod 512 :: u64) = 4 * (unat n mod 128)"
    and "(ucast n * 4 div 512 :: u64) = of_nat (unat n div 128)"
    and "(ucast (ucast n * 4 div 512 :: u64) :: u32) = of_nat (unat n div 128)"
proof -
  have n: "unat n < 2 ^ 32" using unsigned_less [of n, where 'a = nat] by simp
  then have m: "unat (ucast n * 4 :: u64) = 4 * unat n" by (simp add: unat_word_ariths)
  show a: "unat (ucast n * 4 div 512 :: u64) = unat n div 128"
    using m div_mult_mult1 [of 4 "unat n" 128] by (simp add: unat_div_distrib)
  show "unat (ucast n * 4 mod 512 :: u64) = 4 * (unat n mod 128)"
    using m mult_mod_right [of 4 "unat n" 128] by (simp add: unat_mod_distrib)
  show "(ucast n * 4 div 512 :: u64) = of_nat (unat n div 128)" unfolding a [symmetric] by simp
  show "(ucast (ucast n * 4 div 512 :: u64) :: u32) = of_nat (unat n div 128)" unfolding a [symmetric] by simp
qed

lemma fat_healthyD:
  assumes "fat_healthy fs d"
  shows "fat_geometry fs" and "length (dk_data d lba) = 512"
    and "k < vol_sectors fs \<Longrightarrow> read_sector (vol_lba fs k) d = Some (dk_data d (vol_lba fs k))"
    and "k < vol_sectors fs \<Longrightarrow> write_sector (vol_lba fs k) buf d = (True, d\<lparr>dk_data := (dk_data d)(vol_lba fs k := buf)\<rparr>)"
  using assms by (simp_all add: fat_healthy_def read_sector_def write_sector_def)

lemma fat_healthy_update:
  assumes "fat_healthy fs d" and "length buf = 512"
  shows "fat_healthy fs (d\<lparr>dk_data := (dk_data d)(lba := buf)\<rparr>)"
  using assms by (simp add: fat_healthy_def)

lemma fat_sector_less: "fat_geometry fs \<Longrightarrow> n < fat_clusters fs \<Longrightarrow> n div 128 < spf fs"
  by (simp add: fat_clusters_def less_mult_imp_div_less)

lemma spf_vol: "fat_geometry fs \<Longrightarrow> k < spf fs \<Longrightarrow> k < vol_sectors fs"
  using fat_geometry_bounds(4) [of fs] by (simp add: vol_sectors_def)

lemma next_cluster_raw:
  assumes "fat_healthy fs d" and "unat n < fat_clusters fs"
  shows "next_cluster fs d n = raw_entry fs d (unat n) AND 0x0FFFFFFF"
proof -
  note g = fat_healthyD(1) [OF assms(1)]
  have k: "unat n div 128 < vol_sectors fs" by (rule spf_vol [OF g fat_sector_less [OF g assms(2)]])
  have "fat_lba fs + ucast n * 4 div 512 = vol_lba fs (unat n div 128)" by (simp add: entry_offset(3) vol_lba_def)
  then show ?thesis using fat_healthyD(3) [OF assms(1) k]
    by (simp add: next_cluster_def Let_def entry_offset(2) raw_entry_def sector_entry_def)
qed

text \<open>Copy \<open>i\<close> of FAT sector \<open>r\<close>.\<close>

lemma fat_copy_lba:
  assumes "fat_geometry fs" and "i < unat (num_fats fs)" and "r < spf fs"
  shows "fat_lba fs + ucast (of_nat i * sectors_per_fat fs + of_nat r :: u32) = vol_lba fs (i * spf fs + r)"
    and "i * spf fs + r < fat_sectors fs"
proof -
  have "i * spf fs + r < Suc i * spf fs" using assms(3) by simp
  also have "\<dots> \<le> fat_sectors fs" unfolding fat_sectors_def by (rule mult_le_mono1) (use assms(2) in simp)
  finally show l: "i * spf fs + r < fat_sectors fs" .
  define k where "k = i * spf fs + r"
  have "k < 2 ^ 32" using l fat_geometry_bounds(1) [OF assms(1)] unfolding k_def by (rule less_trans)
  then have "unat (of_nat k :: u32) = k" by (intro unat_of_nat_u32) simp
  moreover have "(ucast (of_nat k :: u32) :: u64) = of_nat (unat (of_nat k :: u32))" by simp
  moreover have "of_nat i * sectors_per_fat fs + of_nat r = (of_nat k :: u32)" by (simp add: k_def)
  ultimately show "fat_lba fs + ucast (of_nat i * sectors_per_fat fs + of_nat r :: u32) = vol_lba fs (i * spf fs + r)"
    unfolding vol_lba_def k_def [symmetric] by (simp only:)
qed

lemma write_fat_copies_eq:
  assumes "fat_healthy fs d" and "r < spf fs" and "off + 4 \<le> 512" and "set is \<subseteq> {..<unat (num_fats fs)}" and "distinct is"
  shows "\<exists>d'. write_fat_copies fs (of_nat r) off v is d = (True, d') \<and> fat_healthy fs d'
    \<and> (\<forall>lba. dk_data d' lba = (if \<exists>i\<in>set is. lba = vol_lba fs (i * spf fs + r)
          then take off (dk_data d lba) @ to_le32 v @ drop (off + 4) (dk_data d lba) else dk_data d lba))"
  using assms(1,4,5)
proof (induction "is" arbitrary: d)
  case (Cons i "is")
  note g = fat_healthyD(1) [OF Cons.prems(1)]
  let ?lba = "vol_lba fs (i * spf fs + r)"
  let ?sec = "take off (dk_data d ?lba) @ to_le32 v @ drop (off + 4) (dk_data d ?lba)"
  let ?d = "d\<lparr>dk_data := (dk_data d)(?lba := ?sec)\<rparr>"
  have i: "i < unat (num_fats fs)" using Cons.prems(2) by simp
  note lba = fat_copy_lba [OF g i assms(2)]
  have k: "i * spf fs + r < vol_sectors fs" using lba(2) by (simp add: vol_sectors_def)
  have l: "length ?sec = 512" using fat_healthyD(2) [OF Cons.prems(1)] assms(3) by (simp add: to_le32_def)
  obtain d' where d': "write_fat_copies fs (of_nat r) off v is ?d = (True, d')" "fat_healthy fs d'"
      "\<forall>lba. dk_data d' lba = (if \<exists>i\<in>set is. lba = vol_lba fs (i * spf fs + r)
          then take off (dk_data ?d lba) @ to_le32 v @ drop (off + 4) (dk_data ?d lba) else dk_data ?d lba)"
    using Cons.IH [OF fat_healthy_update [OF Cons.prems(1) l, of ?lba]] Cons.prems(2,3) by auto
  have ne: "?lba \<noteq> vol_lba fs (j * spf fs + r)" if "j \<in> set is" for j
  proof -
    have j: "j < unat (num_fats fs)" "j \<noteq> i" using that Cons.prems(2,3) by auto
    have "i * spf fs + r \<noteq> j * spf fs + r" using j(2) assms(2) by simp
    then show ?thesis using vol_lba_inj [of "i * spf fs + r" "j * spf fs + r"] lba(2)
      fat_copy_lba(2) [OF g j(1) assms(2)] fat_geometry_bounds(1) [OF g] by simp
  qed
  have "write_fat_copies fs (of_nat r) off v (i # is) d = (True, d')"
    using d'(1) fat_healthyD(3,4) [OF Cons.prems(1) k] by (simp add: lba(1) Let_def)
  moreover have "dk_data d' lba = (if \<exists>i\<in>set (i # is). lba = vol_lba fs (i * spf fs + r)
      then take off (dk_data d lba) @ to_le32 v @ drop (off + 4) (dk_data d lba) else dk_data d lba)" for lba
    using d'(3) ne by (cases "lba = ?lba") auto
  ultimately show ?case using d'(2) by blast
qed simp

text \<open>All copies of the FAT agree.\<close>

definition fat_mirrored :: "fat32 \<Rightarrow> disk \<Rightarrow> bool" where
  "fat_mirrored fs d \<longleftrightarrow>
     (\<forall>i r. i < unat (num_fats fs) \<and> r < spf fs \<longrightarrow> dk_data d (vol_lba fs (i * spf fs + r)) = dk_data d (vol_lba fs r))"

text \<open>Data sectors are left alone.\<close>

definition same_data :: "fat32 \<Rightarrow> disk \<Rightarrow> disk \<Rightarrow> bool" where
  "same_data fs d d' \<longleftrightarrow> (\<forall>k. fat_sectors fs \<le> k \<and> k < vol_sectors fs \<longrightarrow> dk_data d' (vol_lba fs k) = dk_data d (vol_lba fs k))"

lemma fat_copy_hit:
  assumes "fat_geometry fs" and "r < spf fs" and "k < vol_sectors fs"
  shows "(\<exists>i\<in>set [0..<unat (num_fats fs)]. vol_lba fs k = vol_lba fs (i * spf fs + r)) \<longleftrightarrow> (\<exists>i<unat (num_fats fs). k = i * spf fs + r)"
proof -
  have "vol_lba fs k = vol_lba fs (i * spf fs + r) \<longleftrightarrow> k = i * spf fs + r" if "i < unat (num_fats fs)" for i
    using vol_lba_inj [of k "i * spf fs + r"] fat_copy_lba(2) [OF assms(1) that assms(2)] fat_geometry_bounds(1,2) [OF assms(1)] assms(3)
    by simp
  then show ?thesis by (metis atLeastLessThan_iff set_upt zero_le)
qed

lemma copy_index_eq:
  assumes "r < (f :: nat)" and "s < f" and "i * f + r = j * f + s"
  shows "i = j \<and> r = s"
proof -
  have "(i * f + r) div f = (j * f + s) div f" using assms(3) by simp
  then have "i = j" using assms(1,2) by simp
  then show ?thesis using assms(3) by simp
qed

lemma write_fat_entry_eq:
  assumes "fat_healthy fs d" and "unat n < fat_clusters fs"
  shows "\<exists>d'. write_fat_entry fs n v d = (True, d') \<and> fat_healthy fs d' \<and> same_data fs d d'
    \<and> (\<forall>m. m < fat_clusters fs \<longrightarrow> raw_entry fs d' m = (if m = unat n then v else raw_entry fs d m))
    \<and> (fat_mirrored fs d \<longrightarrow> fat_mirrored fs d')"
proof -
  note g = fat_healthyD(1) [OF assms(1)]
  let ?r = "unat n div 128" and ?off = "4 * (unat n mod 128)" and ?nf = "unat (num_fats fs)"
  let ?p = "\<lambda>sec. take ?off sec @ to_le32 v @ drop (?off + 4) sec"
  have r: "?r < spf fs" by (rule fat_sector_less [OF g assms(2)])
  have off: "?off + 4 \<le> 512" by simp
  have nf: "0 < ?nf" using g by (simp add: fat_geometry_def)
  obtain d' where w: "write_fat_copies fs (of_nat ?r) ?off v [0..<?nf] d = (True, d')" "fat_healthy fs d'"
      and dat: "dk_data d' lba = (if \<exists>i\<in>set [0..<?nf]. lba = vol_lba fs (i * spf fs + ?r) then ?p (dk_data d lba) else dk_data d lba)" for lba
  proof -
    have "set [0..<?nf] \<subseteq> {..<?nf}" by auto
    from write_fat_copies_eq [OF assms(1) r off this distinct_upt, of v] show ?thesis using that by blast
  qed
  have dk: "dk_data d' (vol_lba fs k) = (if \<exists>i<?nf. k = i * spf fs + ?r then ?p (dk_data d (vol_lba fs k)) else dk_data d (vol_lba fs k))"
    if "k < vol_sectors fs" for k using dat fat_copy_hit [OF g r that] by presburger
  have copies: "dk_data d' (vol_lba fs (i * spf fs + s))
      = (if s = ?r then ?p (dk_data d (vol_lba fs (i * spf fs + s))) else dk_data d (vol_lba fs (i * spf fs + s)))"
    if "i < ?nf" "s < spf fs" for i s
  proof -
    have "i * spf fs + s < vol_sectors fs" using fat_copy_lba(2) [OF g that] by (simp add: vol_sectors_def)
    moreover have "(\<exists>j<?nf. i * spf fs + s = j * spf fs + ?r) \<longleftrightarrow> s = ?r" using that copy_index_eq [OF that(2) r] by blast
    ultimately show ?thesis using dk by presburger
  qed
  have "write_fat_entry fs n v d = (True, d')"
    using w(1) by (simp add: write_fat_entry_def entry_offset(2,4) Let_def)
  moreover have "same_data fs d d'"
    using dk fat_copy_lba(2) [OF g _ r] unfolding same_data_def by (metis not_le)
  moreover have "raw_entry fs d' m = (if m = unat n then v else raw_entry fs d m)" if m: "m < fat_clusters fs" for m
  proof -
    note c = copies [OF nf fat_sector_less [OF g m], simplified]
    have e: "sector_entry (?p (dk_data d (vol_lba fs (m div 128)))) (m mod 128)
        = (if m mod 128 = unat n mod 128 then v else raw_entry fs d m)"
      unfolding raw_entry_def by (rule sector_entry_patch [OF fat_healthyD(2) [OF assms(1)]]) simp_all
    have "m = unat n \<longleftrightarrow> m div 128 = ?r \<and> m mod 128 = unat n mod 128" by (metis div_mult_mod_eq)
    then show ?thesis using c e by (cases "m div 128 = ?r") (simp_all only: raw_entry_def if_True if_False simp_thms mult_zero_left add_0)
  qed
  moreover have "fat_mirrored fs d'" if mir: "fat_mirrored fs d" unfolding fat_mirrored_def
  proof (intro allI impI, elim conjE)
    fix i s
    assume i: "i < ?nf" "s < spf fs"
    then have "dk_data d (vol_lba fs (i * spf fs + s)) = dk_data d (vol_lba fs s)" using mir unfolding fat_mirrored_def by blast
    then show "dk_data d' (vol_lba fs (i * spf fs + s)) = dk_data d' (vol_lba fs s)"
      using copies [OF i] copies [OF nf i(2)] by (simp only: mult_zero_left add_0)
  qed
  ultimately show ?thesis using w(2) by blast
qed

text \<open>The free clusters.\<close>

definition fat_free :: "fat32 \<Rightarrow> disk \<Rightarrow> nat set" where
  "fat_free fs d = {m. 2 \<le> m \<and> m < fat_clusters fs \<and> raw_entry fs d m = 0}"

lemma cluster_number:
  assumes "fat_geometry fs" and "s < spf fs" and "i < 128"
  shows "unat (of_nat s * 128 + of_nat i :: u32) = s * 128 + i" and "s * 128 + i < fat_clusters fs"
proof -
  have "s * 128 + i < Suc s * 128" using assms(3) by simp
  also have "\<dots> \<le> fat_clusters fs" unfolding fat_clusters_def by (rule mult_le_mono1) (use assms(2) in simp)
  finally show l: "s * 128 + i < fat_clusters fs" .
  define k where "k = s * 128 + i"
  have "k < 2 ^ 32" using l fat_geometry_bounds(5) [OF assms(1)] unfolding k_def by (rule less_trans)
  then have "unat (of_nat k :: u32) = k" by (intro unat_of_nat_u32) simp
  moreover have "of_nat s * 128 + of_nat i = (of_nat k :: u32)" by (simp add: k_def)
  ultimately show "unat (of_nat s * 128 + of_nat i :: u32) = s * 128 + i" unfolding k_def [symmetric] by (simp only:)
qed

lemma block_all: "(\<forall>i<128. s * 128 + i \<notin> A) \<longleftrightarrow> (\<forall>m\<in>A. m div 128 \<noteq> (s :: nat))"
proof
  assume l: "\<forall>i<128. s * 128 + i \<notin> A"
  show "\<forall>m\<in>A. m div 128 \<noteq> s"
  proof (intro ballI notI)
    fix m
    assume "m \<in> A" "m div 128 = s"
    then show False using l div_mult_mod_eq [of m 128] mod_less_divisor [of 128 m] by (metis zero_less_numeral)
  qed
qed force

lemma free_in_sector_iff:
  assumes "fat_healthy fs d" and "s < spf fs"
  shows "free_in_sector s (dk_data d (vol_lba fs s)) = None \<longleftrightarrow> (\<forall>m\<in>fat_free fs d. m div 128 \<noteq> s)"
    and "free_in_sector s (dk_data d (vol_lba fs s)) = Some i \<Longrightarrow> i < 128 \<and> s * 128 + i \<in> fat_free fs d"
proof -
  note g = fat_healthyD(1) [OF assms(1)]
  let ?P = "\<lambda>i. sector_entry (dk_data d (vol_lba fs s)) i = 0 \<and> (of_nat s * 128 + of_nat i :: u32) \<ge> 2"
  have P: "?P i \<longleftrightarrow> s * 128 + i \<in> fat_free fs d" if "i < 128" for i
  proof -
    have "raw_entry fs d (s * 128 + i) = sector_entry (dk_data d (vol_lba fs s)) i" using that by (simp add: raw_entry_def)
    moreover have "(2 :: u32) \<le> of_nat s * 128 + of_nat i \<longleftrightarrow> 2 \<le> s * 128 + i"
      unfolding word_le_nat_alt cluster_number(1) [OF g assms(2) that] by simp
    ultimately show ?thesis using cluster_number(2) [OF g assms(2) that] by (simp add: fat_free_def conj_commute)
  qed
  have f: "free_in_sector s (dk_data d (vol_lba fs s)) = find_below ?P 128"
    by (simp add: free_in_sector_def sector_entry_def)
  show "free_in_sector s (dk_data d (vol_lba fs s)) = None \<longleftrightarrow> (\<forall>m\<in>fat_free fs d. m div 128 \<noteq> s)"
    unfolding f find_below_None using P block_all [of s "fat_free fs d"] by blast
  show "i < 128 \<and> s * 128 + i \<in> fat_free fs d" if "free_in_sector s (dk_data d (vol_lba fs s)) = Some i"
    using that P unfolding f find_below_Some by blast
qed

lemma alloc_scan_eq:
  assumes "fat_healthy fs d" and "set ss \<subseteq> {..<spf fs}"
  shows "case alloc_scan fs d ss of None \<Rightarrow> \<forall>m\<in>fat_free fs d. m div 128 \<notin> set ss | Some n \<Rightarrow> unat n \<in> fat_free fs d"
  using assms(2)
proof (induction ss)
  case (Cons s ss)
  note g = fat_healthyD(1) [OF assms(1)]
  have s: "s < spf fs" using Cons.prems by simp
  have r: "read_sector (fat_lba fs + of_nat s) d = Some (dk_data d (vol_lba fs s))"
    using fat_healthyD(3) [OF assms(1) spf_vol [OF g s]] by (simp add: vol_lba_def)
  show ?case
  proof (cases "free_in_sector s (dk_data d (vol_lba fs s))")
    case None
    then have "\<forall>m\<in>fat_free fs d. m div 128 \<noteq> s" using free_in_sector_iff(1) [OF assms(1) s] by blast
    moreover have "set ss \<subseteq> {..<spf fs}" using Cons.prems by simp
    ultimately show ?thesis using Cons.IH r None by (auto split: option.splits)
  next
    case (Some i)
    then have "i < 128" "s * 128 + i \<in> fat_free fs d" using free_in_sector_iff(2) [OF assms(1) s] by blast+
    then show ?thesis using r Some cluster_number(1) [OF g s] by simp
  qed
qed simp

lemma alloc_cluster_eq:
  assumes "fat_healthy fs d" and "fat_free fs d \<noteq> {}"
  shows "\<exists>n d'. alloc_cluster fs d = (Some n, d') \<and> unat n \<in> fat_free fs d \<and> fat_healthy fs d' \<and> same_data fs d d'
    \<and> (\<forall>m. m < fat_clusters fs \<longrightarrow> raw_entry fs d' m = (if m = unat n then EOC else raw_entry fs d m))
    \<and> (fat_mirrored fs d \<longrightarrow> fat_mirrored fs d')"
proof -
  note g = fat_healthyD(1) [OF assms(1)]
  have ss: "set [0..<spf fs] \<subseteq> {..<spf fs}" by auto
  have "m div 128 \<in> set [0..<spf fs]" if "m \<in> fat_free fs d" for m
    using fat_sector_less [OF g, of m] that by (simp add: fat_free_def)
  then obtain n where n: "alloc_scan fs d [0..<spf fs] = Some n" "unat n \<in> fat_free fs d"
    using alloc_scan_eq [OF assms(1) ss] assms(2) by (force split: option.splits)
  then have "unat n < fat_clusters fs" by (simp add: fat_free_def)
  from write_fat_entry_eq [OF assms(1) this, of EOC] n show ?thesis by (auto simp: alloc_cluster_def)
qed

lemma alloc_cluster_full:
  assumes "fat_healthy fs d" and "fat_free fs d = {}"
  shows "alloc_cluster fs d = (None, d)"
proof -
  have "set [0..<spf fs] \<subseteq> {..<spf fs}" by auto
  from alloc_scan_eq [OF assms(1) this] assms(2) have "alloc_scan fs d [0..<spf fs] = None" by (auto split: option.splits)
  then show ?thesis by (simp add: alloc_cluster_def)
qed

section \<open>Clusters\<close>

definition cluster_data :: "fat32 \<Rightarrow> disk \<Rightarrow> nat \<Rightarrow> u8 list" where
  "cluster_data fs d n = concat (map (\<lambda>s. dk_data d (vol_lba fs (data_sector fs n s))) [0..<spc fs])"

lemma cluster_data_cong:
  assumes "\<And>s. s < spc fs \<Longrightarrow> dk_data d' (vol_lba fs (data_sector fs n s)) = dk_data d (vol_lba fs (data_sector fs n s))"
  shows "cluster_data fs d' n = cluster_data fs d n"
  unfolding cluster_data_def using assms by (intro arg_cong [of _ _ concat] map_cong) auto

text \<open>A cluster of the volume.\<close>

definition is_cluster :: "fat32 \<Rightarrow> nat \<Rightarrow> bool" where
  "is_cluster fs n \<longleftrightarrow> 2 \<le> n \<and> n < fat_clusters fs"

lemma concat_blocks: "length xs = n * m \<Longrightarrow> concat (map (\<lambda>i. take m (drop (i * m) xs)) [0..<n]) = xs"
proof (induction n arbitrary: xs)
  case (Suc n)
  have "concat (map (\<lambda>i. take m (drop (i * m) (take (n * m) xs))) [0..<n]) = take (n * m) xs"
    using Suc.IH [of "take (n * m) xs"] Suc.prems by simp
  moreover have "take m (drop (i * m) (take (n * m) xs)) = take m (drop (i * m) xs)" if "i < n" for i
  proof -
    have "Suc i * m \<le> n * m" using that by (intro mult_le_mono1) simp
    then show ?thesis by (simp add: drop_take min_def)
  qed
  then have "map (\<lambda>i. take m (drop (i * m) (take (n * m) xs))) [0..<n] = map (\<lambda>i. take m (drop (i * m) xs)) [0..<n]"
    by (intro map_cong) simp_all
  ultimately have "concat (map (\<lambda>i. take m (drop (i * m) xs)) [0..<n]) = take (n * m) xs" by simp
  moreover have "take m (drop (n * m) xs) = drop (n * m) xs" using Suc.prems by simp
  ultimately show ?case by simp
qed simp

lemma padded_sector_block:
  assumes "length data \<le> cluster_bytes fs" and "Suc s * 512 \<le> cluster_bytes fs"
  shows "padded_sector fs data s = take 512 (drop (s * 512) (data @ replicate (cluster_bytes fs - length data) 0))"
proof (cases "s * 512 < length data")
  case True
  define l where "l = length data - s * 512"
  define z where "z = cluster_bytes fs - length data"
  have b: "512 + s * 512 \<le> cluster_bytes fs" using assms(2) by simp
  then have c: "512 \<le> cluster_bytes fs - s * 512" by linarith
  have z: "512 - l \<le> z" using b True unfolding l_def z_def by linarith
  have "min (min l 512) (cluster_bytes fs - s * 512) = min l 512" using c by (simp add: min_absorb1 min.coboundedI2)
  moreover have "take (min l 512) (drop (s * 512) data) = take 512 (drop (s * 512) data)" by (simp add: l_def min_def)
  moreover have "length (drop (s * 512) data) = l" "s * 512 - length data = 0" using True by (simp_all add: l_def)
  moreover have "take (512 - l) (replicate z (0 :: u8)) = replicate (512 - min l 512) 0" using z by (simp add: min_absorb1)
  ultimately show ?thesis using True unfolding padded_sector_def Let_def z_def [symmetric] l_def [symmetric] drop_append take_append
    by (simp only: if_True drop_0)
next
  case False
  then show ?thesis using assms by (simp add: padded_sector_def)
qed

lemma padded_sector_length: "length (padded_sector fs data s) = 512"
  by (auto simp: padded_sector_def Let_def min_def)

lemma write_sectors_eq:
  assumes "fat_healthy fs d" and "is_cluster fs (unat n)" and "set ss \<subseteq> {..<spc fs}" and "distinct ss"
  shows "\<exists>d'. write_sectors fs (cluster_to_lba fs n) data ss d = (True, d') \<and> fat_healthy fs d'
    \<and> (\<forall>s\<in>set ss. dk_data d' (vol_lba fs (data_sector fs (unat n) s)) = padded_sector fs data s)
    \<and> (\<forall>k<vol_sectors fs. (\<forall>s\<in>set ss. k \<noteq> data_sector fs (unat n) s) \<longrightarrow> dk_data d' (vol_lba fs k) = dk_data d (vol_lba fs k))"
  using assms(1,3,4)
proof (induction ss arbitrary: d)
  case (Cons s ss)
  note g = fat_healthyD(1) [OF Cons.prems(1)]
  from assms(2) have n: "2 \<le> unat n" "unat n < fat_clusters fs" by (simp_all add: is_cluster_def)
  let ?k = "data_sector fs (unat n) s"
  let ?d = "d\<lparr>dk_data := (dk_data d)(vol_lba fs ?k := padded_sector fs data s)\<rparr>"
  have s: "s < spc fs" using Cons.prems(2) by simp
  have k: "?k < vol_sectors fs" by (rule data_sector_less(1) [OF n s])
  have w: "write_sector (cluster_to_lba fs n + of_nat s) (padded_sector fs data s) d = (True, ?d)"
    using fat_healthyD(4) [OF Cons.prems(1) k] by (simp add: cluster_to_lba_vol [OF g n(1)])
  obtain d' where d': "write_sectors fs (cluster_to_lba fs n) data ss ?d = (True, d')" "fat_healthy fs d'"
      "\<forall>s\<in>set ss. dk_data d' (vol_lba fs (data_sector fs (unat n) s)) = padded_sector fs data s"
      "\<forall>k<vol_sectors fs. (\<forall>s\<in>set ss. k \<noteq> data_sector fs (unat n) s) \<longrightarrow> dk_data d' (vol_lba fs k) = dk_data ?d (vol_lba fs k)"
  proof -
    have "fat_healthy fs ?d" by (rule fat_healthy_update [OF Cons.prems(1) padded_sector_length])
    moreover have "set ss \<subseteq> {..<spc fs}" "distinct ss" using Cons.prems(2,3) by simp_all
    ultimately show ?thesis using Cons.IH [of ?d] that by blast
  qed
  have inj: "vol_lba fs k = vol_lba fs ?k \<longleftrightarrow> k = ?k" if "k < vol_sectors fs" for k
    using vol_lba_inj [of k ?k fs] fat_geometry_bounds(2) [OF g] that \<open>?k < vol_sectors fs\<close> by simp
  have "?k \<noteq> data_sector fs (unat n) t" if "t \<in> set ss" for t
    using that Cons.prems(2,3) data_sector_inj [OF n(1) n(1) s, of t] by auto
  then have "dk_data d' (vol_lba fs ?k) = padded_sector fs data s" using d'(4) k by simp
  then have "\<forall>t\<in>set (s # ss). dk_data d' (vol_lba fs (data_sector fs (unat n) t)) = padded_sector fs data t"
    using d'(3) by simp
  moreover have "\<forall>k<vol_sectors fs. (\<forall>t\<in>set (s # ss). k \<noteq> data_sector fs (unat n) t) \<longrightarrow> dk_data d' (vol_lba fs k) = dk_data d (vol_lba fs k)"
    using d'(4) inj by simp
  ultimately show ?case using w d'(1,2) by simp
qed simp

text \<open>The FAT area is left alone.\<close>

definition same_fat :: "fat32 \<Rightarrow> disk \<Rightarrow> disk \<Rightarrow> bool" where
  "same_fat fs d d' \<longleftrightarrow> (\<forall>k<fat_sectors fs. dk_data d' (vol_lba fs k) = dk_data d (vol_lba fs k))"

lemma same_fat_raw:
  assumes "fat_geometry fs" and "same_fat fs d d'" and "m < fat_clusters fs"
  shows "raw_entry fs d' m = raw_entry fs d m"
  using assms(2) fat_sector_less [OF assms(1,3)] fat_geometry_bounds(4) [OF assms(1)] by (simp add: same_fat_def raw_entry_def)

lemma same_fat_mirrored:
  assumes "fat_geometry fs" and "same_fat fs d d'" and "fat_mirrored fs d"
  shows "fat_mirrored fs d'"
  unfolding fat_mirrored_def
proof (intro allI impI, elim conjE)
  fix i r
  assume i: "i < unat (num_fats fs)" "r < spf fs"
  then have "i * spf fs + r < fat_sectors fs" "r < fat_sectors fs"
    using fat_copy_lba(2) [OF assms(1)] fat_geometry_bounds(4) [OF assms(1)] by auto
  then show "dk_data d' (vol_lba fs (i * spf fs + r)) = dk_data d' (vol_lba fs r)"
    using assms(2,3) i by (simp add: same_fat_def fat_mirrored_def)
qed

lemma write_cluster_eq:
  assumes "fat_healthy fs d" and "is_cluster fs (unat n)" and "length data \<le> cluster_bytes fs"
  shows "\<exists>d'. write_cluster fs n data d = (True, d') \<and> fat_healthy fs d' \<and> same_fat fs d d'
    \<and> (\<forall>m. is_cluster fs m \<longrightarrow> cluster_data fs d' m =
          (if m = unat n then data @ replicate (cluster_bytes fs - length data) 0 else cluster_data fs d m))"
proof -
  note g = fat_healthyD(1) [OF assms(1)]
  from assms(2) have n: "2 \<le> unat n" "unat n < fat_clusters fs" by (simp_all add: is_cluster_def)
  have ss: "set [0..<spc fs] \<subseteq> {..<spc fs}" by auto
  obtain d' where d': "write_sectors fs (cluster_to_lba fs n) data [0..<spc fs] d = (True, d')" "fat_healthy fs d'"
      "\<forall>s\<in>set [0..<spc fs]. dk_data d' (vol_lba fs (data_sector fs (unat n) s)) = padded_sector fs data s"
      "\<forall>k<vol_sectors fs. (\<forall>s\<in>set [0..<spc fs]. k \<noteq> data_sector fs (unat n) s) \<longrightarrow> dk_data d' (vol_lba fs k) = dk_data d (vol_lba fs k)"
    using write_sectors_eq [OF assms(1,2) ss distinct_upt, of data] by blast
  have "same_fat fs d d'"
    unfolding same_fat_def
  proof (intro allI impI)
    fix k
    assume k: "k < fat_sectors fs"
    then have "k < vol_sectors fs" by (simp add: vol_sectors_def)
    moreover have "k \<noteq> data_sector fs (unat n) s" for s using k by (simp add: data_sector_def)
    ultimately show "dk_data d' (vol_lba fs k) = dk_data d (vol_lba fs k)" using d'(4) by blast
  qed
  moreover have "cluster_data fs d' m = (if m = unat n then data @ replicate (cluster_bytes fs - length data) 0 else cluster_data fs d m)"
    if m: "is_cluster fs m" for m
  proof (cases "m = unat n")
    case True
    have b: "Suc s * 512 \<le> cluster_bytes fs" if "s < spc fs" for s
      unfolding fat_geometry_bounds(6) [OF g] by (rule mult_le_mono1) (use that in simp)
    have "cluster_data fs d' m = concat (map (\<lambda>s. take 512 (drop (s * 512) (data @ replicate (cluster_bytes fs - length data) 0))) [0..<spc fs])"
      unfolding cluster_data_def True using d'(3) padded_sector_block [OF assms(3) b]
      by (intro arg_cong [of _ _ concat] map_cong) auto
    also have "\<dots> = data @ replicate (cluster_bytes fs - length data) 0"
      by (rule concat_blocks) (use assms(3) fat_geometry_bounds(6) [OF g] in simp)
    finally show ?thesis using True by simp
  next
    case False
    have "dk_data d' (vol_lba fs (data_sector fs m s)) = dk_data d (vol_lba fs (data_sector fs m s))" if s: "s < spc fs" for s
    proof -
      have "data_sector fs m s < vol_sectors fs" using m data_sector_less(1) [OF _ _ s] by (simp add: is_cluster_def)
      moreover have "data_sector fs m s \<noteq> data_sector fs (unat n) t" if "t \<in> set [0..<spc fs]" for t
        using m False data_sector_inj [OF _ n(1) s, of m t] that by (auto simp: is_cluster_def)
      ultimately show ?thesis using d'(4) by blast
    qed
    from cluster_data_cong [OF this] show ?thesis using False by simp
  qed
  ultimately show ?thesis using d'(1,2) by (auto simp: write_cluster_def)
qed

section \<open>Chains\<close>

text \<open>The clusters of the chain that starts at \<open>c\<close>.\<close>

fun fat_chain :: "fat32 \<Rightarrow> disk \<Rightarrow> u32 \<Rightarrow> nat list \<Rightarrow> bool" where
  "fat_chain fs d c [] \<longleftrightarrow> \<not> in_chain c"
| "fat_chain fs d c (x # xs) \<longleftrightarrow> unat c = x \<and> is_cluster fs x \<and> fat_chain fs d (next_cluster fs d c) xs"

lemma is_cluster_in_chain: "fat_geometry fs \<Longrightarrow> is_cluster fs (unat c) \<Longrightarrow> in_chain c"
  by (simp add: is_cluster_def in_chain_def word_le_nat_alt word_less_nat_alt fat_geometry_def)

lemma fat_chain_clusters: "fat_chain fs d c cs \<Longrightarrow> \<forall>x\<in>set cs. is_cluster fs x"
  by (induction cs arbitrary: c) auto

lemma fat_chain_cong:
  assumes "fat_healthy fs d" and "fat_healthy fs d'" and "\<And>x. x \<in> set cs \<Longrightarrow> raw_entry fs d' x = raw_entry fs d x"
  shows "fat_chain fs d' c cs \<longleftrightarrow> fat_chain fs d c cs"
  using assms(3)
proof (induction cs arbitrary: c)
  case (Cons x cs)
  have "next_cluster fs d' c = next_cluster fs d c" if "unat c = x" "is_cluster fs x"
    using that Cons.prems next_cluster_raw [OF assms(1), of c] next_cluster_raw [OF assms(2), of c] by (simp add: is_cluster_def)
  then show ?case using Cons by auto
qed simp

lemma fat_chain_length:
  assumes "fat_chain fs d c cs" and "distinct cs"
  shows "length cs \<le> fat_clusters fs"
proof -
  have "set cs \<subseteq> {..<fat_clusters fs}" using fat_chain_clusters [OF assms(1)] by (auto simp: is_cluster_def)
  then have "card (set cs) \<le> fat_clusters fs" using card_mono [of "{..<fat_clusters fs}"] by simp
  then show ?thesis using distinct_card [OF assms(2)] by simp
qed

lemma concat_block_nth:
  assumes "\<And>i. i < k \<Longrightarrow> length (f i) = m" and "s < k"
  shows "take m (drop (s * m) (concat (map f [0..<k]))) = f s"
  using assms
proof (induction k)
  case (Suc k)
  have l: "length (concat (map f [0..<k])) = k * m"
  proof -
    have "map (length \<circ> f) [0..<k] = replicate k m" using Suc.prems(1) by (intro nth_equalityI) simp_all
    then show ?thesis by (simp add: length_concat sum_list_replicate)
  qed
  show ?case
  proof (cases "s < k")
    case True
    have "Suc s * m \<le> k * m" using True by (intro mult_le_mono1) simp
    then show ?thesis using Suc True l by simp
  next
    case False
    then show ?thesis using Suc.prems l by (simp add: less_Suc_eq)
  qed
qed simp

lemma cluster_data_length:
  assumes "fat_healthy fs d"
  shows "length (cluster_data fs d n) = cluster_bytes fs"
proof -
  have "map (\<lambda>s. length (dk_data d (vol_lba fs (data_sector fs n s)))) [0..<spc fs] = replicate (spc fs) 512"
    using fat_healthyD(2) [OF assms] by (intro nth_equalityI) simp_all
  then show ?thesis using fat_geometry_bounds(6) [OF fat_healthyD(1) [OF assms]]
    by (simp add: cluster_data_def length_concat o_def sum_list_replicate)
qed

lemma read_cluster_eq:
  assumes "fat_healthy fs d" and "is_cluster fs (unat c)"
  shows "read_cluster fs d (cluster_to_lba fs c) pos want got
    = Some (got @ take (want - length got) (drop pos (cluster_data fs d (unat c))))"
proof (induction "cluster_bytes fs - pos" arbitrary: pos got rule: less_induct)
  case less
  note g = fat_healthyD(1) [OF assms(1)] and l = cluster_data_length [OF assms(1), of "unat c"]
  show ?case
  proof (cases "pos < cluster_bytes fs \<and> length got < want")
    case True
    let ?s = "pos div 512" and ?i = "pos mod 512"
    let ?n = "min (min (512 - ?i) (cluster_bytes fs - pos)) (want - length got)"
    let ?D = "cluster_data fs d (unat c)"
    let ?sec = "dk_data d (vol_lba fs (data_sector fs (unat c) ?s))"
    have s: "?s < spc fs" using True fat_geometry_bounds(6) [OF g] by (simp add: less_mult_imp_div_less)
    have c: "2 \<le> unat c" "unat c < fat_clusters fs" using assms(2) by (simp_all add: is_cluster_def)
    have r: "read_sector (cluster_to_lba fs c + of_nat ?s) d = Some ?sec"
      using fat_healthyD(3) [OF assms(1) data_sector_less(1) [OF c s]] by (simp add: cluster_to_lba_vol [OF g c(1)])
    have sec: "?sec = take 512 (drop (?s * 512) ?D)"
      unfolding cluster_data_def by (rule concat_block_nth [OF _ s, symmetric]) (rule fat_healthyD(2) [OF assms(1)])
    have "drop ?i ?sec = take (512 - ?i) (drop pos ?D)" unfolding sec by (simp add: drop_take add.commute)
    then have t: "take k (drop ?i ?sec) = take k (drop pos ?D)" if "k \<le> 512 - ?i" for k using that by (simp add: min_absorb1)
    have n: "0 < ?n" "?n \<le> 512 - ?i" "?n \<le> cluster_bytes fs - pos" using True by simp_all
    have m: "cluster_bytes fs - (pos + k) < cluster_bytes fs - pos" if "0 < k" for k using True that by auto
    have len: "length (take k (drop pos ?D)) = k" if "k \<le> cluster_bytes fs - pos" for k using l that by simp
    have "read_cluster fs d (cluster_to_lba fs c) pos want got
        = read_cluster fs d (cluster_to_lba fs c) (pos + ?n) want (got @ take ?n (drop pos ?D))"
      using True r t [OF n(2)] by (simp add: read_cluster.simps [of _ _ _ pos] Let_def)
    also have "\<dots> = Some ((got @ take ?n (drop pos ?D)) @ take (want - length (got @ take ?n (drop pos ?D))) (drop (pos + ?n) ?D))"
      by (rule less [OF m [OF n(1)]])
    also have "\<dots> = Some (got @ take (want - length got) (drop pos ?D))"
    proof -
      define n where "n = ?n"
      have "n \<le> want - length got" by (simp add: n_def)
      then obtain k where k: "want - length got = n + k" using le_Suc_ex by blast
      have "take (want - length got) (drop pos ?D) = take n (drop pos ?D) @ take k (drop (pos + n) ?D)"
        unfolding k take_add by (simp add: add.commute)
      moreover have "want - length (got @ take n (drop pos ?D)) = k" using len [OF n(3)] k unfolding n_def [symmetric] by simp
      ultimately show ?thesis unfolding n_def [symmetric] by simp
    qed
    finally show ?thesis .
  next
    case False
    then have "want - length got = 0 \<or> drop pos (cluster_data fs d (unat c)) = []" using l by auto
    then show ?thesis using False by (auto simp: read_cluster.simps [of _ _ _ pos])
  qed
qed

lemma read_chain_eq:
  assumes "fat_healthy fs d" and "fat_chain fs d c cs" and "hops + length cs \<le> fat_clusters fs"
  shows "read_chain fs d want c hops 0 got = Some (Some (got @ take (want - length got) (concat (map (cluster_data fs d) cs))))"
  using assms(2,3)
proof (induction cs arbitrary: c hops got)
  case Nil
  then show ?case by (simp add: read_chain.simps [of _ _ _ c])
next
  case (Cons x cs)
  note g = fat_healthyD(1) [OF assms(1)]
  let ?D = "cluster_data fs d x"
  from Cons.prems have x: "unat c = x" "is_cluster fs x" "fat_chain fs d (next_cluster fs d c) cs" by simp_all
  show ?case
  proof (cases "length got < want")
    case True
    let ?got = "got @ take (want - length got) ?D"
    have "in_chain c" using is_cluster_in_chain [OF g] x by simp
    moreover have "\<not> hops + 1 > unat (chain_limit fs)" using Cons.prems(2) fat_geometry_bounds(8) [OF g] by simp
    moreover have "read_cluster fs d (cluster_to_lba fs c) 0 want got = Some ?got"
      using read_cluster_eq [OF assms(1), of c 0 want got] x by simp
    ultimately have "read_chain fs d want c hops 0 got = read_chain fs d want (next_cluster fs d c) (hops + 1) 0 ?got"
      using True by (simp add: read_chain.simps [of _ _ _ c])
    also have "\<dots> = Some (Some (?got @ take (want - length ?got) (concat (map (cluster_data fs d) cs))))"
      by (rule Cons.IH [OF x(3)]) (use Cons.prems(2) in simp)
    finally show ?thesis by (simp add: min_def)
  qed (simp add: read_chain.simps [of _ _ _ c])
qed

section \<open>The streaming writer\<close>

text \<open>The entries of a chain's clusters: each names the next, the last one ends the chain.\<close>

fun linked :: "(nat \<Rightarrow> u32) \<Rightarrow> nat list \<Rightarrow> bool" where
  "linked e [] \<longleftrightarrow> True"
| "linked e [x] \<longleftrightarrow> e x = EOC"
| "linked e (x # y # ys) \<longleftrightarrow> unat (e x) = y \<and> linked e (y # ys)"

lemma linked_snoc:
  assumes "linked e (cs @ [p])" and "distinct (cs @ [p])" and "n \<notin> set (cs @ [p])" and "e' n = EOC" and "unat (e' p) = n"
    and "\<And>x. x \<in> set cs \<Longrightarrow> e' x = e x"
  shows "linked e' (cs @ [p, n])"
  using assms
proof (induction cs)
  case (Cons x cs)
  then show ?case by (cases cs) auto
qed simp

lemma linked_cong: "(\<And>x. x \<in> set cs \<Longrightarrow> e' x = e x) \<Longrightarrow> linked e' cs = linked e cs"
  by (induction e cs rule: linked.induct) auto

lemma linked_nonzero: "linked e cs \<Longrightarrow> 0 \<notin> set cs \<Longrightarrow> x \<in> set cs \<Longrightarrow> e x \<noteq> 0"
  by (induction e cs rule: linked.induct) (auto simp: EOC_def)

lemma next_cluster_entry:
  assumes "fat_healthy fs d" and "is_cluster fs (unat c)"
  shows "raw_entry fs d (unat c) = EOC \<Longrightarrow> \<not> in_chain (next_cluster fs d c)"
    and "is_cluster fs (unat (raw_entry fs d (unat c))) \<Longrightarrow> next_cluster fs d c = raw_entry fs d (unat c)"
proof -
  note g = fat_healthyD(1) [OF assms(1)]
  have n: "next_cluster fs d c = raw_entry fs d (unat c) AND 0x0FFFFFFF"
    by (rule next_cluster_raw [OF assms(1)]) (use assms(2) in \<open>simp add: is_cluster_def\<close>)
  show "\<not> in_chain (next_cluster fs d c)" if "raw_entry fs d (unat c) = EOC"
    using that by (simp add: n in_chain_def EOC_def EOC_MIN_def)
  show "next_cluster fs d c = raw_entry fs d (unat c)" if "is_cluster fs (unat (raw_entry fs d (unat c)))"
  proof -
    let ?r = "raw_entry fs d (unat c)"
    have "unat ?r < 2 ^ 28" using that g by (simp add: is_cluster_def fat_geometry_def EOC_MIN_def)
    then have "unat (take_bit 28 ?r) = unat ?r" by (simp add: unsigned_take_bit_eq take_bit_nat_eq_self)
    then have "take_bit 28 ?r = ?r" by (rule unsigned_word_eqI)
    moreover have "?r AND 0x0FFFFFFF = take_bit 28 ?r" by (simp add: take_bit_eq_mask mask_eq_exp_minus_1)
    ultimately show ?thesis by (simp add: n)
  qed
qed

lemma linked_chain:
  assumes "fat_healthy fs d" and "\<forall>x\<in>set cs. is_cluster fs x" and "linked (raw_entry fs d) cs" and "cs \<noteq> []" and "unat c = hd cs"
  shows "fat_chain fs d c cs"
  using assms(2-)
proof (induction cs arbitrary: c rule: induct_list012)
  case (2 x)
  then show ?case using next_cluster_entry(1) [OF assms(1), of c] by simp
next
  case (3 x y cs)
  have "next_cluster fs d c = raw_entry fs d (unat c)"
    by (rule next_cluster_entry(2) [OF assms(1)]) (use 3(3,4,6) in auto)
  then show ?case using 3 by simp
qed simp

text \<open>A writer that started on volume \<open>d0\<close> and has stored \<open>content\<close> in the clusters \<open>cs\<close>.\<close>

definition writer_ok :: "fat32 \<Rightarrow> disk \<Rightarrow> disk \<Rightarrow> file_writer \<Rightarrow> nat list \<Rightarrow> u8 list \<Rightarrow> bool" where
  "writer_ok fs d0 d w cs content \<longleftrightarrow>
     fat_healthy fs d \<and> (fat_mirrored fs d0 \<longrightarrow> fat_mirrored fs d) \<and> distinct cs \<and> set cs \<subseteq> fat_free fs d0
     \<and> (\<forall>m. m < fat_clusters fs \<and> m \<notin> set cs \<longrightarrow> raw_entry fs d m = raw_entry fs d0 m)
     \<and> (\<forall>m. is_cluster fs m \<and> m \<notin> set cs \<longrightarrow> cluster_data fs d m = cluster_data fs d0 m)
     \<and> linked (raw_entry fs d) cs \<and> (cs = [] \<longleftrightarrow> fw_first w = 0) \<and> (cs \<noteq> [] \<longrightarrow> unat (fw_first w) = hd cs \<and> unat (fw_prev w) = last cs)
     \<and> take (length content) (concat (map (cluster_data fs d) cs)) = content \<and> length content \<le> cluster_bytes fs * length cs
     \<and> fw_size w = of_nat (length content) \<and> fw_cluster_bytes w = cluster_bytes fs"

lemma fat_free_cluster: "m \<in> fat_free fs d \<Longrightarrow> is_cluster fs m \<and> raw_entry fs d m = 0"
  by (simp add: fat_free_def is_cluster_def)

lemma writer_ok_free:
  assumes "writer_ok fs d0 d w cs content"
  shows "fat_free fs d = fat_free fs d0 - set cs"
proof -
  from assms have c: "set cs \<subseteq> fat_free fs d0" "linked (raw_entry fs d) cs"
      "\<forall>m. m < fat_clusters fs \<and> m \<notin> set cs \<longrightarrow> raw_entry fs d m = raw_entry fs d0 m" by (simp_all add: writer_ok_def)
  have "raw_entry fs d x \<noteq> 0" if "x \<in> set cs" for x
    by (rule linked_nonzero [OF c(2) _ that]) (use c(1) in \<open>auto simp: fat_free_def\<close>)
  then show ?thesis using c by (auto simp: fat_free_def)
qed

lemma concat_data_length:
  assumes "fat_healthy fs d"
  shows "length (concat (map (cluster_data fs d) cs)) = cluster_bytes fs * length cs"
  using cluster_data_length [OF assms] by (induction cs) simp_all

lemma same_data_cluster:
  assumes "same_data fs d d'" and "is_cluster fs m"
  shows "cluster_data fs d' m = cluster_data fs d m"
proof (rule cluster_data_cong)
  fix s
  assume "s < spc fs"
  then show "dk_data d' (vol_lba fs (data_sector fs m s)) = dk_data d (vol_lba fs (data_sector fs m s))"
    using assms data_sector_less [of m fs s] by (simp add: same_data_def is_cluster_def)
qed

lemma append_chunk_view:
  assumes "fat_healthy fs d" and "fat_free fs d \<noteq> {}" and "length chunk \<le> cluster_bytes fs"
    and "fw_first w \<noteq> 0 \<Longrightarrow> unat (fw_prev w) < fat_clusters fs \<and> unat (fw_prev w) \<notin> fat_free fs d"
  shows "\<exists>c d'. append_chunk fs chunk w d =
      (True, w\<lparr>fw_first := (if fw_first w = 0 then c else fw_first w), fw_prev := c, fw_size := fw_size w + of_nat (length chunk)\<rparr>, d')
    \<and> unat c \<in> fat_free fs d \<and> fat_healthy fs d' \<and> (fat_mirrored fs d \<longrightarrow> fat_mirrored fs d')
    \<and> (\<forall>m. m < fat_clusters fs \<longrightarrow> raw_entry fs d' m =
          (if m = unat c then EOC else if fw_first w \<noteq> 0 \<and> m = unat (fw_prev w) then c else raw_entry fs d m))
    \<and> (\<forall>m. is_cluster fs m \<longrightarrow> cluster_data fs d' m =
          (if m = unat c then chunk @ replicate (cluster_bytes fs - length chunk) 0 else cluster_data fs d m))"
proof -
  note g = fat_healthyD(1) [OF assms(1)]
  obtain c d1 where a: "alloc_cluster fs d = (Some c, d1)" "unat c \<in> fat_free fs d" "fat_healthy fs d1" "same_data fs d d1"
      "\<forall>m. m < fat_clusters fs \<longrightarrow> raw_entry fs d1 m = (if m = unat c then EOC else raw_entry fs d m)"
      "fat_mirrored fs d \<longrightarrow> fat_mirrored fs d1"
    using alloc_cluster_eq [OF assms(1,2)] by blast
  have c: "is_cluster fs (unat c)" using fat_free_cluster [OF a(2)] by blast
  obtain d2 where b: "write_cluster fs c chunk d1 = (True, d2)" "fat_healthy fs d2" "same_fat fs d1 d2"
      "\<forall>m. is_cluster fs m \<longrightarrow> cluster_data fs d2 m =
          (if m = unat c then chunk @ replicate (cluster_bytes fs - length chunk) 0 else cluster_data fs d1 m)"
    using write_cluster_eq [OF a(3) c assms(3)] by blast
  have raw2: "raw_entry fs d2 m = (if m = unat c then EOC else raw_entry fs d m)" if "m < fat_clusters fs" for m
    using same_fat_raw [OF g b(3) that] a(5) that by simp
  have dat2: "cluster_data fs d2 m = (if m = unat c then chunk @ replicate (cluster_bytes fs - length chunk) 0 else cluster_data fs d m)"
    if "is_cluster fs m" for m using b(4) same_data_cluster [OF a(4) that] that by simp
  have mir2: "fat_mirrored fs d \<longrightarrow> fat_mirrored fs d2" using a(6) same_fat_mirrored [OF g b(3)] by blast
  show ?thesis
  proof (cases "fw_first w = 0")
    case True
    then have "append_chunk fs chunk w d = (True, w\<lparr>fw_first := c, fw_prev := c, fw_size := fw_size w + of_nat (length chunk)\<rparr>, d2)"
      using a(1) b(1) by (simp add: append_chunk_def)
    then show ?thesis using True a(2) b(2) mir2 raw2 dat2 by (intro exI [of _ c] exI [of _ d2]) simp
  next
    case False
    then have p: "unat (fw_prev w) < fat_clusters fs" "unat (fw_prev w) \<noteq> unat c" using assms(4) a(2) by auto
    obtain d3 where e: "write_fat_entry fs (fw_prev w) c d2 = (True, d3)" "fat_healthy fs d3" "same_data fs d2 d3"
        "\<forall>m. m < fat_clusters fs \<longrightarrow> raw_entry fs d3 m = (if m = unat (fw_prev w) then c else raw_entry fs d2 m)"
        "fat_mirrored fs d2 \<longrightarrow> fat_mirrored fs d3"
      using write_fat_entry_eq [OF b(2) p(1), of c] by blast
    have "append_chunk fs chunk w d = (True, w\<lparr>fw_prev := c, fw_size := fw_size w + of_nat (length chunk)\<rparr>, d3)"
      using a(1) b(1) e(1) False by (simp add: append_chunk_def)
    moreover have "raw_entry fs d3 m = (if m = unat c then EOC else if m = unat (fw_prev w) then c else raw_entry fs d m)"
      if "m < fat_clusters fs" for m using e(4) raw2 that p(2) by auto
    moreover have "cluster_data fs d3 m = (if m = unat c then chunk @ replicate (cluster_bytes fs - length chunk) 0 else cluster_data fs d m)"
      if "is_cluster fs m" for m using dat2 same_data_cluster [OF e(3)] that by simp
    ultimately show ?thesis using False a(2) e(2,5) mir2 by (intro exI [of _ c] exI [of _ d3]) simp
  qed
qed

lemma append_chunk_ok:
  assumes "writer_ok fs d0 d w cs content" and "length content = cluster_bytes fs * length cs"
    and "length chunk \<le> cluster_bytes fs" and "fat_free fs d \<noteq> {}"
  shows "\<exists>w' d' c. append_chunk fs chunk w d = (True, w', d') \<and> writer_ok fs d0 d' w' (cs @ [c]) (content @ chunk)"
proof -
  from assms(1) have ok: "fat_healthy fs d" "fat_mirrored fs d0 \<longrightarrow> fat_mirrored fs d" "distinct cs" "set cs \<subseteq> fat_free fs d0"
      "\<forall>m. m < fat_clusters fs \<and> m \<notin> set cs \<longrightarrow> raw_entry fs d m = raw_entry fs d0 m"
      "\<forall>m. is_cluster fs m \<and> m \<notin> set cs \<longrightarrow> cluster_data fs d m = cluster_data fs d0 m"
      "linked (raw_entry fs d) cs" "cs = [] \<longleftrightarrow> fw_first w = 0" "cs \<noteq> [] \<longrightarrow> unat (fw_first w) = hd cs \<and> unat (fw_prev w) = last cs"
      "take (length content) (concat (map (cluster_data fs d) cs)) = content" "fw_size w = of_nat (length content)"
      "fw_cluster_bytes w = cluster_bytes fs"
    unfolding writer_ok_def by simp_all
  note free = writer_ok_free [OF assms(1)]
  have "unat (fw_prev w) < fat_clusters fs \<and> unat (fw_prev w) \<notin> fat_free fs d" if "fw_first w \<noteq> 0"
  proof -
    have "unat (fw_prev w) \<in> set cs" using ok(8,9) that by simp
    then show ?thesis using ok(4) free by (auto simp: fat_free_def)
  qed
  then obtain c d' where v: "append_chunk fs chunk w d =
      (True, w\<lparr>fw_first := (if fw_first w = 0 then c else fw_first w), fw_prev := c, fw_size := fw_size w + of_nat (length chunk)\<rparr>, d')"
      "unat c \<in> fat_free fs d" "fat_healthy fs d'" "fat_mirrored fs d \<longrightarrow> fat_mirrored fs d'"
      "\<forall>m. m < fat_clusters fs \<longrightarrow> raw_entry fs d' m =
          (if m = unat c then EOC else if fw_first w \<noteq> 0 \<and> m = unat (fw_prev w) then c else raw_entry fs d m)"
      "\<forall>m. is_cluster fs m \<longrightarrow> cluster_data fs d' m =
          (if m = unat c then chunk @ replicate (cluster_bytes fs - length chunk) 0 else cluster_data fs d m)"
    using append_chunk_view [OF ok(1) assms(4,3), of w] by blast
  have c: "unat c \<notin> set cs" "unat c \<in> fat_free fs d0" "is_cluster fs (unat c)" using v(2) free fat_free_cluster [OF v(2)] by auto
  have cl: "is_cluster fs x" "x < fat_clusters fs" if "x \<in> set cs" for x
    using that ok(4) fat_free_cluster [of x fs d0] by (auto simp: is_cluster_def)
  have lk: "linked (raw_entry fs d') (cs @ [unat c])"
  proof (cases cs rule: rev_cases)
    case Nil
    then show ?thesis using v(5) c(3) by (simp add: is_cluster_def)
  next
    case (snoc ys p)
    have p: "unat (fw_prev w) = p" "fw_first w \<noteq> 0" using snoc ok(8,9) by auto
    have "linked (raw_entry fs d') (ys @ [p, unat c])"
    proof (rule linked_snoc)
      show "linked (raw_entry fs d) (ys @ [p])" "distinct (ys @ [p])" "unat c \<notin> set (ys @ [p])" using snoc ok(3,7) c(1) by simp_all
      show "raw_entry fs d' (unat c) = EOC" using v(5) c(3) by (simp add: is_cluster_def)
      show "unat (raw_entry fs d' p) = unat c" using v(5) cl(2) [of p] snoc p c(1) by simp
      show "raw_entry fs d' x = raw_entry fs d x" if "x \<in> set ys" for x
        using v(5) cl(2) [of x] snoc p(1) ok(3) c(1) that by auto
    qed
    then show ?thesis using snoc by simp
  qed
  have dat: "map (cluster_data fs d') cs = map (cluster_data fs d) cs"
    using v(6) cl(1) c(1) by (intro map_cong) auto
  have all: "concat (map (cluster_data fs d') cs) = content"
    unfolding dat using ok(10) concat_data_length [OF ok(1), of cs] assms(2) by simp
  have cd: "cluster_data fs d' (unat c) = chunk @ replicate (cluster_bytes fs - length chunk) 0" using v(6) c(3) by simp
  have "concat (map (cluster_data fs d') (cs @ [unat c])) = content @ chunk @ replicate (cluster_bytes fs - length chunk) 0"
    unfolding map_append concat_append all by (simp add: cd)
  then have t: "take (length (content @ chunk)) (concat (map (cluster_data fs d') (cs @ [unat c]))) = content @ chunk" by simp
  have prev: "m \<noteq> unat (fw_prev w)" if "m \<notin> set cs" "fw_first w \<noteq> 0" for m
    using that ok(8,9) last_in_set [of cs] by auto
  have raw: "raw_entry fs d' m = raw_entry fs d0 m" if "m < fat_clusters fs" "m \<notin> set (cs @ [unat c])" for m
    using v(5) ok(5) prev [of m] that by (cases "fw_first w = 0") auto
  have dat0: "cluster_data fs d' m = cluster_data fs d0 m" if "is_cluster fs m" "m \<notin> set (cs @ [unat c])" for m
    using v(6) ok(6) that by simp
  let ?first = "if fw_first w = 0 then c else fw_first w"
  have c0: "c \<noteq> 0" using c(3) by (auto simp: is_cluster_def)
  then have fst: "?first \<noteq> 0" "unat ?first = hd (cs @ [unat c])" using ok(8,9) by (cases cs; simp)+
  have "writer_ok fs d0 d' (w\<lparr>fw_first := ?first, fw_prev := c, fw_size := fw_size w + of_nat (length chunk)\<rparr>) (cs @ [unat c]) (content @ chunk)"
    unfolding writer_ok_def
  proof (intro conjI)
    show "fat_healthy fs d'" "fat_mirrored fs d0 \<longrightarrow> fat_mirrored fs d'" using v(3,4) ok(2) by blast+
    show "length (content @ chunk) \<le> cluster_bytes fs * length (cs @ [unat c])" using assms(2,3) by simp
  qed (use ok(3,4,11,12) c lk t raw dat0 fst in simp_all)
  then show ?thesis using v(1) by blast
qed

lemma fat_free_finite: "finite (fat_free fs d)"
  by (rule finite_subset [of _ "{..<fat_clusters fs}"]) (auto simp: fat_free_def)

lemma append_data_ok:
  assumes "writer_ok fs d0 d w cs content" and "data = [] \<or> length content = cluster_bytes fs * length cs"
    and "length data \<le> cluster_bytes fs * (card (fat_free fs d0) - length cs)"
  shows "\<exists>w' d' cs'. append_data fs data w d = (True, w', d') \<and> writer_ok fs d0 d' w' cs' (content @ data)"
  using assms
proof (induction "length data" arbitrary: data d w cs content rule: less_induct)
  case less
  have ok: "fat_healthy fs d" "distinct cs" "set cs \<subseteq> fat_free fs d0" "fw_cluster_bytes w = cluster_bytes fs"
    using less.prems(1) by (simp_all add: writer_ok_def)
  let ?b = "cluster_bytes fs"
  have b: "0 < ?b" by (rule fat_geometry_bounds(7) [OF fat_healthyD(1) [OF ok(1)]])
  show ?case
  proof (cases "data = []")
    case True
    have "append_data fs data w d = (True, w, d)" unfolding True by (subst append_data.simps) simp
    then show ?thesis using less.prems(1) True by auto
  next
    case False
    then have "0 < ?b * (card (fat_free fs d0) - length cs)" using less.prems(3) by (metis length_greater_0_conv order.strict_trans2)
    then have n: "length cs < card (fat_free fs d0)" by simp
    then have "set cs \<noteq> fat_free fs d0" using distinct_card [OF ok(2)] by auto
    then have ne: "fat_free fs d \<noteq> {}" using writer_ok_free [OF less.prems(1)] ok(3) by auto
    obtain w' d' c where s: "append_chunk fs (take ?b data) w d = (True, w', d')" "writer_ok fs d0 d' w' (cs @ [c]) (content @ take ?b data)"
      using append_chunk_ok [OF less.prems(1) _ _ ne, of "take ?b data"] less.prems(2) False by auto
    have w': "append_data fs data w d = append_data fs (drop ?b data) w' d'"
      using False b ok(4) s(1) by (simp add: append_data.simps [of _ data])
    have "length (drop ?b data) < length data" using False b by simp
    moreover have "drop ?b data = [] \<or> length (content @ take ?b data) = ?b * length (cs @ [c])"
      using less.prems(2) False by (cases "length data \<le> ?b") simp_all
    moreover have "length (drop ?b data) \<le> ?b * (card (fat_free fs d0) - length (cs @ [c]))"
    proof -
      obtain k where k: "card (fat_free fs d0) - length cs = Suc k" using n by (metis Suc_diff_Suc)
      then have "card (fat_free fs d0) - length (cs @ [c]) = k" by simp
      then show ?thesis using less.prems(3) unfolding k by simp
    qed
    ultimately obtain w'' d'' cs' where "append_data fs (drop ?b data) w' d' = (True, w'', d'')"
        "writer_ok fs d0 d'' w'' cs' ((content @ take ?b data) @ drop ?b data)"
      using less.hyps [OF _ s(2)] by blast
    then show ?thesis using w' by auto
  qed
qed

lemma writer_ok_start:
  assumes "fat_healthy fs d" and "create_file fs dir name = Some w"
  shows "writer_ok fs d d w [] []"
  using assms by (auto simp: writer_ok_def create_file_def split: if_splits)

lemma create_file_ok:
  assumes "fat_geometry fs"
  shows "\<exists>w. create_file fs dir name = Some w \<and> fw_dir_cluster w = dir \<and> fw_name w = name"
proof -
  have "cluster_bytes fs \<le> 64 * 512" unfolding fat_geometry_bounds(6) [OF assms] by (rule mult_le_mono1) (use assms in \<open>simp add: fat_geometry_def\<close>)
  then show ?thesis using fat_geometry_bounds(7) [OF assms] by (simp add: create_file_def MAX_CLUSTER_BYTES_def)
qed

text \<open>A file whose chain holds the contents reads back as them.\<close>

lemma chain_read:
  assumes "fat_healthy fs d" and "fat_chain fs d c xs" and "distinct xs"
    and "take (length content) (concat (map (cluster_data fs d) xs)) = content" and "length content < 2 ^ 32"
  shows "read_file fs d c (of_nat (length content)) (length content) = Some (Some content)"
proof -
  have "unat (of_nat (length content) :: u32) = length content" using assms(5) by (simp add: unat_of_nat_small)
  then show ?thesis using read_chain_eq [OF assms(1,2), of 0 "length content" "[]"] fat_chain_length [OF assms(2,3)] assms(4)
    by (simp add: read_file_def)
qed

end
