(* ===== verification/Fat_File.thy ===== *)
theory Fat_File
  imports Fat_Write
begin

text \<open>
  Directories of a FAT volume as lists of 32-byte slots, and the round trip of a file: \<open>write_file\<close> stores the
  contents, publishes the entry in the first free slot, \<open>find_path\<close> finds it and \<open>read_file\<close> returns the contents.
\<close>

unbundle bit_operations_syntax

section \<open>Directories as lists of sectors\<close>

text \<open>A directory whose chain ends is read sector by sector; the walk and both passes of the entry writer are
  functions of the list of its sectors.\<close>

definition dir_lbas :: "fat32 \<Rightarrow> nat list \<Rightarrow> u64 list" where
  "dir_lbas fs cs = concat (map (\<lambda>x. cluster_lbas fs (of_nat x)) cs)"

lemma walk_cluster_append:
  "walk_cluster d (xs @ ys) =
     (case walk_cluster d xs of (es, stop) \<Rightarrow>
        if stop then (es, True) else (case walk_cluster d ys of (es', stop') \<Rightarrow> (es @ es', stop')))"
  by (induction xs) (auto split: option.split prod.split)

lemma walk_cluster_past: "walk_cluster d xs = (es, False) \<Longrightarrow> fst (walk_cluster d (xs @ ys)) = es @ fst (walk_cluster d ys)"
  by (simp add: walk_cluster_append split: prod.split)

lemma dir_cluster_append:
  "dir_cluster pick put (xs @ ys) d =
     (case dir_cluster pick put xs d of None \<Rightarrow> dir_cluster pick put ys d | Some r \<Rightarrow> Some r)"
  by (induction xs) (auto split: option.split)

lemma walk_chain_lbas:
  assumes "fat_geometry fs" and "fat_chain fs d c cs" and "hops + length cs \<le> fat_clusters fs"
  shows "walk_chain fs d c hops acc = Some (acc @ fst (walk_cluster d (dir_lbas fs cs)))"
  using assms(2,3)
proof (induction cs arbitrary: c hops acc)
  case Nil
  then show ?case by (simp add: walk_chain.simps [of _ _ c] dir_lbas_def)
next
  case (Cons x cs)
  from Cons.prems have x: "unat c = x" "is_cluster fs x" "fat_chain fs d (next_cluster fs d c) cs" by simp_all
  have c: "of_nat x = c" using x(1) by auto
  have "in_chain c" using is_cluster_in_chain [OF assms(1)] x by simp
  moreover have "\<not> hops + 1 > unat (chain_limit fs)" using Cons.prems(2) fat_geometry_bounds(8) [OF assms(1)] by simp
  moreover have "walk_chain fs d (next_cluster fs d c) (hops + 1) acc' = Some (acc' @ fst (walk_cluster d (dir_lbas fs cs)))" for acc'
    by (rule Cons.IH [OF x(3)]) (use Cons.prems(2) in simp)
  ultimately show ?case
    by (simp add: walk_chain.simps [of _ _ c] dir_lbas_def c walk_cluster_append split: prod.split)
qed

lemma dir_pass_lbas:
  assumes "fat_geometry fs" and "fat_chain fs d c cs" and "hops + length cs \<le> fat_clusters fs"
  shows "dir_pass fs pick put c hops d = Some (dir_cluster pick put (dir_lbas fs cs) d)"
  using assms(2,3)
proof (induction cs arbitrary: c hops)
  case Nil
  then show ?case by (simp add: dir_pass.simps [of _ _ _ c] dir_lbas_def)
next
  case (Cons x cs)
  from Cons.prems have x: "unat c = x" "is_cluster fs x" "fat_chain fs d (next_cluster fs d c) cs" by simp_all
  have c: "of_nat x = c" using x(1) by auto
  have "in_chain c" using is_cluster_in_chain [OF assms(1)] x by simp
  moreover have "\<not> hops + 1 > unat (chain_limit fs)" using Cons.prems(2) fat_geometry_bounds(8) [OF assms(1)] by simp
  moreover have "dir_pass fs pick put (next_cluster fs d c) (hops + 1) d = Some (dir_cluster pick put (dir_lbas fs cs) d)"
    by (rule Cons.IH [OF x(3)]) (use Cons.prems(2) in simp)
  ultimately show ?case
    by (simp add: dir_pass.simps [of _ _ _ c] dir_lbas_def c dir_cluster_append split: option.split)
qed

text \<open>The first sector with a slot is the one a pass rewrites.\<close>

lemma dir_cluster_first:
  assumes "\<forall>lba\<in>set pre. read_sector lba d \<noteq> None \<and> pick (dk_data d lba) = None"
    and "read_sector lba d = Some (dk_data d lba)" and "pick (dk_data d lba) = Some off"
  shows "dir_cluster pick put (pre @ lba # post) d = Some (write_sector lba (put off (dk_data d lba)) d)"
  using assms by (induction pre) (auto simp: read_sector_def split: if_splits)

lemma dir_cluster_none:
  assumes "\<forall>lba\<in>set lbas. read_sector lba d \<noteq> None \<and> pick (dk_data d lba) = None"
  shows "dir_cluster pick put lbas d = None"
  using assms by (induction lbas) (auto simp: read_sector_def split: if_splits)

section \<open>Slots of a directory sector\<close>

definition slot_name :: "u8 list \<Rightarrow> nat \<Rightarrow> u8 list" where
  "slot_name sec off = take 11 (drop off sec)"

lemma eq_8_3_refl [simp]: "eq_8_3 n n"
  by (induction n) (simp_all add: eq_8_3_def eq_ignore_case_def zip_same_conv_map list_all_iff)

lemma same_name_None:
  assumes "\<forall>off\<in>set offs. slot_name sec off \<noteq> name"
  shows "same_name name sec offs = None"
  using assms by (induction offs) (auto simp: slot_name_def)

text \<open>A sector without free slots is walked to its end.\<close>

lemma walk_sector_full:
  assumes "length sec = 512" and "\<forall>off\<in>set offs. off + 32 \<le> 512 \<and> sec ! off \<noteq> 0"
  shows "\<exists>es. walk_sector sec (offs @ rest) = (es @ fst (walk_sector sec rest), snd (walk_sector sec rest))
    \<and> (\<forall>e\<in>set es. \<exists>off\<in>set offs. de_name e = slot_name sec off)"
  using assms(2)
proof (induction offs)
  case (Cons off offs)
  then obtain es where es: "walk_sector sec (offs @ rest) = (es @ fst (walk_sector sec rest), snd (walk_sector sec rest))"
      "\<forall>e\<in>set es. \<exists>off\<in>set offs. de_name e = slot_name sec off" by auto
  have n: "de_name (dirent_at sec off) = slot_name sec off" by (simp add: dirent_at_def slot_name_def Let_def min_def)
  have "hd (de_name (dirent_at sec off)) = sec ! off" using Cons.prems assms(1)
    unfolding n slot_name_def by (simp add: hd_take hd_drop_conv_nth)
  then have "hd (de_name (dirent_at sec off)) \<noteq> 0" using Cons.prems by simp
  then show ?case
    using es n by (cases "hd (de_name (dirent_at sec off)) = 0xE5 \<or> de_attr (dirent_at sec off) = 0x0F")
      (auto simp: Let_def intro: exI [of _ es] exI [of _ "dirent_at sec off # es"])
qed simp

lemma find_split:
  assumes "List.find P xs = Some x"
  shows "\<exists>pre post. xs = pre @ x # post \<and> P x \<and> (\<forall>y\<in>set pre. \<not> P y)"
  using assms
proof (induction xs)
  case (Cons y ys)
  show ?case
  proof (cases "P y")
    case True
    then show ?thesis using Cons.prems by (intro exI [of _ "[]"] exI [of _ ys]) simp
  next
    case False
    then obtain pre post where "ys = pre @ x # post" "P x" "\<forall>y\<in>set pre. \<not> P y" using Cons by auto
    then show ?thesis using False by (intro exI [of _ "y # pre"] exI [of _ post]) simp
  qed
qed simp

lemma find_past: "List.find P xs = None \<Longrightarrow> List.find P (xs @ ys) = List.find P ys"
  by (induction xs) (simp_all split: if_splits)

lemma le16_to_le16: "le16 (ucast w) (ucast (drop_bit 8 w)) = (w :: u16)"
proof (rule bit_word_eqI)
  fix n :: nat
  assume "n < LENGTH(16)"
  then consider "n < 8" | "8 \<le> n" "n < 16" by fastforce
  then show "bit (le16 (ucast w) (ucast (drop_bit 8 w))) n = bit w n" by cases (auto simp: le16_def bit_simps)
qed

lemma cluster_halves: "push_bit 16 (ucast (ucast (drop_bit 16 c) :: u16)) OR ucast (ucast c :: u16) = (c :: u32)"
proof (rule bit_word_eqI)
  fix n :: nat
  assume "n < LENGTH(32)"
  then consider "n < 16" | "16 \<le> n" "n < 32" by fastforce
  then show "bit (push_bit 16 (ucast (ucast (drop_bit 16 c) :: u16)) OR ucast (ucast c :: u16) :: u32) n = bit c n"
    by cases (auto simp: bit_simps)
qed

text \<open>The 32 bytes of a new entry.\<close>

definition entry_bytes :: "u8 list \<Rightarrow> u32 \<Rightarrow> u32 \<Rightarrow> u8 \<Rightarrow> u8 list" where
  "entry_bytes name c n attr =
     name @ [attr] @ replicate 8 0 @ to_le16 (ucast (drop_bit 16 c)) @ replicate 4 0 @ to_le16 (ucast c) @ to_le32 n"

lemma entry_bytes_length: "length name = 11 \<Longrightarrow> length (entry_bytes name c n attr) = 32"
  by (simp add: entry_bytes_def to_le16_def to_le32_def)

lemma list_11: "length xs = 11 \<Longrightarrow> xs = map (\<lambda>i. xs ! i) [0, 1, 2, 3, 4, 5, 6, 7, 8, 9, 10]"
  by (rule nth_equalityI) (auto simp: nth_Cons' less_Suc_eq numeral_eq_Suc)

lemma new_dirent_patch:
  assumes "length name = 11"
  shows "new_dirent name c n attr off sec = patch off (entry_bytes name c n attr) sec"
proof -
  obtain a0 a1 a2 a3 a4 a5 a6 a7 a8 a9 a10 where "name = [a0, a1, a2, a3, a4, a5, a6, a7, a8, a9, a10]"
    using list_11 [OF assms] by fastforce
  then have "update_dirent c n 0 (patch 0 (name @ [attr]) (replicate 32 0)) = entry_bytes name c n attr"
    by (simp add: update_dirent_def patch_def entry_bytes_def to_le16_def to_le32_def numeral_eq_Suc)
  then show ?thesis by (simp add: new_dirent_def)
qed

lemma entry_layout:
  assumes "length name = 11"
  shows "let e = name @ [attr] @ replicate 8 (0 :: u8) @ [h0, h1] @ replicate 4 0 @ [l0, l1] @ [s0, s1, s2, s3] in
    take 11 e = name \<and> e ! 11 = attr \<and> e ! 20 = h0 \<and> e ! 21 = h1 \<and> e ! 26 = l0 \<and> e ! 27 = l1
    \<and> e ! 28 = s0 \<and> e ! 29 = s1 \<and> e ! 30 = s2 \<and> e ! 31 = s3"
  using assms by (simp add: nth_append numeral_eq_Suc)

lemma dirent_entry_bytes:
  assumes "length name = 11" and "take 32 (drop off sec) = entry_bytes name c n attr"
  shows "dirent_at sec off = \<lparr>de_name = name, de_attr = attr, de_cluster = c, de_size = n\<rparr>"
proof -
  note l = entry_layout [OF assms(1), of attr "ucast (ucast (drop_bit 16 c) :: u16)" "ucast (drop_bit 8 (ucast (drop_bit 16 c) :: u16))"
    "ucast (ucast c :: u16)" "ucast (drop_bit 8 (ucast c :: u16))"
    "ucast n" "ucast (drop_bit 8 n)" "ucast (drop_bit 16 n)" "ucast (drop_bit 24 n)", folded to_le16_def to_le32_def]
  show ?thesis
    using l unfolding dirent_at_def assms(2) Let_def entry_bytes_def
    by (simp only: le16_to_le16 le32_to_le32 cluster_halves)
qed

lemma patch_slot:
  assumes "length sec = 512" and "length e = 32" and "off + 32 \<le> 512"
  shows "take 32 (drop off (patch off e sec)) = e"
    and "k + 32 \<le> off \<or> off + 32 \<le> k \<Longrightarrow> take 32 (drop k (patch off e sec)) = take 32 (drop k sec)"
    and "length (patch off e sec) = 512"
proof -
  show "take 32 (drop off (patch off e sec)) = e" "length (patch off e sec) = 512" using assms by (simp_all add: patch_def)
  show "take 32 (drop k (patch off e sec)) = take 32 (drop k sec)" if "k + 32 \<le> off \<or> off + 32 \<le> k"
    using that
  proof
    assume "k + 32 \<le> off"
    then obtain j where "off = k + 32 + j" using le_Suc_ex by blast
    then show ?thesis using assms by (simp add: patch_def drop_take)
  next
    assume "off + 32 \<le> k"
    then obtain j where "k = off + 32 + j" using le_Suc_ex by blast
    then show ?thesis using assms by (simp add: patch_def add.commute)
  qed
qed

lemma dirent_offsets_range: "off \<in> set dirent_offsets \<Longrightarrow> off + 32 \<le> 512"
  by (auto simp: dirent_offsets_def)

lemma dirent_offsets_apart: "off \<in> set dirent_offsets \<Longrightarrow> k \<in> set dirent_offsets \<Longrightarrow> k \<noteq> off \<Longrightarrow> k + 32 \<le> off \<or> off + 32 \<le> k"
  by (auto simp: dirent_offsets_def)

lemma dirent_offsets_distinct: "distinct dirent_offsets"
  by (simp add: dirent_offsets_def distinct_map inj_on_def)

lemma nth_slot: "length sec = 512 \<Longrightarrow> off + 32 \<le> 512 \<Longrightarrow> sec ! off = hd (take 32 (drop off sec))"
  by (simp add: hd_take hd_drop_conv_nth)

lemma slot_name_take: "slot_name sec off = take 11 (take 32 (drop off sec))"
  by (simp add: slot_name_def min_def)

lemma free_slot_offset:
  assumes "free_slot sec = Some off"
  shows "off \<in> set dirent_offsets"
proof -
  obtain pre post where e: "dirent_offsets = pre @ off # post" using find_split [OF assms [unfolded free_slot_def]] by blast
  show ?thesis unfolding e by simp
qed

text \<open>A new entry in the first free slot is reached by the walk, after the entries that were there before.\<close>

lemma new_slot_walk:
  assumes "length sec = 512" and "free_slot sec = Some off" and "length name = 11" and "hd name \<noteq> 0" and "hd name \<noteq> 0xE5"
    and "attr \<noteq> 0x0F"
  shows "\<exists>pre post stop. walk_sector (new_dirent name c n attr off sec) dirent_offsets
      = (pre @ \<lparr>de_name = name, de_attr = attr, de_cluster = c, de_size = n\<rparr> # post, stop)
    \<and> (\<forall>e\<in>set pre. \<exists>k\<in>set dirent_offsets. de_name e = slot_name sec k)"
proof -
  let ?sec = "new_dirent name c n attr off sec" and ?e = "\<lparr>de_name = name, de_attr = attr, de_cluster = c, de_size = n\<rparr>"
  obtain xs ys where d: "dirent_offsets = xs @ off # ys" "\<forall>k\<in>set xs. sec ! k \<noteq> 0"
    using find_split [OF assms(2) [unfolded free_slot_def]] by blast
  have o1: "off \<in> set dirent_offsets" "set xs \<subseteq> set dirent_offsets" unfolding d(1) by auto
  note o = o1(1) dirent_offsets_range [OF o1(1)]
  note p = patch_slot [OF assms(1) entry_bytes_length [OF assms(3), of c n attr] o(2), folded new_dirent_patch [OF assms(3)]]
  have old: "take 32 (drop k ?sec) = take 32 (drop k sec)" "k + 32 \<le> 512" if "k \<in> set xs" for k
  proof -
    have "distinct (xs @ off # ys)" using dirent_offsets_distinct unfolding d(1) .
    then have "k \<in> set dirent_offsets" "k \<noteq> off" using that o1(2) by auto
    then show "take 32 (drop k ?sec) = take 32 (drop k sec)" "k + 32 \<le> 512"
      using p(2) dirent_offsets_apart [OF o(1)] dirent_offsets_range by blast+
  qed
  have nth: "?sec ! k = sec ! k" if "k \<in> set xs" for k
    unfolding nth_slot [OF p(3) old(2) [OF that]] nth_slot [OF assms(1) old(2) [OF that]] old(1) [OF that] ..
  have new: "dirent_at ?sec off = ?e" by (rule dirent_entry_bytes [OF assms(3) p(1)])
  obtain es where es: "walk_sector ?sec (xs @ off # ys) = (es @ fst (walk_sector ?sec (off # ys)), snd (walk_sector ?sec (off # ys)))"
      "\<forall>e\<in>set es. \<exists>k\<in>set xs. de_name e = slot_name ?sec k"
    using walk_sector_full [OF p(3), of xs "off # ys"] nth old(2) d(2) by auto
  have "fst (walk_sector ?sec (off # ys)) = ?e # fst (walk_sector ?sec ys)"
    using new assms(4-6) by (simp add: Let_def split: prod.split)
  moreover have "\<forall>e\<in>set es. \<exists>k\<in>set dirent_offsets. de_name e = slot_name sec k"
    using es(2) old(1) o1(2) unfolding slot_name_take by (metis subsetD)
  ultimately show ?thesis using es(1) unfolding d(1) by auto
qed

lemma free_slot_None: "free_slot sec = None \<longleftrightarrow> (\<forall>off\<in>set dirent_offsets. sec ! off \<noteq> 0 \<and> sec ! off \<noteq> 0xE5)"
  by (auto simp: free_slot_def find_None_iff)

lemma walk_cluster_full:
  assumes "\<forall>lba\<in>set lbas. read_sector lba d = Some (dk_data d lba) \<and> length (dk_data d lba) = 512 \<and> free_slot (dk_data d lba) = None"
  shows "\<exists>es. walk_cluster d lbas = (es, False)
    \<and> (\<forall>e\<in>set es. \<exists>lba\<in>set lbas. \<exists>k\<in>set dirent_offsets. de_name e = slot_name (dk_data d lba) k)"
  using assms
proof (induction lbas)
  case (Cons lba lbas)
  then obtain es where es: "walk_cluster d lbas = (es, False)"
      "\<forall>e\<in>set es. \<exists>lba\<in>set lbas. \<exists>k\<in>set dirent_offsets. de_name e = slot_name (dk_data d lba) k" by auto
  have l: "read_sector lba d = Some (dk_data d lba)" "length (dk_data d lba) = 512" "free_slot (dk_data d lba) = None" using Cons.prems by simp_all
  obtain fs where fs: "walk_sector (dk_data d lba) dirent_offsets = (fs, False)"
      "\<forall>e\<in>set fs. \<exists>k\<in>set dirent_offsets. de_name e = slot_name (dk_data d lba) k"
    using walk_sector_full [OF l(2), of dirent_offsets "[]"] l(3) dirent_offsets_range by (auto simp: free_slot_None)
  have "walk_cluster d (lba # lbas) = (fs @ es, False)" using l(1) fs(1) es(1) by simp
  then show ?case using fs(2) es(2) by (intro exI [of _ "fs @ es"]) auto
qed simp

section \<open>Writing a file and finding it again\<close>

lemma cluster_lbas_vol:
  assumes "fat_geometry fs" and "is_cluster fs x"
  shows "cluster_lbas fs (of_nat x) = map (\<lambda>s. vol_lba fs (data_sector fs x s)) [0..<spc fs]"
proof -
  have "x < 2 ^ 32" using assms(2) fat_geometry_bounds(5) [OF assms(1)] by (simp add: is_cluster_def)
  then have u: "unat (of_nat x :: u32) = x" by (intro unat_of_nat_u32) simp
  show ?thesis unfolding cluster_lbas_def
    using cluster_to_lba_vol [OF assms(1), of "of_nat x"] assms(2) u by (simp add: is_cluster_def)
qed

lemma dir_lbas_mem:
  assumes "fat_geometry fs" and "\<forall>x\<in>set cs. is_cluster fs x"
  shows "lba \<in> set (dir_lbas fs cs) \<longleftrightarrow> (\<exists>x\<in>set cs. \<exists>s. s < spc fs \<and> lba = vol_lba fs (data_sector fs x s))"
proof -
  have "lba \<in> set (cluster_lbas fs (of_nat x)) \<longleftrightarrow> (\<exists>s. s < spc fs \<and> lba = vol_lba fs (data_sector fs x s))" if "x \<in> set cs" for x
    using cluster_lbas_vol [OF assms(1), of x] assms(2) that by (auto simp: image_iff)
  then show ?thesis by (simp add: dir_lbas_def cong: bex_cong)
qed

lemma dir_update_view:
  assumes "fat_healthy fs d" and "\<forall>x\<in>set cs. is_cluster fs x" and "lba \<in> set (dir_lbas fs cs)" and "length buf = 512"
  shows "fat_healthy fs (d\<lparr>dk_data := (dk_data d)(lba := buf)\<rparr>)" and "same_fat fs d (d\<lparr>dk_data := (dk_data d)(lba := buf)\<rparr>)"
    and "is_cluster fs m \<Longrightarrow> m \<notin> set cs \<Longrightarrow> cluster_data fs (d\<lparr>dk_data := (dk_data d)(lba := buf)\<rparr>) m = cluster_data fs d m"
    and "write_sector lba buf d = (True, d\<lparr>dk_data := (dk_data d)(lba := buf)\<rparr>)"
    and "read_sector lba d = Some (dk_data d lba)"
proof -
  note g = fat_healthyD(1) [OF assms(1)]
  obtain x s where x: "x \<in> set cs" "s < spc fs" "lba = vol_lba fs (data_sector fs x s)" using assms(3) dir_lbas_mem [OF g assms(2)] by blast
  then have xc: "2 \<le> x" "x < fat_clusters fs" using assms(2) by (auto simp: is_cluster_def)
  note k = data_sector_less [OF xc x(2)]
  have inj: "vol_lba fs j = lba \<longleftrightarrow> j = data_sector fs x s" if "j < vol_sectors fs" for j
    unfolding x(3) using vol_lba_inj that k(1) fat_geometry_bounds(2) [OF g] by (meson less_trans)
  show "fat_healthy fs (d\<lparr>dk_data := (dk_data d)(lba := buf)\<rparr>)" by (rule fat_healthy_update [OF assms(1,4)])
  show "same_fat fs d (d\<lparr>dk_data := (dk_data d)(lba := buf)\<rparr>)"
    using inj k(2) by (auto simp: same_fat_def vol_sectors_def)
  show "cluster_data fs (d\<lparr>dk_data := (dk_data d)(lba := buf)\<rparr>) m = cluster_data fs d m" if m: "is_cluster fs m" "m \<notin> set cs"
  proof (rule cluster_data_cong)
    fix t
    assume t: "t < spc fs"
    have m2: "2 \<le> m" "m < fat_clusters fs" using m(1) by (simp_all add: is_cluster_def)
    have "data_sector fs m t \<noteq> data_sector fs x s" using data_sector_inj [OF m2(1) xc(1) t x(2)] m(2) x(1) by auto
    then show "dk_data (d\<lparr>dk_data := (dk_data d)(lba := buf)\<rparr>) (vol_lba fs (data_sector fs m t)) = dk_data d (vol_lba fs (data_sector fs m t))"
      using inj [OF data_sector_less(1) [OF m2 t]] by simp
  qed
  show "write_sector lba buf d = (True, d\<lparr>dk_data := (dk_data d)(lba := buf)\<rparr>)" "read_sector lba d = Some (dk_data d lba)"
    unfolding x(3) by (rule fat_healthyD(4) [OF assms(1) k(1)], rule fat_healthyD(3) [OF assms(1) k(1)])
qed

definition name_absent :: "fat32 \<Rightarrow> disk \<Rightarrow> nat list \<Rightarrow> u8 list \<Rightarrow> bool" where
  "name_absent fs d cs name \<longleftrightarrow>
     (\<forall>lba\<in>set (dir_lbas fs cs). \<forall>off\<in>set dirent_offsets. \<not> eq_8_3 (slot_name (dk_data d lba) off) name)"

definition dir_has_room :: "fat32 \<Rightarrow> disk \<Rightarrow> nat list \<Rightarrow> bool" where
  "dir_has_room fs d cs \<longleftrightarrow> (\<exists>lba\<in>set (dir_lbas fs cs). free_slot (dk_data d lba) \<noteq> None)"

definition short_name :: "u8 list \<Rightarrow> bool" where
  "short_name name \<longleftrightarrow> length name = 11 \<and> hd name \<noteq> 0 \<and> hd name \<noteq> 0xE5"

text \<open>The slot the entry goes to: the first free one of the directory.\<close>

lemma dir_room_slot:
  assumes "dir_has_room fs d cs"
  shows "\<exists>pre lba post off. dir_lbas fs cs = pre @ lba # post \<and> free_slot (dk_data d lba) = Some off
    \<and> (\<forall>x\<in>set pre. free_slot (dk_data d x) = None) \<and> lba \<in> set (dir_lbas fs cs) \<and> lba \<notin> set pre \<and> set pre \<subseteq> set (dir_lbas fs cs)"
proof -
  let ?P = "\<lambda>lba. free_slot (dk_data d lba) \<noteq> None"
  have "List.find ?P (dir_lbas fs cs) \<noteq> None" using assms by (auto simp: dir_has_room_def find_None_iff)
  then obtain lba where "List.find ?P (dir_lbas fs cs) = Some lba" by auto
  from find_split [OF this] obtain pre post where L: "dir_lbas fs cs = pre @ lba # post" "?P lba" "\<forall>x\<in>set pre. free_slot (dk_data d x) = None"
    by auto
  then have "lba \<in> set (dir_lbas fs cs)" "lba \<notin> set pre" "set pre \<subseteq> set (dir_lbas fs cs)" by auto
  with L show ?thesis by (intro exI [of _ pre] exI [of _ lba] exI [of _ post] exI [of _ "the (free_slot (dk_data d lba))"]) auto
qed

lemma walk_new_entry:
  assumes "\<forall>x\<in>set (pre @ [lba]). read_sector x d = Some (dk_data d x) \<and> length (dk_data d x) = 512"
    and "free_slot (dk_data d lba) = Some off" and "\<forall>x\<in>set pre. free_slot (dk_data d x) = None" and "lba \<notin> set pre"
    and "short_name name" and "attr \<noteq> 0x0F"
    and "d' = d\<lparr>dk_data := (dk_data d)(lba := new_dirent name c n attr off (dk_data d lba))\<rparr>"
  shows "\<exists>es post'. fst (walk_cluster d' (pre @ lba # post))
      = es @ \<lparr>de_name = name, de_attr = attr, de_cluster = c, de_size = n\<rparr> # post'
    \<and> (\<forall>e\<in>set es. \<exists>x\<in>set (pre @ [lba]). \<exists>k\<in>set dirent_offsets. de_name e = slot_name (dk_data d x) k)"
proof -
  let ?buf = "new_dirent name c n attr off (dk_data d lba)" and ?e = "\<lparr>de_name = name, de_attr = attr, de_cluster = c, de_size = n\<rparr>"
  have name: "length name = 11" "hd name \<noteq> 0" "hd name \<noteq> 0xE5" using assms(5) by (simp_all add: short_name_def)
  have rd: "dk_readable d x" "length (dk_data d x) = 512" if "x \<in> set (pre @ [lba])" for x
    using assms(1) that by (auto simp: read_sector_def split: if_splits)
  have "\<forall>x\<in>set pre. read_sector x d' = Some (dk_data d' x) \<and> length (dk_data d' x) = 512 \<and> free_slot (dk_data d' x) = None"
    using rd assms(3,4,7) by (auto simp: read_sector_def)
  from walk_cluster_full [OF this] obtain es where es: "walk_cluster d' pre = (es, False)"
      "\<forall>e\<in>set es. \<exists>x\<in>set pre. \<exists>k\<in>set dirent_offsets. de_name e = slot_name (dk_data d' x) k" by blast
  have same: "dk_data d' x = dk_data d x" if "x \<in> set pre" for x using that assms(4,7) by auto
  obtain e1 e2 stop where ws: "walk_sector ?buf dirent_offsets = (e1 @ ?e # e2, stop)"
      "\<forall>e\<in>set e1. \<exists>k\<in>set dirent_offsets. de_name e = slot_name (dk_data d lba) k"
    using new_slot_walk [OF rd(2) assms(2) name assms(6), of c n] by auto
  have "read_sector lba d' = Some ?buf" using rd(1) assms(7) by (simp add: read_sector_def)
  then have "fst (walk_cluster d' (lba # post)) = e1 @ ?e # (if stop then e2 else e2 @ fst (walk_cluster d' post))"
    using ws(1) by (simp split: prod.split)
  then obtain post' where "fst (walk_cluster d' (lba # post)) = e1 @ ?e # post'" by blast
  then have "fst (walk_cluster d' (pre @ lba # post)) = (es @ e1) @ ?e # post'"
    unfolding walk_cluster_past [OF es(1)] by simp
  moreover have "\<forall>e\<in>set es. \<exists>x\<in>set pre. \<exists>k\<in>set dirent_offsets. de_name e = slot_name (dk_data d x) k"
    using es(2) by (simp add: same cong: bex_cong)
  then have "\<forall>e\<in>set (es @ e1). \<exists>x\<in>set (pre @ [lba]). \<exists>k\<in>set dirent_offsets. de_name e = slot_name (dk_data d x) k"
    using ws(2) by auto
  ultimately show ?thesis by blast
qed

lemma append_dir_entry_new:
  assumes "fat_healthy fs d" and "fat_chain fs d dir cs" and "distinct cs" and "name_absent fs d cs name" and "dir_has_room fs d cs"
    and "short_name name" and "attr \<noteq> 0x0F"
  shows "\<exists>lba buf d' pre post. lba \<in> set (dir_lbas fs cs) \<and> length buf = 512 \<and> d' = d\<lparr>dk_data := (dk_data d)(lba := buf)\<rparr>
    \<and> append_dir_entry fs dir name c n attr d = Some (True, d')
    \<and> walk_dir fs d' dir = Some (pre @ \<lparr>de_name = name, de_attr = attr, de_cluster = c, de_size = n\<rparr> # post)
    \<and> (\<forall>e\<in>set pre. \<not> eq_8_3 (de_name e) name)"
proof -
  note g = fat_healthyD(1) [OF assms(1)] and cl = fat_chain_clusters [OF assms(2)] and len = fat_chain_length [OF assms(2,3)]
  let ?L = "dir_lbas fs cs" and ?e = "\<lparr>de_name = name, de_attr = attr, de_cluster = c, de_size = n\<rparr>"
  have name: "length name = 11" using assms(6) by (simp add: short_name_def)
  have rd: "read_sector lba d = Some (dk_data d lba)" "length (dk_data d lba) = 512" if "lba \<in> set ?L" for lba
    using dir_update_view(5) [OF assms(1) cl that, of "replicate 512 0"] fat_healthyD(2) [OF assms(1)] by simp_all
  have ne: "slot_name (dk_data d lba) off \<noteq> name" if "lba \<in> set ?L" "off \<in> set dirent_offsets" for lba off
    using assms(4) that eq_8_3_refl by (metis name_absent_def)
  obtain pre lba post off where L: "?L = pre @ lba # post" "free_slot (dk_data d lba) = Some off" "\<forall>x\<in>set pre. free_slot (dk_data d x) = None"
      and lba: "lba \<in> set ?L" "lba \<notin> set pre" "set pre \<subseteq> set ?L"
    using dir_room_slot [OF assms(5)] by blast
  let ?buf = "new_dirent name c n attr off (dk_data d lba)"
  let ?d = "d\<lparr>dk_data := (dk_data d)(lba := ?buf)\<rparr>"
  have buf: "length ?buf = 512"
    using patch_slot(3) [OF rd(2) [OF lba(1)] entry_bytes_length [OF name] dirent_offsets_range [OF free_slot_offset [OF L(2)]]] new_dirent_patch [OF name]
    by simp
  note v = dir_update_view [OF assms(1) cl lba(1) buf]
  have p1: "dir_pass fs (\<lambda>sec. same_name name sec dirent_offsets) put dir 0 d = Some None" for put
    using dir_pass_lbas [OF g assms(2)] len dir_cluster_none [of ?L d] rd(1) same_name_None ne by simp
  have "dir_cluster free_slot put ?L d = Some (write_sector lba (put off (dk_data d lba)) d)" for put
    unfolding L(1) by (rule dir_cluster_first) (use L(2,3) rd(1) lba in auto)
  then have p2: "dir_pass fs free_slot (new_dirent name c n attr) dir 0 d = Some (Some (True, ?d))"
    using dir_pass_lbas [OF g assms(2)] len v(4) by simp
  have app: "append_dir_entry fs dir name c n attr d = Some (True, ?d)" by (simp add: append_dir_entry_def p1 p2)
  have "\<forall>x\<in>set (pre @ [lba]). read_sector x d = Some (dk_data d x) \<and> length (dk_data d x) = 512" using rd lba by auto
  from walk_new_entry [OF this L(2,3) lba(2) assms(6,7) refl, of c n post] obtain es post' where
      w: "fst (walk_cluster ?d ?L) = es @ ?e # post'"
        "\<forall>e\<in>set es. \<exists>x\<in>set (pre @ [lba]). \<exists>k\<in>set dirent_offsets. de_name e = slot_name (dk_data d x) k"
    unfolding L(1) by blast
  have ch: "fat_chain fs ?d dir cs"
    using fat_chain_cong [OF assms(1) v(1), of cs dir] same_fat_raw [OF g v(2)] cl assms(2) by (auto simp: is_cluster_def)
  have "walk_dir fs ?d dir = Some (es @ ?e # post')"
    using walk_chain_lbas [OF g ch, of 0 "[]"] len w(1) by (simp add: walk_dir_def)
  moreover have "set (pre @ [lba]) \<subseteq> set ?L" using lba by simp
  then have "\<forall>e\<in>set es. \<not> eq_8_3 (de_name e) name" using w(2) assms(4) unfolding name_absent_def by (metis subsetD)
  ultimately show ?thesis using lba(1) buf app by blast
qed

lemma cluster_sector:
  assumes "fat_healthy fs d" and "s < spc fs"
  shows "dk_data d (vol_lba fs (data_sector fs x s)) = take 512 (drop (s * 512) (cluster_data fs d x))"
  unfolding cluster_data_def by (rule concat_block_nth [OF _ assms(2), symmetric]) (rule fat_healthyD(2) [OF assms(1)])

lemma dir_same:
  assumes "fat_healthy fs d" and "fat_healthy fs d'" and "\<forall>x\<in>set cs. is_cluster fs x \<and> cluster_data fs d' x = cluster_data fs d x"
  shows "name_absent fs d' cs name \<longleftrightarrow> name_absent fs d cs name" and "dir_has_room fs d' cs \<longleftrightarrow> dir_has_room fs d cs"
proof -
  note g = fat_healthyD(1) [OF assms(1)]
  have "dk_data d' lba = dk_data d lba" if l: "lba \<in> set (dir_lbas fs cs)" for lba
  proof -
    obtain x s where x: "x \<in> set cs" "s < spc fs" "lba = vol_lba fs (data_sector fs x s)" using dir_lbas_mem [OF g, of cs lba] assms(3) l by blast
    then show ?thesis using cluster_sector [OF assms(1) x(2), of x] cluster_sector [OF assms(2) x(2), of x] assms(3) by simp
  qed
  then show "name_absent fs d' cs name \<longleftrightarrow> name_absent fs d cs name" "dir_has_room fs d' cs \<longleftrightarrow> dir_has_room fs d cs"
    by (simp_all add: name_absent_def dir_has_room_def)
qed

lemma append_data_keeps:
  "append_data fs data w d = (ok, w', d') \<Longrightarrow> fw_dir_cluster w' = fw_dir_cluster w \<and> fw_name w' = fw_name w"
proof (induction fs data w d rule: append_data.induct)
  case (1 fs data w d)
  show ?case
  proof (cases "data = [] \<or> fw_cluster_bytes w = 0")
    case False
    obtain ok1 w1 d1 where s: "append_chunk fs (take (fw_cluster_bytes w) data) w d = (ok1, w1, d1)" by (metis prod_cases3)
    have k: "fw_dir_cluster w1 = fw_dir_cluster w \<and> fw_name w1 = fw_name w"
      using s by (auto simp: append_chunk_def split: option.splits prod.splits if_splits)
    show ?thesis
    proof (cases ok1)
      case True
      then have "append_data fs (drop (fw_cluster_bytes w) data) w1 d1 = (ok, w', d')" using 1(2) False s by (simp add: append_data.simps [of _ data])
      then show ?thesis using 1(1) [OF False s [symmetric] refl True] k by simp
    qed (use 1(2) False s k in \<open>simp add: append_data.simps [of _ data]\<close>)
  next
    case True
    then show ?thesis using 1(2) by (simp add: append_data.simps [of _ data])
  qed
qed

text \<open>Storing the contents: the part of \<open>write_file\<close> before the directory entry.\<close>

lemma fat_store:
  assumes "fat_healthy fs d" and "fat_free fs d \<noteq> {}" and "length data \<le> cluster_bytes fs * card (fat_free fs d)"
  shows "\<exists>w d' xs. writer_ok fs d d' w xs data \<and> xs \<noteq> []
    \<and> fat_write_file fs dir name data d = append_dir_entry fs dir name (fw_first w) (fw_size w) 0x20 d'"
proof -
  note g = fat_healthyD(1) [OF assms(1)]
  obtain w where w: "create_file fs dir name = Some w" "fw_dir_cluster w = dir" "fw_name w = name" using create_file_ok [OF g] by blast
  note ok = writer_ok_start [OF assms(1) w(1)]
  show ?thesis
  proof (cases "data = []")
    case True
    obtain c d' where a: "alloc_cluster fs d = (Some c, d')" "unat c \<in> fat_free fs d" "fat_healthy fs d'" "same_data fs d d'"
        "\<forall>m. m < fat_clusters fs \<longrightarrow> raw_entry fs d' m = (if m = unat c then EOC else raw_entry fs d m)"
        "fat_mirrored fs d \<longrightarrow> fat_mirrored fs d'"
      using alloc_cluster_eq [OF assms(1,2)] by blast
    have c: "is_cluster fs (unat c)" "unat c < fat_clusters fs" using fat_free_cluster [OF a(2)] by (auto simp: is_cluster_def)
    then have c0: "c \<noteq> 0" by (auto simp: is_cluster_def)
    let ?w = "w\<lparr>fw_first := c, fw_prev := c\<rparr>"
    have "writer_ok fs d d' ?w [unat c] []"
      using ok a c c0 same_data_cluster [OF a(4)] by (simp add: writer_ok_def)
    moreover have "fat_write_file fs dir name data d = append_dir_entry fs dir name (fw_first ?w) (fw_size ?w) 0x20 d'"
      using True w a(1) c0 by (simp add: fat_write_file_def writer_finish_def)
    ultimately show ?thesis using True by blast
  next
    case False
    obtain w' d' xs where s: "append_data fs data w d = (True, w', d')" "writer_ok fs d d' w' xs data"
      using append_data_ok [OF ok, of data] assms(3) by auto
    have "xs \<noteq> []" using s(2) False by (auto simp: writer_ok_def)
    moreover from this have "fw_first w' \<noteq> 0" using s(2) by (simp add: writer_ok_def)
    then have "fat_write_file fs dir name data d = append_dir_entry fs dir name (fw_first w') (fw_size w') 0x20 d'"
      using False w s(1) append_data_keeps [OF s(1)] by (simp add: fat_write_file_def writer_finish_def)
    ultimately show ?thesis using s(2) by blast
  qed
qed

text \<open>C6. On a healthy volume with room, in repair mode, writing a file under a new 8.3 name succeeds, the name is then
  found in its directory with the length of the data, and reading the file gives back exactly the data.  Every cluster
  that was in use and does not belong to the directory keeps its FAT entry and its contents, so all other files and
  directories are untouched, and copies of the FAT that agreed still agree.\<close>

theorem fat_write_roundtrip:
  assumes "fat_healthy fs d" and "fat_chain fs d dir cs" and "distinct cs" and "set cs \<inter> fat_free fs d = {}"
    and "name_absent fs d cs name" and "dir_has_room fs d cs" and "short_name name"
    and "fat_free fs d \<noteq> {}" and "length data \<le> cluster_bytes fs * card (fat_free fs d)" and "length data < 2 ^ 32"
  shows "\<exists>d' c. vfs_write_file True fs dir name data d = Some (True, d')
    \<and> find_path fs d' dir [name] = Some (Some (c, of_nat (length data)))
    \<and> read_file fs d' c (of_nat (length data)) (length data) = Some (Some data)
    \<and> (fat_mirrored fs d \<longrightarrow> fat_mirrored fs d')
    \<and> (\<forall>m. is_cluster fs m \<and> m \<notin> fat_free fs d \<and> m \<notin> set cs \<longrightarrow>
          raw_entry fs d' m = raw_entry fs d m \<and> cluster_data fs d' m = cluster_data fs d m)"
proof -
  note g = fat_healthyD(1) [OF assms(1)] and cl = fat_chain_clusters [OF assms(2)]
  obtain w d1 xs where s: "writer_ok fs d d1 w xs data" "xs \<noteq> []"
      "fat_write_file fs dir name data d = append_dir_entry fs dir name (fw_first w) (fw_size w) 0x20 d1"
    using fat_store [OF assms(1,8,9)] by blast
  from s(1,2) have ok: "fat_healthy fs d1" "fat_mirrored fs d \<longrightarrow> fat_mirrored fs d1" "distinct xs" "set xs \<subseteq> fat_free fs d"
      "\<forall>m. m < fat_clusters fs \<and> m \<notin> set xs \<longrightarrow> raw_entry fs d1 m = raw_entry fs d m"
      "\<forall>m. is_cluster fs m \<and> m \<notin> set xs \<longrightarrow> cluster_data fs d1 m = cluster_data fs d m"
      "linked (raw_entry fs d1) xs" "unat (fw_first w) = hd xs"
      "take (length data) (concat (map (cluster_data fs d1) xs)) = data" "fw_size w = of_nat (length data)"
    by (simp_all add: writer_ok_def)
  have dj: "x \<notin> set xs" if "x \<in> set cs" for x using that assms(4) ok(4) by auto
  have ch: "fat_chain fs d1 dir cs"
    using fat_chain_cong [OF assms(1) ok(1), of cs dir] ok(5) dj cl assms(2) by (auto simp: is_cluster_def)
  have "\<forall>x\<in>set cs. is_cluster fs x \<and> cluster_data fs d1 x = cluster_data fs d x" using cl ok(6) dj by blast
  note dir = dir_same [OF assms(1) ok(1) this]
  obtain lba buf d2 pre post where e: "lba \<in> set (dir_lbas fs cs)" "length buf = 512" "d2 = d1\<lparr>dk_data := (dk_data d1)(lba := buf)\<rparr>"
      "append_dir_entry fs dir name (fw_first w) (fw_size w) 0x20 d1 = Some (True, d2)"
      "walk_dir fs d2 dir = Some (pre @ \<lparr>de_name = name, de_attr = 0x20, de_cluster = fw_first w, de_size = fw_size w\<rparr> # post)"
      "\<forall>e\<in>set pre. \<not> eq_8_3 (de_name e) name"
    using append_dir_entry_new [OF ok(1) ch assms(3), of name "0x20" "fw_first w" "fw_size w"] dir assms(5-7) by auto
  note v = dir_update_view [OF ok(1) cl e(1,2), folded e(3)]
  have raw2: "raw_entry fs d2 m = raw_entry fs d1 m" if "m < fat_clusters fs" for m by (rule same_fat_raw [OF g v(2) that])
  have xc: "\<forall>x\<in>set xs. is_cluster fs x" using ok(4) fat_free_cluster by blast
  have "fat_chain fs d2 (fw_first w) xs"
    by (rule linked_chain [OF v(1) xc _ s(2) ok(8)]) (use linked_cong [of xs "raw_entry fs d2"] raw2 xc ok(7) in \<open>auto simp: is_cluster_def\<close>)
  moreover have "map (cluster_data fs d2) xs = map (cluster_data fs d1) xs" using v(3) xc dj by (intro map_cong) auto
  ultimately have "read_file fs d2 (fw_first w) (of_nat (length data)) (length data) = Some (Some data)"
    using chain_read [OF v(1) _ ok(3) _ assms(10)] ok(9) by metis
  moreover have "vfs_write_file True fs dir name data d = Some (True, d2)"
    using s(3) e(4) by (simp add: vfs_write_file_def repair_guard_def)
  moreover have "find_path fs d2 dir [name] = Some (Some (fw_first w, of_nat (length data)))"
  proof -
    have "List.find (\<lambda>e. eq_8_3 (de_name e) name \<and> \<not> is_dir e) pre = None" using e(6) by (auto simp: find_None_iff)
    from find_past [OF this] show ?thesis using e(5) ok(10) by (simp add: is_dir_def ATTR_DIR_def)
  qed
  moreover have "fat_mirrored fs d \<longrightarrow> fat_mirrored fs d2" using ok(2) same_fat_mirrored [OF g v(2)] by blast
  moreover have "raw_entry fs d2 m = raw_entry fs d m \<and> cluster_data fs d2 m = cluster_data fs d m"
    if "is_cluster fs m" "m \<notin> fat_free fs d" "m \<notin> set cs" for m
    using that raw2 v(3) ok(4-6) by (auto simp: is_cluster_def)
  ultimately show ?thesis by blast
qed

text \<open>A volume of one FAT sector whose root directory, cluster 2, is empty.\<close>

definition demo_fat :: fat32 where
  "demo_fat = \<lparr>sectors_per_cluster = 1, sectors_per_fat = 1, num_fats = 1, root_cluster = 2, fat_lba = 32, data_lba = 33\<rparr>"

definition demo_disk :: disk where
  "demo_disk =
     \<lparr>dk_data = (\<lambda>lba. if lba = 32 then replicate 8 0xFF @ to_le32 EOC @ replicate 500 0 else replicate 512 0),
      dk_readable = (\<lambda>_. True), dk_writable = (\<lambda>_. True)\<rparr>"

lemma demo_geometry: "fat_geometry demo_fat" "spc demo_fat = 1" "cluster_bytes demo_fat = 512" "fat_clusters demo_fat = 128"
  by (simp_all add: fat_geometry_def demo_fat_def fat_clusters_def fat_sectors_def vol_lba_def cluster_bytes_def EOC_MIN_def)

lemma demo_healthy: "fat_healthy demo_fat demo_disk"
  using demo_geometry(1) by (simp add: fat_healthy_def demo_disk_def to_le32_def)

lemma demo_entries: "raw_entry demo_fat demo_disk 2 = EOC" "raw_entry demo_fat demo_disk 3 = 0"
  by (simp_all add: raw_entry_def vol_lba_def demo_fat_def demo_disk_def sector_entry_def to_le32_def nth_append le32_def EOC_def)

lemma demo_lbas: "dir_lbas demo_fat [2] = [33]"
  by (simp add: dir_lbas_def cluster_lbas_def cluster_to_lba_def demo_fat_def)

theorem fat_write_roundtrip_witness:
  "\<exists>d' c. vfs_write_file True demo_fat 2 (replicate 11 65) [1, 2, 3] demo_disk = Some (True, d')
    \<and> find_path demo_fat d' 2 [replicate 11 65] = Some (Some (c, 3))
    \<and> read_file demo_fat d' c 3 3 = Some (Some [1, 2, 3])"
proof -
  have c2: "is_cluster demo_fat 2" and c3: "3 \<in> fat_free demo_fat demo_disk"
    using demo_geometry(4) demo_entries(2) by (simp_all add: is_cluster_def fat_free_def)
  have ch: "fat_chain demo_fat demo_disk 2 [2]"
    by (rule linked_chain [OF demo_healthy]) (use c2 demo_entries(1) in simp_all)
  have dj: "set [2] \<inter> fat_free demo_fat demo_disk = {}" "distinct [2 :: nat]"
    using demo_entries(1) by (simp_all add: fat_free_def EOC_def)
  have "slot_name (replicate 512 0) off = replicate 11 0" if "off \<in> set dirent_offsets" for off
    using dirent_offsets_range [OF that] by (simp add: slot_name_def)
  moreover have "\<not> eq_8_3 (replicate 11 0) (replicate 11 65)" by (simp add: eq_8_3_def eq_ignore_case_def ascii_upper_def list_all_iff)
  ultimately have na: "name_absent demo_fat demo_disk [2] (replicate 11 65)" by (simp add: name_absent_def demo_lbas demo_disk_def)
  have room: "dir_has_room demo_fat demo_disk [2]"
    by (auto simp: dir_has_room_def demo_lbas demo_disk_def free_slot_None dirent_offsets_def intro: exI [of _ 0])
  have sn: "short_name (replicate 11 65)" by (simp add: short_name_def)
  have ne: "fat_free demo_fat demo_disk \<noteq> {}" using c3 by auto
  have L: "length [1, 2, 3 :: u8] = 3" by simp
  have "1 \<le> card (fat_free demo_fat demo_disk)" using ne fat_free_finite by (metis One_nat_def Suc_leI card_gt_0_iff)
  then have b: "length [1, 2, 3 :: u8] \<le> cluster_bytes demo_fat * card (fat_free demo_fat demo_disk)" "length [1, 2, 3 :: u8] < 2 ^ 32"
    unfolding L demo_geometry(3) by simp_all
  from fat_write_roundtrip [OF demo_healthy ch dj(2,1) na room sn ne b] show ?thesis
    unfolding L of_nat_numeral by blast
qed

end
