(* ===== verification/Page_Table.thy ===== *)
theory Page_Table
  imports User_Vm "HOL-Library.Sublist"
begin

unbundle bit_operations_syntax

text \<open>
  The page tables of user tasks on x86-64 (\<^verbatim>\<open>src/kernel/src/arch/x86_64/user.rs\<close>, with the glue of
  \<^verbatim>\<open>src/kernel/src/task/mod.rs\<close>): four levels of tables in physical memory, built from frames of the allocator.
  The operations read and write 64-bit entries in a byte memory. The invariant \<open>pt_inv\<close> says that the
  user half is a tree of distinct held frames; over it every operation acts on one page of the map
  from user addresses to frames and flags, and leaves other frames in use alone.
\<close>

named_theorems pt_defs

section \<open>The page tables of a user task\<close>

definition P_PRESENT :: u64 where [pt_defs]: "P_PRESENT = 1"
definition P_WRITABLE :: u64 where [pt_defs]: "P_WRITABLE = 2"
definition P_USER :: u64 where [pt_defs]: "P_USER = 4"
definition P_HUGE :: u64 where [pt_defs]: "P_HUGE = 0x80"
definition P_NX :: u64 where [pt_defs]: "P_NX = push_bit 63 1"
definition ADDR_MASK :: u64 where "ADDR_MASK = 0x000FFFFFFFFFF000"

text \<open>Physical memory is a byte function, as the \<^verbatim>\<open>PHYS_OFFSET\<close> window shows it to the kernel; pointers
  into tables are physical addresses. \<open>ps_kernel\<close> is \<^verbatim>\<open>KERNEL_PML4\<close>.\<close>

record pstate =
  ps_frames :: frame_state
  ps_mem :: umem
  ps_kernel :: u64

definition load64 :: "u64 \<Rightarrow> umem \<Rightarrow> u64" where
  "load64 a m = le64 (map (\<lambda>k. m (a + of_nat k)) [0..<8])"

definition store64 :: "u64 \<Rightarrow> u64 \<Rightarrow> umem \<Rightarrow> umem" where
  "store64 a v m = write_bytes a (to_le64 v) m"

definition zero_page :: "u64 \<Rightarrow> umem \<Rightarrow> umem" where
  "zero_page f m = write_bytes f (replicate 4096 0) m"

definition entry_ptr :: "u64 \<Rightarrow> nat \<Rightarrow> u64" where
  "entry_ptr t i = t + 8 * of_nat i"

definition table_index :: "nat \<Rightarrow> u64 \<Rightarrow> nat" where
  "table_index sh va = unat (drop_bit sh va AND 0x1FF)"

text \<open>\<open>None\<close> is the panic of an \<open>expect\<close>: no frame for a table.\<close>

definition new_user_pml4 :: "pstate \<Rightarrow> (u64 \<times> pstate) option" where
  "new_user_pml4 s =
     (case frame_alloc (ps_frames s) of
        (None, _) \<Rightarrow> None
      | (Some p, fs) \<Rightarrow>
          (let m = fold (\<lambda>i m. store64 (entry_ptr p i) 0 m) [0..<512] (ps_mem s);
               m' = store64 (entry_ptr p 256) (load64 (entry_ptr (ps_kernel s) 256) m) m in
           Some (p, s\<lparr>ps_frames := fs, ps_mem := m'\<rparr>)))"

definition next_level :: "u64 \<Rightarrow> pstate \<Rightarrow> (u64 \<times> pstate) option" where
  "next_level e s =
     (if load64 e (ps_mem s) AND P_PRESENT = 0 then
        (case frame_alloc (ps_frames s) of
           (None, _) \<Rightarrow> None
         | (Some f, fs) \<Rightarrow>
             (let m = store64 e (f OR P_PRESENT OR P_WRITABLE OR P_USER) (zero_page f (ps_mem s)) in
              Some (load64 e m AND ADDR_MASK, s\<lparr>ps_frames := fs, ps_mem := m\<rparr>)))
      else Some (load64 e (ps_mem s) AND ADDR_MASK, s))"

definition map_page :: "u64 \<Rightarrow> u64 \<Rightarrow> u64 \<Rightarrow> u64 \<Rightarrow> pstate \<Rightarrow> pstate option" where
  "map_page cr3 va phys flags s =
     Option.bind (next_level (entry_ptr cr3 (table_index 39 va)) s) (\<lambda>(pdpt, s).
     Option.bind (next_level (entry_ptr pdpt (table_index 30 va)) s) (\<lambda>(pd, s).
     Option.bind (next_level (entry_ptr pd (table_index 21 va)) s) (\<lambda>(pt, s).
     Some (s\<lparr>ps_mem := store64 (entry_ptr pt (table_index 12 va)) (phys OR flags) (ps_mem s)\<rparr>))))"

text \<open>The entry of a 4K user address, by its physical address.\<close>

definition leaf :: "u64 \<Rightarrow> u64 \<Rightarrow> umem \<Rightarrow> u64 option" where
  "leaf cr3 va m =
     (let e4 = load64 (entry_ptr cr3 (table_index 39 va)) m in
      if e4 AND P_PRESENT = 0 then None
      else let e3 = load64 (entry_ptr (e4 AND ADDR_MASK) (table_index 30 va)) m in
      if e3 AND P_PRESENT = 0 \<or> e3 AND P_HUGE \<noteq> 0 then None
      else let e2 = load64 (entry_ptr (e3 AND ADDR_MASK) (table_index 21 va)) m in
      if e2 AND P_PRESENT = 0 \<or> e2 AND P_HUGE \<noteq> 0 then None
      else let pte = entry_ptr (e2 AND ADDR_MASK) (table_index 12 va) in
      if load64 pte m AND P_PRESENT = 0 then None else Some pte)"

definition unmap_page :: "u64 \<Rightarrow> u64 \<Rightarrow> pstate \<Rightarrow> pstate" where
  "unmap_page cr3 va s =
     (case leaf cr3 va (ps_mem s) of
        None \<Rightarrow> s
      | Some pte \<Rightarrow>
          s\<lparr>ps_frames := frame_free (load64 pte (ps_mem s) AND ADDR_MASK) (ps_frames s),
            ps_mem := store64 pte 0 (ps_mem s)\<rparr>)"

definition prot_flags :: "prot \<Rightarrow> u64" where
  "prot_flags pr =
     P_PRESENT OR P_USER OR (if prot_write pr then P_WRITABLE else 0) OR (if prot_exec pr then 0 else P_NX)"

definition protect_page :: "u64 \<Rightarrow> u64 \<Rightarrow> prot \<Rightarrow> pstate \<Rightarrow> pstate" where
  "protect_page cr3 va pr s =
     (case leaf cr3 va (ps_mem s) of
        None \<Rightarrow> s
      | Some pte \<Rightarrow> s\<lparr>ps_mem := store64 pte ((load64 pte (ps_mem s) AND ADDR_MASK) OR prot_flags pr) (ps_mem s)\<rparr>)"

definition arch_user_map :: "u64 \<Rightarrow> u64 \<Rightarrow> u64 \<Rightarrow> prot \<Rightarrow> pstate \<Rightarrow> pstate option" where
  "arch_user_map root va pa pr s = map_page root va pa (prot_flags pr) s"

text \<open>The loops of the tear-down. They read the tables and give frames back; memory is not written.\<close>

definition free_pt :: "umem \<Rightarrow> u64 \<Rightarrow> frame_state \<Rightarrow> frame_state" where
  "free_pt m pt =
     fold (\<lambda>i fs. let e1 = load64 (entry_ptr pt i) m in
              if e1 AND P_PRESENT \<noteq> 0 then frame_free (e1 AND ADDR_MASK) fs else fs) [0..<512]"

definition free_pd :: "umem \<Rightarrow> u64 \<Rightarrow> frame_state \<Rightarrow> frame_state" where
  "free_pd m pd =
     fold (\<lambda>i fs. let e2 = load64 (entry_ptr pd i) m in
              if e2 AND P_PRESENT = 0 \<or> e2 AND P_HUGE \<noteq> 0 then fs
              else frame_free (e2 AND ADDR_MASK) (free_pt m (e2 AND ADDR_MASK) fs)) [0..<512]"

definition free_pdpt :: "umem \<Rightarrow> u64 \<Rightarrow> frame_state \<Rightarrow> frame_state" where
  "free_pdpt m pdpt =
     fold (\<lambda>i fs. let e3 = load64 (entry_ptr pdpt i) m in
              if e3 AND P_PRESENT = 0 \<or> e3 AND P_HUGE \<noteq> 0 then fs
              else frame_free (e3 AND ADDR_MASK) (free_pd m (e3 AND ADDR_MASK) fs)) [0..<512]"

definition free_user_pml4 :: "u64 \<Rightarrow> pstate \<Rightarrow> pstate" where
  "free_user_pml4 cr3 s =
     (let m = ps_mem s in
      s\<lparr>ps_frames := frame_free cr3
          (fold (\<lambda>i fs. let e4 = load64 (entry_ptr cr3 i) m in
              if e4 AND P_PRESENT = 0 then fs
              else frame_free (e4 AND ADDR_MASK) (free_pdpt m (e4 AND ADDR_MASK) fs)) [0..<256]
            (ps_frames s))\<rparr>)"

text \<open>A copying loop over the entries of a table: \<open>None\<close> is a panic, \<open>False\<close> an early return with \<open>None\<close>.\<close>

fun each_entry :: "(nat \<Rightarrow> pstate \<Rightarrow> (bool \<times> pstate) option) \<Rightarrow> nat list \<Rightarrow> pstate \<Rightarrow> (bool \<times> pstate) option" where
  "each_entry f [] s = Some (True, s)"
| "each_entry f (i # is) s =
     Option.bind (f i s) (\<lambda>(ok, s'). if ok then each_entry f is s' else Some (False, s'))"

definition clone_pte :: "u64 \<Rightarrow> u64 \<Rightarrow> nat \<Rightarrow> pstate \<Rightarrow> (bool \<times> pstate) option" where
  "clone_pte spt dpt i s =
     (let spte = load64 (entry_ptr spt i) (ps_mem s) in
      if spte AND P_PRESENT = 0 then Some (True, s)
      else case frame_alloc (ps_frames s) of
        (None, fs) \<Rightarrow> Some (False, s\<lparr>ps_frames := fs\<rparr>)
      | (Some f, fs) \<Rightarrow>
          (let src = spte AND ADDR_MASK;
               m = write_bytes f (map (\<lambda>k. ps_mem s (src + of_nat k)) [0..<4096]) (ps_mem s) in
           Some (True, s\<lparr>ps_frames := fs,
             ps_mem := store64 (entry_ptr dpt i) ((spte AND NOT ADDR_MASK) OR f) m\<rparr>)))"

definition clone_pde :: "u64 \<Rightarrow> u64 \<Rightarrow> nat \<Rightarrow> pstate \<Rightarrow> (bool \<times> pstate) option" where
  "clone_pde spd dpd i s =
     (let se2 = load64 (entry_ptr spd i) (ps_mem s) in
      if se2 AND P_PRESENT = 0 \<or> se2 AND P_HUGE \<noteq> 0 then Some (True, s)
      else Option.bind (next_level (entry_ptr dpd i) s) (\<lambda>(dpt, s).
             each_entry (clone_pte (se2 AND ADDR_MASK) dpt) [0..<512] s))"

definition clone_pdpte :: "u64 \<Rightarrow> u64 \<Rightarrow> nat \<Rightarrow> pstate \<Rightarrow> (bool \<times> pstate) option" where
  "clone_pdpte spdpt dpdpt i s =
     (let se3 = load64 (entry_ptr spdpt i) (ps_mem s) in
      if se3 AND P_PRESENT = 0 \<or> se3 AND P_HUGE \<noteq> 0 then Some (True, s)
      else Option.bind (next_level (entry_ptr dpdpt i) s) (\<lambda>(dpd, s).
             each_entry (clone_pde (se3 AND ADDR_MASK) dpd) [0..<512] s))"

definition clone_pml4e :: "u64 \<Rightarrow> u64 \<Rightarrow> nat \<Rightarrow> pstate \<Rightarrow> (bool \<times> pstate) option" where
  "clone_pml4e src dst i s =
     (if load64 (entry_ptr src i) (ps_mem s) AND P_PRESENT = 0 then Some (True, s)
      else Option.bind (next_level (entry_ptr dst i) s) (\<lambda>(dpdpt, s).
             each_entry (clone_pdpte (load64 (entry_ptr src i) (ps_mem s) AND ADDR_MASK) dpdpt) [0..<512] s))"

definition clone_user_pml4 :: "u64 \<Rightarrow> pstate \<Rightarrow> (u64 option \<times> pstate) option" where
  "clone_user_pml4 src s =
     Option.bind (new_user_pml4 s) (\<lambda>(dst, s).
     Option.bind (each_entry (clone_pml4e src dst) [0..<256] s) (\<lambda>(ok, s).
     Some (if ok then Some dst else None, s)))"
subsection \<open>Words in physical memory\<close>

lemma load64_cong: "(\<And>k. k < 8 \<Longrightarrow> m (a + of_nat k) = m' (a + of_nat k)) \<Longrightarrow> load64 a m = load64 a m'"
  unfolding load64_def by (rule arg_cong [of _ _ le64]) simp

lemma load_store_same [simp]: "load64 a (store64 a v m) = v"
proof -
  have "map (\<lambda>k. store64 a v m (a + of_nat k)) [0..<8] = to_le64 v"
    by (rule nth_equalityI) (simp_all add: store64_def write_bytes_at)
  then show ?thesis by (simp add: load64_def)
qed

text \<open>Frames and the addresses inside them.\<close>

definition is_frame :: "u64 \<Rightarrow> bool" where
  "is_frame t \<longleftrightarrow> page_aligned t \<and> unat t < 2 ^ 52"

lemma is_frame_offset:
  assumes "is_frame t" "j < 4096"
  shows "unat (t + of_nat j) = unat t + j" and "page_down (t + of_nat j) = t"
proof -
  show u: "unat (t + of_nat j) = unat t + j"
    using assms by (simp add: is_frame_def unat_word_ariths unat_of_nat)
  have "(unat t + j) mod 4096 = j" using assms by (auto simp: is_frame_def page_aligned_dvd)
  then show "page_down (t + of_nat j) = t" using u assms(2) by (simp add: word_unat_eq_iff unat_page_down)
qed

lemma frame_bytes_outside:
  assumes "is_frame f" "k + length bs \<le> 4096" "page_down a \<noteq> f"
  shows "write_bytes (f + of_nat k) bs m a = m a"
proof (rule write_bytes_outside)
  fix i assume "i < length bs"
  then have "page_down (f + of_nat (k + i)) = f" using assms by (intro is_frame_offset) auto
  then show "f + of_nat k + of_nat i \<noteq> a" using assms(3) by (auto simp: add.assoc)
qed

lemma entry_byte: "entry_ptr t i + of_nat k = t + of_nat (8 * i + k)"
  by (simp add: entry_ptr_def algebra_simps)

lemma entry_ptr_0: "entry_ptr t i = t + of_nat (8 * i)"
  using entry_byte [of t i 0] by simp

lemma store_outside:
  assumes "is_frame t" "i < 512" "page_down a \<noteq> t"
  shows "store64 (entry_ptr t i) v m a = m a"
  using frame_bytes_outside [of t "8 * i" "to_le64 v"] assms by (simp add: store64_def entry_ptr_0)

lemma zero_outside: "is_frame f \<Longrightarrow> page_down a \<noteq> f \<Longrightarrow> zero_page f m a = m a"
  using frame_bytes_outside [of f 0 "replicate 4096 0"] by (simp add: zero_page_def)

lemma zero_inside: "j < 4096 \<Longrightarrow> zero_page f m (f + of_nat j) = 0"
  by (simp add: zero_page_def write_bytes_at)

text \<open>Tables as arrays of 512 entries.\<close>

definition entry :: "umem \<Rightarrow> u64 \<Rightarrow> nat \<Rightarrow> u64" where
  "entry m t i = load64 (entry_ptr t i) m"

lemma entry_cong:
  assumes "\<And>j. j < 4096 \<Longrightarrow> m (t + of_nat j) = m' (t + of_nat j)" "i < 512"
  shows "entry m t i = entry m' t i"
  unfolding entry_def
proof (rule load64_cong)
  fix k :: nat assume "k < 8"
  then have "8 * i + k < 4096" using assms(2) by simp
  then show "m (entry_ptr t i + of_nat k) = m' (entry_ptr t i + of_nat k)" unfolding entry_byte by (rule assms(1))
qed

lemma entry_cong_page:
  assumes "is_frame t" "i < 512" "\<And>a. page_down a = t \<Longrightarrow> m a = m' a"
  shows "entry m t i = entry m' t i"
  using assms by (intro entry_cong) (simp_all add: is_frame_offset)

lemma entry_store:
  assumes "is_frame t" "is_frame t'" "i < 512" "j < 512"
  shows "entry (store64 (entry_ptr t i) v m) t' j = (if t' = t \<and> j = i then v else entry m t' j)"
proof (cases "t' = t")
  case False
  then show ?thesis using assms by (auto intro!: entry_cong_page store_outside)
next
  case True
  show ?thesis
  proof (cases "j = i")
    case False
    have "store64 (entry_ptr t i) v m (entry_ptr t j + of_nat k) = m (entry_ptr t j + of_nat k)" if "k < 8" for k
      unfolding store64_def
    proof (rule write_bytes_outside)
      fix l assume "l < length (to_le64 v)"
      then have "unat (t + of_nat (8 * i + l)) \<noteq> unat (t + of_nat (8 * j + k))"
        using assms that False by (subst (1 2) is_frame_offset) auto
      then show "entry_ptr t i + of_nat l \<noteq> entry_ptr t j + of_nat k" unfolding entry_byte by metis
    qed
    then show ?thesis using True False unfolding entry_def by (auto intro: load64_cong)
  qed (simp add: True entry_def)
qed

lemma entry_zero:
  assumes "is_frame f" "is_frame t" "j < 512"
  shows "entry (zero_page f m) t j = (if t = f then 0 else entry m t j)"
proof (cases "t = f")
  case True
  have "zero_page f m (entry_ptr f j + of_nat k) = 0" if "k < 8" for k
    unfolding entry_byte using that assms(3) by (intro zero_inside) simp
  then have "map (\<lambda>k. zero_page f m (entry_ptr f j + of_nat k)) [0..<8] = to_le64 0"
    by (intro nth_equalityI) (simp_all add: to_le64_def)
  then show ?thesis using True by (simp add: entry_def load64_def)
qed (use assms in \<open>auto intro!: entry_cong_page zero_outside\<close>)

subsection \<open>Entries\<close>

lemma ADDR_MASK_bits: "bit ADDR_MASK n \<longleftrightarrow> 12 \<le> n \<and> n < 52"
proof -
  have m: "ADDR_MASK = push_bit 12 (mask 40)" by (simp add: ADDR_MASK_def mask_eq_exp_minus_1)
  show ?thesis unfolding m by (auto simp: bit_simps)
qed

lemma is_frame_bits:
  assumes "is_frame t" "bit t n"
  shows "12 \<le> n \<and> n < 52"
proof -
  have n: "bit (unat t) n" using assms(2) by (simp add: bit_unsigned_iff)
  have lo: "take_bit 12 (unat t) = 0" using assms(1) by (simp add: is_frame_def page_aligned_def take_bit_eq_mod)
  have hi: "take_bit 52 (unat t) = unat t" using assms(1) by (simp add: is_frame_def take_bit_nat_eq_self)
  show ?thesis
    using n arg_cong [OF lo, of "\<lambda>x. bit x n"] arg_cong [OF hi, of "\<lambda>x. bit x n"] by (simp add: bit_take_bit_iff)
qed

definition is_flags :: "u64 \<Rightarrow> bool" where
  "is_flags fl \<longleftrightarrow> fl AND ADDR_MASK = 0"

lemma entry_parts:
  assumes "is_frame f" "is_flags fl"
  shows "(f OR fl) AND ADDR_MASK = f" and "(f OR fl) AND NOT ADDR_MASK = fl"
proof -
  have fl: "\<not> bit fl n" if "12 \<le> n" "n < 52" for n
    using arg_cong [OF assms(2) [unfolded is_flags_def], of "\<lambda>x. bit x n"] that by (simp add: bit_and_iff ADDR_MASK_bits)
  show "(f OR fl) AND ADDR_MASK = f"
    by (rule bit_word_eqI) (use fl is_frame_bits [OF assms(1)] in \<open>auto simp: bit_simps ADDR_MASK_bits\<close>)
  show "(f OR fl) AND NOT ADDR_MASK = fl"
    by (rule bit_word_eqI) (use fl is_frame_bits [OF assms(1)] in \<open>auto simp: bit_simps ADDR_MASK_bits\<close>)
qed

lemma is_frame_masked: "is_frame f \<Longrightarrow> f AND ADDR_MASK = f"
  using entry_parts(1) [of f 0] by (simp add: is_flags_def)

lemma held_frame:
  assumes "frame_inv fs" "t \<in> frame_held fs"
  shows "is_frame t"
proof -
  obtain i where i: "i \<in> owned_set fs" "t = addr_of i" using assms(2) by (auto simp: frame_held_def)
  then have "i < 1048576" using owned_set_bound [OF assms(1)] by (simp add: BITMAP_BYTES_def)
  then have "unat t = i * 4096" using i(2) by (simp add: unat_word_ariths unat_of_nat FRAME_SIZE_def)
  with \<open>i < 1048576\<close> show ?thesis by (simp add: is_frame_def page_aligned_def)
qed
subsection \<open>The tree of an address space\<close>

text \<open>Following entries from a table: the table or page frame at the end of a path of indices.\<close>

fun walk :: "umem \<Rightarrow> u64 \<Rightarrow> nat list \<Rightarrow> u64 option" where
  "walk m t [] = Some t"
| "walk m t (i # p) =
     (if entry m t i AND P_PRESENT = 0 then None else walk m (entry m t i AND ADDR_MASK) p)"

definition user_path :: "nat list \<Rightarrow> bool" where
  "user_path p \<longleftrightarrow> length p \<le> 4 \<and> (\<forall>i\<in>set p. i < 512) \<and> (p \<noteq> [] \<longrightarrow> hd p < 256)"

text \<open>A well-formed user half: every frame of the tree is one of \<open>H\<close>, no frame is met on two paths, and the
  entries above the leaves carry \<open>P | W | U\<close> and nothing else.\<close>

definition pt_wf :: "umem \<Rightarrow> u64 \<Rightarrow> u64 set \<Rightarrow> bool" where
  "pt_wf m root H \<longleftrightarrow>
     (\<forall>p t. user_path p \<and> walk m root p = Some t \<longrightarrow> t \<in> H)
   \<and> (\<forall>p q t. user_path p \<and> user_path q \<and> walk m root p = Some t \<and> walk m root q = Some t \<longrightarrow> p = q)
   \<and> (\<forall>p i t. user_path (p @ [i]) \<and> length p < 3 \<and> walk m root p = Some t \<and> entry m t i AND P_PRESENT \<noteq> 0
        \<longrightarrow> entry m t i = (entry m t i AND ADDR_MASK) OR 7)"

definition pt_inv :: "u64 \<Rightarrow> pstate \<Rightarrow> bool" where
  "pt_inv root s \<longleftrightarrow> frame_inv (ps_frames s) \<and> pt_wf (ps_mem s) root (frame_held (ps_frames s))"

definition pt_tables :: "u64 \<Rightarrow> umem \<Rightarrow> u64 set" where
  "pt_tables root m = {t. \<exists>p. user_path p \<and> length p \<le> 3 \<and> walk m root p = Some t}"

definition pt_frames :: "u64 \<Rightarrow> umem \<Rightarrow> u64 set" where
  "pt_frames root m = {t. \<exists>p. user_path p \<and> walk m root p = Some t}"

lemma pt_wfD:
  assumes "pt_wf m root H"
  shows "user_path p \<Longrightarrow> walk m root p = Some t \<Longrightarrow> t \<in> H"
    and "user_path p \<Longrightarrow> user_path q \<Longrightarrow> walk m root p = Some t \<Longrightarrow> walk m root q = Some t \<Longrightarrow> p = q"
    and "user_path (p @ [i]) \<Longrightarrow> length p < 3 \<Longrightarrow> walk m root p = Some t \<Longrightarrow> entry m t i AND P_PRESENT \<noteq> 0
      \<Longrightarrow> entry m t i = (entry m t i AND ADDR_MASK) OR 7"
  using assms unfolding pt_wf_def by blast+

lemma walk_append: "walk m t (p @ q) = Option.bind (walk m t p) (\<lambda>u. walk m u q)"
  by (induction p arbitrary: t) simp_all

lemma walk_snoc:
  "walk m t (p @ [i]) = Option.bind (walk m t p)
     (\<lambda>u. if entry m u i AND P_PRESENT = 0 then None else Some (entry m u i AND ADDR_MASK))"
  by (simp add: walk_append cong: if_cong)

lemma user_path_Nil [simp]: "user_path []"
  by (simp add: user_path_def)

lemma user_path_prefix: "user_path (p @ q) \<Longrightarrow> user_path p"
  by (auto simp: user_path_def)

lemma user_path_snocD: "user_path (p @ [i]) \<Longrightarrow> user_path p \<and> i < 512 \<and> length p \<le> 3"
  by (auto simp: user_path_def)

lemma walk_cong:
  assumes "\<And>q i t. user_path (q @ [i]) \<Longrightarrow> prefix (q @ [i]) p \<Longrightarrow> walk m root q = Some t \<Longrightarrow> entry m' t i = entry m t i"
    and "user_path p"
  shows "walk m' root p = walk m root p"
  using assms
proof (induction p rule: rev_induct)
  case (snoc i p)
  have "walk m' root p = walk m root p"
    using snoc.prems by (intro snoc.IH) (auto intro: user_path_prefix simp: prefix_def)
  moreover have "entry m' t i = entry m t i" if "walk m root p = Some t" for t
    by (rule snoc.prems(1) [OF snoc.prems(2) _ that]) simp
  ultimately show ?case by (cases "walk m root p") (simp_all add: walk_snoc)
qed simp

lemma walk_store_other:
  assumes wf: "pt_wf m root H" and H: "\<forall>t\<in>H. is_frame t"
    and q: "user_path (q @ [i])" "walk m root q = Some T"
    and p: "user_path p" "\<not> prefix (q @ [i]) p"
  shows "walk (store64 (entry_ptr T i) v m) root p = walk m root p"
proof (rule walk_cong)
  fix q' j t assume a: "user_path (q' @ [j])" "prefix (q' @ [j]) p" "walk m root q' = Some t"
  have up: "user_path q'" "user_path q" "j < 512" "i < 512" using user_path_snocD a(1) q(1) by blast+
  have "\<not> (t = T \<and> j = i)"
  proof
    assume "t = T \<and> j = i"
    then have "q' = q" using pt_wfD(2) [OF wf up(1,2)] a(3) q(2) by simp
    then show False using \<open>t = T \<and> j = i\<close> a(2) p(2) by simp
  qed
  moreover have "is_frame t" "is_frame T" using H pt_wfD(1) [OF wf] up a(3) q(2) by blast+
  ultimately show "entry (store64 (entry_ptr T i) v m) t j = entry m t j" using up by (auto simp: entry_store)
qed (rule p(1))

lemma walk_store_here:
  assumes "pt_wf m root H" and "\<forall>t\<in>H. is_frame t"
    and "user_path (q @ [i])" "walk m root q = Some T"
  shows "walk (store64 (entry_ptr T i) v m) root (q @ [i]) = (if v AND P_PRESENT = 0 then None else Some (v AND ADDR_MASK))"
proof -
  have "user_path q" "\<not> prefix (q @ [i]) q" "i < 512" using user_path_snocD [OF assms(3)] by (auto dest: prefix_length_le)
  moreover have "is_frame T" using assms(2) pt_wfD(1) [OF assms(1)] \<open>user_path q\<close> assms(4) by blast
  ultimately show ?thesis
    using walk_store_other [OF assms, of q v] assms(4) by (simp add: walk_snoc entry_store)
qed

lemma user_path_4:
  assumes "user_path (q @ [i])" "user_path p" "length q = 3" "prefix (q @ [i]) p"
  shows "p = q @ [i]"
proof -
  from assms(4) obtain r where "p = (q @ [i]) @ r" by (auto simp: prefix_def)
  with assms(2,3) show ?thesis by (simp add: user_path_def)
qed

text \<open>Writing a leaf entry.\<close>

lemma walk_leaf:
  assumes "pt_wf m root H" and "\<forall>t\<in>H. is_frame t"
    and "user_path (q @ [i])" "length q = 3" "walk m root q = Some T" and "user_path p"
  shows "walk (store64 (entry_ptr T i) v m) root p =
    (if p = q @ [i] then if v AND P_PRESENT = 0 then None else Some (v AND ADDR_MASK) else walk m root p)"
  using walk_store_here [OF assms(1,2,3,5)] walk_store_other [OF assms(1,2,3,5,6)] user_path_4 [OF assms(3,6,4)] by auto

lemma pt_wf_leaf:
  assumes wf: "pt_wf m root H" and H: "\<forall>t\<in>H. is_frame t"
    and q: "user_path (q @ [i])" "length q = 3" "walk m root q = Some T"
    and v: "v AND P_PRESENT \<noteq> 0 \<Longrightarrow> v AND ADDR_MASK \<in> H"
      "\<And>p. v AND P_PRESENT \<noteq> 0 \<Longrightarrow> user_path p \<Longrightarrow> walk m root p = Some (v AND ADDR_MASK) \<Longrightarrow> p = q @ [i]"
  shows "pt_wf (store64 (entry_ptr T i) v m) root H"
proof -
  let ?m = "store64 (entry_ptr T i) v m"
  note w = walk_leaf [OF wf H q]
  have up: "user_path q" "i < 512" using user_path_snocD [OF q(1)] by blast+
  show ?thesis unfolding pt_wf_def
  proof (intro conjI allI impI; elim conjE)
    show "t \<in> H" if "user_path p" "walk ?m root p = Some t" for p t
      using that v(1) pt_wfD(1) [OF wf that(1)] by (auto simp: w split: if_splits)
    show "p = p'" if "user_path p" "user_path p'" "walk ?m root p = Some t" "walk ?m root p' = Some t" for p p' t
      using that v(2) [of p] v(2) [of p'] pt_wfD(2) [OF wf that(1,2), of t] by (auto simp: w split: if_splits)
    show "entry ?m t j = (entry ?m t j AND ADDR_MASK) OR 7"
      if p: "user_path (p @ [j])" "length p < 3" "walk ?m root p = Some t" "entry ?m t j AND P_PRESENT \<noteq> 0" for p j t
    proof -
      have u: "user_path p" "j < 512" using user_path_snocD [OF p(1)] by blast+
      have wp: "walk m root p = Some t" using p(2,3) q(2) w [OF u(1), of v] by (auto split: if_splits)
      have "t \<noteq> T" using pt_wfD(2) [OF wf u(1) up(1) wp, of] q(2,3) p(2) by auto
      moreover have "is_frame t" "is_frame T" using H pt_wfD(1) [OF wf] u(1) up(1) wp q(3) by blast+
      ultimately have "entry ?m t j = entry m t j" using u up by (simp add: entry_store)
      with pt_wfD(3) [OF wf p(1,2) wp] p(4) show ?thesis by simp
    qed
  qed
qed
text \<open>A tree depends on the bytes of its tables only.\<close>

lemma tree_cong:
  assumes wf: "pt_wf m root H" and H: "\<forall>t\<in>H. is_frame t"
    and same: "\<And>a. page_down a \<in> pt_tables root m \<Longrightarrow> m' a = m a"
  shows "user_path p \<Longrightarrow> walk m' root p = walk m root p"
    and "pt_frames root m \<subseteq> H' \<Longrightarrow> pt_wf m' root H'"
proof -
  have e: "entry m' t i = entry m t i" if "user_path (q @ [i])" "walk m root q = Some t" for q i t
  proof -
    have q: "user_path q" "i < 512" "length q \<le> 3" using user_path_snocD [OF that(1)] by blast+
    with that(2) have "t \<in> pt_tables root m" unfolding pt_tables_def by blast
    moreover have "is_frame t" using H pt_wfD(1) [OF wf q(1) that(2)] by blast
    ultimately show ?thesis using q same by (intro entry_cong_page) auto
  qed
  show w: "walk m' root p = walk m root p" if "user_path p" for p
    using e that by (intro walk_cong) auto
  assume sub: "pt_frames root m \<subseteq> H'"
  show "pt_wf m' root H'" unfolding pt_wf_def
  proof (intro conjI allI impI; elim conjE)
    show "t \<in> H'" if "user_path p" "walk m' root p = Some t" for p t
      using that w sub unfolding pt_frames_def by auto
    show "p = q" if "user_path p" "user_path q" "walk m' root p = Some t" "walk m' root q = Some t" for p q t
      using that w pt_wfD(2) [OF wf] by simp
    show "entry m' t i = (entry m' t i AND ADDR_MASK) OR 7"
      if p: "user_path (p @ [i])" "length p < 3" "walk m' root p = Some t" "entry m' t i AND P_PRESENT \<noteq> 0" for p i t
    proof -
      have wp: "walk m root p = Some t" using w [OF user_path_prefix [OF p(1)]] p(3) by simp
      then show ?thesis using pt_wfD(3) [OF wf p(1,2) wp] p(4) by (simp add: e [OF p(1) wp])
    qed
  qed
qed

lemma pt_tables_held: "pt_wf m root H \<Longrightarrow> pt_tables root m \<subseteq> H"
  using pt_wfD(1) unfolding pt_tables_def by blast

lemma pt_frames_held: "pt_wf m root H \<Longrightarrow> pt_frames root m \<subseteq> H"
  using pt_wfD(1) unfolding pt_frames_def by blast

text \<open>Linking a fresh zeroed table.\<close>

lemma zero_fresh:
  assumes "pt_wf m root H" "\<forall>t\<in>H. is_frame t" "is_frame f" "f \<notin> H"
  shows "user_path p \<Longrightarrow> walk (zero_page f m) root p = walk m root p" and "pt_wf (zero_page f m) root H"
proof -
  have "zero_page f m a = m a" if "page_down a \<in> pt_tables root m" for a
    using that assms(3,4) pt_tables_held [OF assms(1)] by (intro zero_outside) auto
  note tree_cong [OF assms(1,2) this]
  with pt_frames_held [OF assms(1)]
  show "user_path p \<Longrightarrow> walk (zero_page f m) root p = walk m root p" and "pt_wf (zero_page f m) root H" by auto
qed

lemma link_flags: "is_frame f \<Longrightarrow> f OR P_PRESENT OR P_WRITABLE OR P_USER = f OR 7"
  by (simp add: pt_defs or.assoc)

lemma link_parts:
  assumes "is_frame f"
  shows "(f OR 7) AND ADDR_MASK = f" and "(f OR 7) AND P_PRESENT \<noteq> 0"
proof -
  show "(f OR 7) AND ADDR_MASK = f" by (rule entry_parts [OF assms]) (simp add: is_flags_def ADDR_MASK_def)
  have "bit ((f OR 7) AND P_PRESENT) 0" by (simp add: bit_simps pt_defs)
  then show "(f OR 7) AND P_PRESENT \<noteq> 0" by (metis bit_0_eq bot_apply bot_bool_def)
qed

lemma walk_link:
  assumes wf: "pt_wf m root H" and H: "\<forall>t\<in>H. is_frame t"
    and q: "user_path (q @ [i])" "walk m root q = Some T" "entry m T i AND P_PRESENT = 0"
    and f: "is_frame f" "f \<notin> H" and p: "user_path p"
  shows "walk (store64 (entry_ptr T i) (f OR 7) (zero_page f m)) root p = (if p = q @ [i] then Some f else walk m root p)"
proof -
  let ?z = "zero_page f m" and ?m = "store64 (entry_ptr T i) (f OR 7) (zero_page f m)"
  note z = zero_fresh [OF wf H f]
  have up: "user_path q" "i < 512" using user_path_snocD [OF q(1)] by blast+
  have wq: "walk ?z root q = Some T" using z(1) [OF up(1)] q(2) by simp
  have T: "is_frame T" "T \<noteq> f" using H f(2) pt_wfD(1) [OF wf up(1) q(2)] by blast+
  note here = walk_store_here [OF z(2) H q(1) wq, of "f OR 7", simplified link_parts [OF f(1)] if_False]
  show ?thesis
  proof (cases "prefix (q @ [i]) p")
    case False
    then show ?thesis using walk_store_other [OF z(2) H q(1) wq p] z(1) [OF p] by auto
  next
    case True
    then obtain r where r: "p = (q @ [i]) @ r" by (auto simp: prefix_def)
    have n: "walk m root p = None" using q(2,3) by (simp add: r walk_append)
    show ?thesis
    proof (cases r)
      case Nil
      then show ?thesis using here link_parts [OF f(1)] by (simp add: r)
    next
      case (Cons j r')
      have "j < 512" using p by (simp add: r Cons user_path_def)
      then have "entry ?m f j = 0" using T f(1) up by (simp add: entry_store entry_zero)
      then show ?thesis using n here link_parts [OF f(1)]
        by (simp add: r Cons walk_append del: walk.simps append_assoc) simp
    qed
  qed
qed

lemma pt_wf_link:
  assumes wf: "pt_wf m root H" and H: "\<forall>t\<in>H. is_frame t"
    and q: "user_path (q @ [i])" "walk m root q = Some T" "entry m T i AND P_PRESENT = 0"
    and f: "is_frame f" "f \<notin> H"
  shows "pt_wf (store64 (entry_ptr T i) (f OR 7) (zero_page f m)) root (insert f H)"
proof -
  let ?m = "store64 (entry_ptr T i) (f OR 7) (zero_page f m)"
  note w = walk_link [OF wf H q f]
  have up: "user_path q" "i < 512" using user_path_snocD [OF q(1)] by blast+
  have T: "is_frame T" "T \<noteq> f" using H f(2) pt_wfD(1) [OF wf up(1) q(2)] by blast+
  have old: "f \<noteq> t" if "user_path p" "walk m root p = Some t" for p t
    using pt_wfD(1) [OF wf that] f(2) by auto
  show ?thesis unfolding pt_wf_def
  proof (intro conjI allI impI; elim conjE)
    show "t \<in> insert f H" if "user_path p" "walk ?m root p = Some t" for p t
      using that pt_wfD(1) [OF wf that(1)] by (auto simp: w split: if_splits)
    show "p = p'" if "user_path p" "user_path p'" "walk ?m root p = Some t" "walk ?m root p' = Some t" for p p' t
      using that old [OF that(1)] old [OF that(2)] pt_wfD(2) [OF wf that(1,2), of t] by (auto simp: w split: if_splits)
    show "entry ?m t j = (entry ?m t j AND ADDR_MASK) OR 7"
      if p: "user_path (p @ [j])" "length p < 3" "walk ?m root p = Some t" "entry ?m t j AND P_PRESENT \<noteq> 0" for p j t
    proof -
      have u: "user_path p" "j < 512" using user_path_snocD [OF p(1)] by blast+
      show ?thesis
      proof (cases "p = q @ [i]")
        case True
        then have "t = f" using p(3) w [OF u(1)] by simp
        then have "entry ?m t j = 0" using T f(1) u up by (simp add: entry_store entry_zero)
        with p(4) show ?thesis by simp
      next
        case False
        then have wp: "walk m root p = Some t" using p(3) w [OF u(1)] by simp
        have t: "is_frame t" "t \<noteq> f" using H f(2) pt_wfD(1) [OF wf u(1) wp] by blast+
        then have "entry ?m t j = (if t = T \<and> j = i then f OR 7 else entry m t j)"
          using T f(1) u up by (auto simp: entry_store entry_zero)
        with p(4) pt_wfD(3) [OF wf p(1,2) wp] link_parts [OF f(1)] show ?thesis by (auto split: if_splits)
      qed
    qed
  qed
qed
subsection \<open>Leaf entries\<close>

text \<open>The present leaf entry on a path of four indices, the view of the address space the processor has.\<close>

definition pte :: "umem \<Rightarrow> u64 \<Rightarrow> nat list \<Rightarrow> u64 option" where
  "pte m root p =
     (case walk m root (butlast p) of
        None \<Rightarrow> None
      | Some t \<Rightarrow> if entry m t (last p) AND P_PRESENT = 0 then None else Some (entry m t (last p)))"

lemma pte_snoc:
  "pte m root (q @ [i]) = Option.bind (walk m root q) (\<lambda>t. if entry m t i AND P_PRESENT = 0 then None else Some (entry m t i))"
  by (auto simp: pte_def split: option.splits)

lemma path_4E:
  assumes "length p = 4" obtains q i where "p = q @ [i]" "length q = 3"
  using assms by (cases p rule: rev_cases) auto

lemma pte_walk: "length p = 4 \<Longrightarrow> walk m root p = map_option (\<lambda>e. e AND ADDR_MASK) (pte m root p)"
  by (erule path_4E) (auto simp: pte_snoc walk_snoc split: option.splits bind_splits)

lemma pte_cong:
  assumes "pt_wf m root H" "\<forall>t\<in>H. is_frame t" "\<And>a. page_down a \<in> pt_tables root m \<Longrightarrow> m' a = m a"
    and "user_path p" "length p = 4"
  shows "pte m' root p = pte m root p"
proof -
  obtain q i where p: "p = q @ [i]" "length q = 3" by (rule path_4E [OF assms(5)])
  then have q: "user_path q" "i < 512" using user_path_snocD assms(4) by blast+
  have "entry m' t i = entry m t i" if wt: "walk m root q = Some t" for t
  proof -
    have "t \<in> pt_tables root m" using wt q(1) p(2) by (auto simp: pt_tables_def intro!: exI [of _ q])
    then show ?thesis using q(2) assms(2,3) pt_wfD(1) [OF assms(1) q(1) wt] by (intro entry_cong_page) auto
  qed
  then show ?thesis using tree_cong(1) [OF assms(1-3) q(1)] by (cases "walk m root q") (simp_all add: p pte_snoc)
qed

lemma pte_leaf:
  assumes wf: "pt_wf m root H" and H: "\<forall>t\<in>H. is_frame t"
    and q: "user_path (q @ [i])" "length q = 3" "walk m root q = Some T" and p: "user_path p" "length p = 4"
  shows "pte (store64 (entry_ptr T i) v m) root p =
    (if p = q @ [i] then if v AND P_PRESENT = 0 then None else Some v else pte m root p)"
proof -
  obtain q' j where p': "p = q' @ [j]" "length q' = 3" by (rule path_4E [OF p(2)])
  then have u: "user_path q'" "j < 512" "user_path q" "i < 512" using user_path_snocD p(1) q(1) by blast+
  have w: "walk (store64 (entry_ptr T i) v m) root q' = walk m root q'"
    using walk_leaf [OF wf H q u(1)] p'(2) q(2) by auto
  have T: "is_frame T" using H pt_wfD(1) [OF wf u(3) q(3)] by blast
  show ?thesis
  proof (cases "walk m root q'")
    case None
    then show ?thesis using q(3) w by (auto simp: p' pte_snoc)
  next
    case (Some t)
    then have t: "is_frame t" "t = T \<longleftrightarrow> q' = q"
      using H pt_wfD(1) [OF wf u(1)] pt_wfD(2) [OF wf u(1,3)] q(3) by auto
    then have "entry (store64 (entry_ptr T i) v m) t j = (if p = q @ [i] then v else entry m t j)"
      using T u by (simp add: p' entry_store)
    then show ?thesis using w Some by (auto simp: p' pte_snoc)
  qed
qed

lemma pte_link:
  assumes wf: "pt_wf m root H" and H: "\<forall>t\<in>H. is_frame t"
    and q: "user_path (q @ [i])" "length q < 3" "walk m root q = Some T" "entry m T i AND P_PRESENT = 0"
    and f: "is_frame f" "f \<notin> H" and p: "user_path p" "length p = 4"
  shows "pte (store64 (entry_ptr T i) (f OR 7) (zero_page f m)) root p = pte m root p"
proof -
  obtain q' j where p': "p = q' @ [j]" "length q' = 3" by (rule path_4E [OF p(2)])
  then have u: "user_path q'" "j < 512" "user_path q" "i < 512" using user_path_snocD p(1) q(1) by blast+
  note w = walk_link [OF wf H q(1,3,4) f u(1)]
  have T: "is_frame T" "T \<noteq> f" using H f(2) pt_wfD(1) [OF wf u(3) q(3)] by blast+
  let ?m = "store64 (entry_ptr T i) (f OR 7) (zero_page f m)"
  show ?thesis
  proof (cases "q' = q @ [i]")
    case True
    have "entry ?m f j = 0" using T f(1) u by (simp add: entry_store entry_zero)
    moreover have "walk ?m root q' = Some f" using w True by simp
    moreover have "walk m root q' = None" using q(3,4) by (simp add: True walk_snoc)
    ultimately show ?thesis by (simp add: p' pte_snoc)
  next
    case False
    have "entry ?m t j = entry m t j" if wt: "walk m root q' = Some t" for t
    proof -
      have t: "is_frame t" "t \<noteq> f" using H f(2) pt_wfD(1) [OF wf u(1) wt] by blast+
      have "t \<noteq> T" using pt_wfD(2) [OF wf u(1,3) wt] q(2,3) p'(2) by auto
      with t T f(1) u show ?thesis by (simp add: entry_store entry_zero)
    qed
    then show ?thesis using w False by (cases "walk m root q'") (simp_all add: p' pte_snoc)
  qed
qed

subsection \<open>Building the path of an address\<close>

text \<open>What the operations on one address space leave alone: frames in use that are not its tables, the
  kernel half of its root, and the frames already taken.\<close>

definition pt_local :: "u64 \<Rightarrow> pstate \<Rightarrow> pstate \<Rightarrow> bool" where
  "pt_local root s s' \<longleftrightarrow>
     (\<forall>a. page_down a \<in> frame_held (ps_frames s) - pt_tables root (ps_mem s) \<longrightarrow> ps_mem s' a = ps_mem s a)
   \<and> (\<forall>i. 256 \<le> i \<and> i < 512 \<longrightarrow> entry (ps_mem s') root i = entry (ps_mem s) root i)
   \<and> frame_held (ps_frames s) \<subseteq> frame_held (ps_frames s')
   \<and> pt_tables root (ps_mem s') \<subseteq> pt_tables root (ps_mem s) \<union> (frame_held (ps_frames s') - frame_held (ps_frames s))
   \<and> ps_kernel s' = ps_kernel s"

lemma pt_local_refl [simp]: "pt_local root s s"
  by (auto simp: pt_local_def)

lemma pt_local_trans [trans]:
  assumes "pt_local root s t" "pt_local root t u" shows "pt_local root s u"
  unfolding pt_local_def
proof (intro conjI allI impI)
  fix a assume a: "page_down a \<in> frame_held (ps_frames s) - pt_tables root (ps_mem s)"
  then have "ps_mem t a = ps_mem s a" using assms(1) by (simp add: pt_local_def)
  moreover have "page_down a \<in> frame_held (ps_frames t) - pt_tables root (ps_mem t)"
    using a assms(1) unfolding pt_local_def by blast
  ultimately show "ps_mem u a = ps_mem s a" using assms(2) by (simp add: pt_local_def)
next
  fix i :: nat assume "256 \<le> i \<and> i < 512"
  then show "entry (ps_mem u) root i = entry (ps_mem s) root i" using assms by (simp add: pt_local_def)
next
  show "frame_held (ps_frames s) \<subseteq> frame_held (ps_frames u)" using assms unfolding pt_local_def by blast
  show "pt_tables root (ps_mem u) \<subseteq> pt_tables root (ps_mem s) \<union> (frame_held (ps_frames u) - frame_held (ps_frames s))"
    using assms unfolding pt_local_def by blast
  show "ps_kernel u = ps_kernel s" using assms by (simp add: pt_local_def)
qed

lemma pt_invD:
  assumes "pt_inv root s"
  shows "frame_inv (ps_frames s)" "pt_wf (ps_mem s) root (frame_held (ps_frames s))"
    "\<forall>t\<in>frame_held (ps_frames s). is_frame t" "is_frame root" "root \<in> frame_held (ps_frames s)"
proof -
  show i: "frame_inv (ps_frames s)" "pt_wf (ps_mem s) root (frame_held (ps_frames s))"
    using assms by (simp_all add: pt_inv_def)
  show h: "\<forall>t\<in>frame_held (ps_frames s). is_frame t" using held_frame [OF i(1)] by blast
  show "root \<in> frame_held (ps_frames s)" using pt_wfD(1) [OF i(2), of "[]"] by simp
  with h show "is_frame root" by blast
qed

lemma next_level_ok:
  assumes inv: "pt_inv root s" and q: "user_path (q @ [i])" "length q < 3" "walk (ps_mem s) root q = Some T"
    and nl: "next_level (entry_ptr T i) s = Some (t, s')"
  shows "pt_inv root s'" "pt_local root s s'"
    and "walk (ps_mem s') root (q @ [i]) = Some t"
    and "user_path p \<Longrightarrow> p \<noteq> q @ [i] \<Longrightarrow> walk (ps_mem s') root p = walk (ps_mem s) root p"
    and "user_path p \<Longrightarrow> length p = 4 \<Longrightarrow> pte (ps_mem s') root p = pte (ps_mem s) root p"
proof (atomize (full), goal_cases)
  case 1
  let ?m = "ps_mem s" and ?H = "frame_held (ps_frames s)"
  note I = pt_invD [OF inv]
  have up: "user_path q" "i < 512" using user_path_snocD [OF q(1)] by blast+
  show ?case
  proof (cases "entry ?m T i AND P_PRESENT = 0")
    case False
    then have "t = entry ?m T i AND ADDR_MASK" "s' = s" using nl by (auto simp: next_level_def entry_def)
    then show ?thesis using inv False q(3) by (simp add: walk_snoc)
  next
    case True
    obtain f fs where al: "frame_alloc (ps_frames s) = (Some f, fs)"
      using nl True by (cases "frame_alloc (ps_frames s)") (auto simp: next_level_def entry_def split: option.splits)
    have f: "f \<notin> ?H" "frame_held fs = insert f ?H" "frame_inv fs"
      using fa.alloc_fresh [OF I(1) al] fa.alloc_inv [OF I(1)] al by auto
    then have ff: "is_frame f" using held_frame [OF f(3)] by simp
    let ?m' = "store64 (entry_ptr T i) (f OR 7) (zero_page f ?m)"
    have s': "s' = s\<lparr>ps_frames := fs, ps_mem := ?m'\<rparr>" and t: "t = f"
      using nl True al by (auto simp: next_level_def entry_def link_flags [OF ff] link_parts [OF ff] Let_def)
    note w = walk_link [OF I(2,3) q(1,3) True ff f(1)]
    have T: "is_frame T" "T \<in> ?H" "T \<in> pt_tables root ?m"
      using I(3) pt_wfD(1) [OF I(2) up(1) q(3)] up(1) q(2,3) by (auto simp: pt_tables_def intro!: exI [of _ q])
    have out: "?m' a = ?m a" if "page_down a \<in> ?H - pt_tables root ?m" for a
      using that T f(1) up ff by (subst store_outside, simp, simp, force) (auto intro: zero_outside)
    have hi: "entry ?m' root j = entry ?m root j" if j: "256 \<le> j" "j < 512" for j
    proof -
      have "\<not> (root = T \<and> j = i)"
      proof
        assume "root = T \<and> j = i"
        then have "q = []" using pt_wfD(2) [OF I(2) up(1), of "[]"] q(3) by simp
        then show False using q(1) j \<open>root = T \<and> j = i\<close> by (simp add: user_path_def)
      qed
      moreover have "root \<noteq> f" using I(5) f(1) by blast
      ultimately show ?thesis using T(1) I(4) ff j up by (auto simp: entry_store entry_zero)
    qed
    have "pt_tables root ?m' \<subseteq> insert f (pt_tables root ?m)"
      using w unfolding pt_tables_def by (auto split: if_splits)
    then have "pt_local root s s'" using out hi f by (auto simp: pt_local_def s')
    moreover have "pt_inv root s'"
      using pt_wf_link [OF I(2,3) q(1,3) True ff f(1)] f by (simp add: pt_inv_def s')
    ultimately show ?thesis
      using w [OF q(1)] w pte_link [OF I(2,3) q True ff f(1)] t s' by auto
  qed
qed

lemma next_level_None:
  assumes "next_level e s = None" shows "fst (frame_alloc (ps_frames s)) = None"
  using assms by (auto simp: next_level_def Let_def split: if_splits option.splits prod.splits)
subsection \<open>Addresses\<close>

text \<open>The lower half of the canonical addresses, the ones the first 256 entries of a root translate.\<close>

definition user_va :: "u64 \<Rightarrow> bool" where
  "user_va va \<longleftrightarrow> unat va < 2 ^ 47"

definition va_path :: "u64 \<Rightarrow> nat list" where
  "va_path va = [table_index 39 va, table_index 30 va, table_index 21 va, table_index 12 va]"

lemma table_index_nat: "table_index sh va = unat va div 2 ^ sh mod 512"
proof -
  have "(0x1FF :: u64) = mask 9" by (simp add: mask_eq_exp_minus_1)
  then have "table_index sh va = unat (take_bit 9 (drop_bit sh va))"
    unfolding table_index_def by (simp only: take_bit_eq_mask)
  also have "\<dots> = take_bit 9 (drop_bit sh (take_bit 64 (unat va)))"
    by (simp add: unsigned_take_bit_eq unsigned_drop_bit_eq del: take_bit_eq_mod drop_bit_eq_div)
  also have "take_bit 64 (unat va) = unat va"
    using unsigned_less [of va, where 'a = nat] by (simp add: take_bit_nat_eq_self)
  finally show ?thesis by (simp add: take_bit_eq_mod drop_bit_eq_div)
qed

lemma va_path_user:
  assumes "user_va va" shows "user_path (va_path va)" "length (va_path va) = 4"
proof -
  have "unat va div 2 ^ 39 < 256" using assms by (simp add: user_va_def div_less_iff_less_mult)
  then show "user_path (va_path va)" by (simp add: user_path_def va_path_def table_index_nat)
qed (simp add: va_path_def)

lemma va_path_page:
  assumes "user_va va"
  shows "unat va div 4096 = table_index 12 va + 512 * (table_index 21 va + 512 * (table_index 30 va + 512 * table_index 39 va))"
proof -
  define n where "n = unat va div 4096"
  have "unat va div 2 ^ 21 = n div 512" "unat va div 2 ^ 30 = n div 512 div 512" "unat va div 2 ^ 39 = n div 512 div 512 div 512"
    by (simp_all add: n_def div_mult2_eq [symmetric])
  moreover have "n div 512 div 512 div 512 < 512"
    using assms by (simp add: n_def user_va_def div_mult2_eq [symmetric] div_less_iff_less_mult)
  ultimately show ?thesis by (simp add: table_index_nat n_def [symmetric])
qed

lemma va_path_eq:
  assumes "user_va a" "user_va b"
  shows "va_path a = va_path b \<longleftrightarrow> page_down a = page_down b"
proof -
  have "page_down a = page_down b \<longleftrightarrow> unat a div 4096 = unat b div 4096"
    by (simp add: word_unat_eq_iff unat_page_down minus_mod_eq_mult_div)
  moreover have "va_path a = va_path b" if "unat a div 4096 = unat b div 4096"
  proof -
    have "table_index sh a = table_index sh b" if sh: "12 \<le> sh" for sh
    proof -
      obtain k where "sh = 12 + k" using le_Suc_ex [OF sh] by blast
      then show ?thesis using \<open>unat a div 4096 = unat b div 4096\<close> by (simp add: table_index_nat power_add div_mult2_eq)
    qed
    then show ?thesis by (simp add: va_path_def)
  qed
  moreover have "va_path a = va_path b \<Longrightarrow> unat a div 4096 = unat b div 4096"
    unfolding va_path_page [OF assms(1)] va_path_page [OF assms(2)] va_path_def by simp
  ultimately show ?thesis by blast
qed

text \<open>The frame and the flags of a page.\<close>

definition page_view :: "u64 \<Rightarrow> umem \<Rightarrow> u64 \<Rightarrow> (u64 \<times> u64) option" where
  "page_view root m va = map_option (\<lambda>e. (e AND ADDR_MASK, e AND NOT ADDR_MASK)) (pte m root (va_path va))"

lemma va_path_walk:
  assumes "user_va va"
  obtains q where "va_path va = q @ [table_index 12 va]" "length q = 3"
    "user_path [table_index 39 va]" "user_path ([table_index 39 va] @ [table_index 30 va])"
    "q = [table_index 39 va, table_index 30 va] @ [table_index 21 va]" "user_path q"
  by (rule that [of "[table_index 39 va, table_index 30 va, table_index 21 va]"])
     (use va_path_user [OF assms] in \<open>auto simp: va_path_def user_path_def\<close>)

lemma entry_not_huge:
  assumes "pt_wf m root H" "user_path (p @ [i])" "length p < 3" "walk m root p = Some t" "entry m t i AND P_PRESENT \<noteq> 0"
  shows "entry m t i AND P_HUGE = 0"
proof -
  have "entry m t i AND P_HUGE = ((entry m t i AND ADDR_MASK) OR 7) AND P_HUGE" using pt_wfD(3) [OF assms] by simp
  also have "\<dots> = 0" by (simp add: ADDR_MASK_def pt_defs and.assoc bit.conj_disj_distrib2)
  finally show ?thesis .
qed

lemma leaf_pte:
  assumes wf: "pt_wf m root H" and va: "user_va va"
  shows "pte m root (va_path va) = None \<Longrightarrow> leaf root va m = None"
    and "pte m root (va_path va) = Some e \<Longrightarrow> \<exists>q t. va_path va = q @ [table_index 12 va] \<and> length q = 3 \<and> user_path q
      \<and> walk m root q = Some t \<and> leaf root va m = Some (entry_ptr t (table_index 12 va)) \<and> entry m t (table_index 12 va) = e"
proof -
  obtain q where q: "va_path va = q @ [table_index 12 va]" "length q = 3"
    "user_path [table_index 39 va]" "user_path ([table_index 39 va] @ [table_index 30 va])"
    "q = [table_index 39 va, table_index 30 va] @ [table_index 21 va]" "user_path q" by (rule va_path_walk [OF va])
  note huge = entry_not_huge [OF wf]
  define e4 where "e4 = entry m root (table_index 39 va)"
  define e3 where "e3 = entry m (e4 AND ADDR_MASK) (table_index 30 va)"
  define e2 where "e2 = entry m (e3 AND ADDR_MASK) (table_index 21 va)"
  define e1 where "e1 = entry m (e2 AND ADDR_MASK) (table_index 12 va)"
  note d = e4_def e3_def e2_def e1_def
  have h3: "e4 AND P_PRESENT \<noteq> 0 \<Longrightarrow> e3 AND P_PRESENT \<noteq> 0 \<Longrightarrow> e3 AND P_HUGE = 0"
    using huge [OF q(4)] by (simp add: d)
  have h2: "e4 AND P_PRESENT \<noteq> 0 \<Longrightarrow> e3 AND P_PRESENT \<noteq> 0 \<Longrightarrow> e2 AND P_PRESENT \<noteq> 0 \<Longrightarrow> e2 AND P_HUGE = 0"
    using huge [of "[table_index 39 va, table_index 30 va]"] q(5,6) by (simp add: d)
  have w: "walk m root q = (if e4 AND P_PRESENT = 0 \<or> e3 AND P_PRESENT = 0 \<or> e2 AND P_PRESENT = 0 then None
      else Some (e2 AND ADDR_MASK))" by (simp add: q(5) d)
  have l: "leaf root va m = (if e4 AND P_PRESENT = 0 \<or> e3 AND P_PRESENT = 0 \<or> e3 AND P_HUGE \<noteq> 0
      \<or> e2 AND P_PRESENT = 0 \<or> e2 AND P_HUGE \<noteq> 0 \<or> e1 AND P_PRESENT = 0 then None
      else Some (entry_ptr (e2 AND ADDR_MASK) (table_index 12 va)))"
    by (simp add: d leaf_def entry_def Let_def)
  have p: "pte m root (va_path va) = Option.bind (walk m root q) (\<lambda>t. if e1 AND P_PRESENT = 0 then None else Some e1)"
    by (simp add: q(1) pte_snoc w e1_def)
  show "leaf root va m = None" if "pte m root (va_path va) = None"
    using that by (auto simp: p w l split: if_splits)
  show "\<exists>q t. va_path va = q @ [table_index 12 va] \<and> length q = 3 \<and> user_path q
      \<and> walk m root q = Some t \<and> leaf root va m = Some (entry_ptr t (table_index 12 va)) \<and> entry m t (table_index 12 va) = e"
    if "pte m root (va_path va) = Some e"
  proof (intro exI conjI)
    have e: "e4 AND P_PRESENT \<noteq> 0" "e3 AND P_PRESENT \<noteq> 0" "e2 AND P_PRESENT \<noteq> 0" "e1 AND P_PRESENT \<noteq> 0" "e1 = e"
      using that unfolding p w by (auto split: if_splits)
    show "va_path va = q @ [table_index 12 va]" "length q = 3" "user_path q" by (fact q)+
    show "walk m root q = Some (e2 AND ADDR_MASK)" using e by (simp add: w)
    show "leaf root va m = Some (entry_ptr (e2 AND ADDR_MASK) (table_index 12 va))" using e h3 h2 by (simp add: l)
    show "entry m (e2 AND ADDR_MASK) (table_index 12 va) = e" using e(5) by (simp add: e1_def)
  qed
qed
lemma prot_flags_ok: "is_flags (prot_flags pr)" "prot_flags pr AND P_PRESENT \<noteq> 0"
proof -
  show "is_flags (prot_flags pr)"
    by (cases pr) (simp_all add: is_flags_def prot_flags_def ADDR_MASK_def pt_defs prot_write_def prot_exec_def)
  show "prot_flags pr AND P_PRESENT \<noteq> 0"
    by (cases pr) (simp_all add: prot_flags_def pt_defs prot_write_def prot_exec_def)
qed

subsection \<open>The operations on one page\<close>

text \<open>A step that at most adds tables: the pages of the address space and the frames outside it stay as they are.\<close>

definition pt_grow :: "u64 \<Rightarrow> pstate \<Rightarrow> pstate \<Rightarrow> bool" where
  "pt_grow root s s' \<longleftrightarrow> pt_inv root s' \<and> pt_local root s s'
   \<and> (\<forall>p. user_path p \<and> length p = 4 \<longrightarrow> pte (ps_mem s') root p = pte (ps_mem s) root p)
   \<and> (\<forall>f\<in>frame_held (ps_frames s). f \<notin> pt_frames root (ps_mem s) \<longrightarrow> f \<notin> pt_frames root (ps_mem s'))"

lemma pt_grow_trans:
  assumes "pt_grow root s t" "pt_grow root t u" shows "pt_grow root s u"
proof -
  have "frame_held (ps_frames s) \<subseteq> frame_held (ps_frames t)" using assms(1) by (simp add: pt_grow_def pt_local_def)
  with assms show ?thesis unfolding pt_grow_def by (auto intro: pt_local_trans)
qed

lemma pt_local_tables:
  assumes "pt_local root s s'" "f \<in> frame_held (ps_frames s)" "f \<notin> pt_tables root (ps_mem s)"
  shows "f \<notin> pt_tables root (ps_mem s')"
  using assms unfolding pt_local_def by blast

lemma pt_frames_alt: "pt_frames root m = pt_tables root m \<union> {e AND ADDR_MASK |e. \<exists>p. user_path p \<and> length p = 4 \<and> pte m root p = Some e}"
proof -
  have "pt_frames root m = pt_tables root m \<union> {t. \<exists>p. user_path p \<and> length p = 4 \<and> walk m root p = Some t}"
    unfolding pt_frames_def pt_tables_def user_path_def by (auto simp: le_Suc_eq numeral_eq_Suc)
  then show ?thesis by (auto simp: pte_walk) blast
qed

lemma next_level_grow:
  assumes inv: "pt_inv root s" and q: "user_path (q @ [i])" "length q < 3" "walk (ps_mem s) root q = Some T"
    and nl: "next_level (entry_ptr T i) s = Some (t, s')"
  shows "pt_grow root s s'" "walk (ps_mem s') root (q @ [i]) = Some t"
proof -
  note n = next_level_ok [OF inv q nl]
  show "walk (ps_mem s') root (q @ [i]) = Some t" by (rule n(3))
  have "f \<notin> pt_frames root (ps_mem s')" if "f \<in> frame_held (ps_frames s)" "f \<notin> pt_frames root (ps_mem s)" for f
    using that pt_local_tables [OF n(2)] n(5) by (auto simp: pt_frames_alt)
  with n show "pt_grow root s s'" by (simp add: pt_grow_def)
qed

lemma map_page_path:
  assumes inv: "pt_inv root s" and va: "user_va va" and m: "map_page root va f fl s = Some s'"
  obtains q t u where "va_path va = q @ [table_index 12 va]" "length q = 3" "pt_grow root s u" "walk (ps_mem u) root q = Some t"
    "s' = u\<lparr>ps_mem := store64 (entry_ptr t (table_index 12 va)) (f OR fl) (ps_mem u)\<rparr>"
proof -
  obtain q where q: "va_path va = q @ [table_index 12 va]" "length q = 3"
    "user_path [table_index 39 va]" "user_path ([table_index 39 va] @ [table_index 30 va])"
    "q = [table_index 39 va, table_index 30 va] @ [table_index 21 va]" "user_path q" by (rule va_path_walk [OF va])
  obtain t3 s3 t2 s2 t1 s1 where n:
    "next_level (entry_ptr root (table_index 39 va)) s = Some (t3, s3)"
    "next_level (entry_ptr t3 (table_index 30 va)) s3 = Some (t2, s2)"
    "next_level (entry_ptr t2 (table_index 21 va)) s2 = Some (t1, s1)"
    and s': "s' = s1\<lparr>ps_mem := store64 (entry_ptr t1 (table_index 12 va)) (f OR fl) (ps_mem s1)\<rparr>"
    using m by (auto simp: map_page_def bind_eq_Some_conv)
  have g3: "pt_grow root s s3" "walk (ps_mem s3) root [table_index 39 va] = Some t3"
    using next_level_grow [OF inv, of "[]" "table_index 39 va"] q(3) n(1) by simp_all
  then have i3: "pt_inv root s3" by (simp add: pt_grow_def)
  have g2: "pt_grow root s3 s2" "walk (ps_mem s2) root ([table_index 39 va] @ [table_index 30 va]) = Some t2"
    using next_level_grow [OF i3 q(4) _ g3(2) n(2)] by simp_all
  then have i2: "pt_inv root s2" by (simp add: pt_grow_def)
  have "pt_grow root s2 s1" "walk (ps_mem s1) root q = Some t1"
    using next_level_grow [OF i2 q(6) [unfolded q(5)] _ _ n(3)] g2(2) q(5) by simp_all
  with g3(1) g2(1) that [OF q(1,2) _ _ s'] show thesis by (blast intro: pt_grow_trans)
qed

lemma store_leaf_local:
  assumes inv: "pt_inv root s" and q: "user_path (q @ [i])" "length q = 3" "walk (ps_mem s) root q = Some T"
  shows "pt_local root s (s\<lparr>ps_mem := store64 (entry_ptr T i) v (ps_mem s)\<rparr>)"
proof -
  let ?m' = "store64 (entry_ptr T i) v (ps_mem s)"
  note I = pt_invD [OF inv]
  have up: "user_path q" "i < 512" using user_path_snocD [OF q(1)] by blast+
  have T: "is_frame T" "T \<in> pt_tables root (ps_mem s)"
    using I(3) pt_wfD(1) [OF I(2) up(1) q(3)] up(1) q(2,3) by (auto simp: pt_tables_def intro!: exI [of _ q])
  have "root \<noteq> T" using pt_wfD(2) [OF I(2) up(1), of "[]"] q(2,3) by auto
  moreover have "pt_tables root ?m' \<subseteq> pt_tables root (ps_mem s)"
    using walk_leaf [OF I(2,3) q] q(2) by (auto simp: pt_tables_def split: if_splits)
  ultimately show ?thesis using T I(4) up by (auto simp: pt_local_def entry_store intro!: store_outside)
qed

lemma map_page_ok:
  assumes inv: "pt_inv root s" and va: "user_va va"
    and f: "f \<in> frame_held (ps_frames s)" "f \<notin> pt_frames root (ps_mem s)"
    and fl: "is_flags fl" "fl AND P_PRESENT \<noteq> 0"
    and m: "map_page root va f fl s = Some s'"
  shows "pt_inv root s'" "pt_local root s s'"
    and "user_path p \<Longrightarrow> length p = 4 \<Longrightarrow>
      pte (ps_mem s') root p = (if p = va_path va then Some (f OR fl) else pte (ps_mem s) root p)"
proof -
  obtain q t u where q: "va_path va = q @ [table_index 12 va]" "length q = 3" and g: "pt_grow root s u"
    and w: "walk (ps_mem u) root q = Some t"
    and s': "s' = u\<lparr>ps_mem := store64 (entry_ptr t (table_index 12 va)) (f OR fl) (ps_mem u)\<rparr>"
    by (rule map_page_path [OF inv va m])
  have iu: "pt_inv root u" and lu: "pt_local root s u" using g by (simp_all add: pt_grow_def)
  note I = pt_invD [OF iu]
  have up: "user_path (q @ [table_index 12 va])" using va_path_user(1) [OF va] q(1) by simp
  have fu: "f \<in> frame_held (ps_frames u)" "f \<notin> pt_frames root (ps_mem u)" "is_frame f"
    using f g lu pt_invD(3) [OF inv] by (auto simp: pt_grow_def pt_local_def)
  have v: "(f OR fl) AND ADDR_MASK = f" by (rule entry_parts(1) [OF fu(3) fl(1)])
  have pr: "(f OR fl) AND P_PRESENT \<noteq> 0" using fl(2) by (auto simp: bit.conj_disj_distrib2 or_eq_0_iff)
  have "pt_wf (ps_mem s') root (frame_held (ps_frames u))"
    unfolding s' using fu v by (auto simp: pt_frames_def intro!: pt_wf_leaf [OF I(2,3) up q(2) w])
  then show "pt_inv root s'" using I(1) by (simp add: pt_inv_def s')
  show "pt_local root s s'" unfolding s' by (rule pt_local_trans [OF lu store_leaf_local [OF iu up q(2) w]])
  show "pte (ps_mem s') root p = (if p = va_path va then Some (f OR fl) else pte (ps_mem s) root p)"
    if "user_path p" "length p = 4"
    using pte_leaf [OF I(2,3) up q(2) w that] g that pr q(1) by (simp add: s' pt_grow_def)
qed

lemma unmap_page_ok:
  assumes inv: "pt_inv root s" and va: "user_va va"
  shows "pt_inv root (unmap_page root va s)"
    and "user_path p \<Longrightarrow> length p = 4 \<Longrightarrow>
      pte (ps_mem (unmap_page root va s)) root p = (if p = va_path va then None else pte (ps_mem s) root p)"
    and "frame_held (ps_frames (unmap_page root va s)) = frame_held (ps_frames s) - set_option (walk (ps_mem s) root (va_path va))"
    and "page_down a \<notin> pt_tables root (ps_mem s) \<Longrightarrow> ps_mem (unmap_page root va s) a = ps_mem s a"
proof (atomize (full), goal_cases)
  case 1
  note I = pt_invD [OF inv]
  show ?case
  proof (cases "pte (ps_mem s) root (va_path va)")
    case None
    then have "unmap_page root va s = s" using leaf_pte(1) [OF I(2) va] by (simp add: unmap_page_def)
    then show ?thesis using inv None pte_walk [OF va_path_user(2) [OF va], of "ps_mem s" root] by simp
  next
    case (Some e)
    obtain q t where q: "va_path va = q @ [table_index 12 va]" "length q = 3" "user_path q" "walk (ps_mem s) root q = Some t"
      "leaf root va (ps_mem s) = Some (entry_ptr t (table_index 12 va))" "entry (ps_mem s) t (table_index 12 va) = e"
      using leaf_pte(2) [OF I(2) va Some] by blast
    let ?m' = "store64 (entry_ptr t (table_index 12 va)) 0 (ps_mem s)" and ?f = "e AND ADDR_MASK"
    have u: "unmap_page root va s = s\<lparr>ps_frames := frame_free ?f (ps_frames s), ps_mem := ?m'\<rparr>"
      using q(5,6) by (simp add: unmap_page_def entry_def)
    have up: "user_path (q @ [table_index 12 va])" using va_path_user(1) [OF va] q(1) by simp
    have wf: "walk (ps_mem s) root (va_path va) = Some ?f" using pte_walk va_path_user(2) [OF va] Some by simp
    then have fh: "?f \<in> frame_held (ps_frames s)" using pt_wfD(1) [OF I(2) va_path_user(1) [OF va]] by blast
    note held = fa.release_held [OF I(1) fh]
    have wf': "pt_wf ?m' root (frame_held (ps_frames s))" by (rule pt_wf_leaf [OF I(2,3) up q(2,4)]) simp_all
    have "?f \<notin> pt_frames root ?m'"
      using walk_leaf [OF I(2,3) up q(2,4)] pt_wfD(2) [OF I(2) va_path_user(1) [OF va]] wf q(1)
      unfolding pt_frames_def by (auto split: if_splits)
    then have "pt_frames root ?m' \<subseteq> frame_held (ps_frames s) - {?f}" using pt_frames_held [OF wf'] by blast
    then have "pt_wf ?m' root (frame_held (ps_frames s) - {?f})" using tree_cong(2) [OF wf' I(3)] by blast
    moreover have "t \<in> pt_tables root (ps_mem s)" "is_frame t"
      using q(2-4) I(3) pt_wfD(1) [OF I(2) q(3,4)] by (auto simp: pt_tables_def intro!: exI [of _ q])
    ultimately show ?thesis
      using fa.release_inv [OF I(1)] pte_leaf [OF I(2,3) up q(2,4)] q(1) wf user_path_snocD [OF up]
      by (auto simp: u pt_inv_def held intro!: store_outside)
  qed
qed

lemma protect_page_ok:
  assumes inv: "pt_inv root s" and va: "user_va va"
  shows "pt_inv root (protect_page root va pr s)" "pt_local root s (protect_page root va pr s)"
    and "user_path p \<Longrightarrow> length p = 4 \<Longrightarrow> pte (ps_mem (protect_page root va pr s)) root p =
      (if p = va_path va then map_option (\<lambda>e. (e AND ADDR_MASK) OR prot_flags pr) (pte (ps_mem s) root p) else pte (ps_mem s) root p)"
    and "ps_frames (protect_page root va pr s) = ps_frames s"
proof (atomize (full), goal_cases)
  case 1
  note I = pt_invD [OF inv]
  show ?case
  proof (cases "pte (ps_mem s) root (va_path va)")
    case None
    then have "protect_page root va pr s = s" using leaf_pte(1) [OF I(2) va] by (simp add: protect_page_def)
    then show ?thesis using inv None by auto
  next
    case (Some e)
    obtain q t where q: "va_path va = q @ [table_index 12 va]" "length q = 3" "user_path q" "walk (ps_mem s) root q = Some t"
      "leaf root va (ps_mem s) = Some (entry_ptr t (table_index 12 va))" "entry (ps_mem s) t (table_index 12 va) = e"
      using leaf_pte(2) [OF I(2) va Some] by blast
    let ?f = "e AND ADDR_MASK" and ?v = "(e AND ADDR_MASK) OR prot_flags pr"
    let ?m' = "store64 (entry_ptr t (table_index 12 va)) ?v (ps_mem s)"
    have u: "protect_page root va pr s = s\<lparr>ps_mem := ?m'\<rparr>" using q(5,6) by (simp add: protect_page_def entry_def)
    have up: "user_path (q @ [table_index 12 va])" using va_path_user(1) [OF va] q(1) by simp
    have w: "walk (ps_mem s) root (va_path va) = Some ?f" using pte_walk va_path_user(2) [OF va] Some by simp
    then have fh: "?f \<in> frame_held (ps_frames s)" using pt_wfD(1) [OF I(2) va_path_user(1) [OF va]] by blast
    have v: "?v AND ADDR_MASK = ?f" using I(3) fh by (intro entry_parts prot_flags_ok) blast
    have pr: "?v AND P_PRESENT \<noteq> 0" using prot_flags_ok(2) by (auto simp: bit.conj_disj_distrib2 or_eq_0_iff)
    have "pt_wf ?m' root (frame_held (ps_frames s))"
      using fh w pt_wfD(2) [OF I(2) _ va_path_user(1) [OF va]] q(1)
      by (intro pt_wf_leaf [OF I(2,3) up q(2,4)]) (auto simp: v)
    then show ?thesis
      using I(1) store_leaf_local [OF inv up q(2,4)] pte_leaf [OF I(2,3) up q(2,4)] q(1) Some pr
      by (auto simp: u pt_inv_def)
  qed
qed

end
