(* ===== verification/Address_Space.thy ===== *)
theory Address_Space
  imports Page_Table
begin

unbundle bit_operations_syntax

text \<open>
  Whole address spaces over the page tables: a fresh root, the tear-down that gives every frame back, the
  eager copy of fork, and what one address space can see of the changes to another. The calls of
  \<^verbatim>\<open>UserOps\<close> are related to an abstract map from pages to frames and flags.
\<close>

subsection \<open>A fresh address space\<close>

lemma entry_zero_loop:
  assumes "is_frame p" "is_frame t" "j < 512" "n \<le> 512"
  shows "entry (fold (\<lambda>i m. store64 (entry_ptr p i) 0 m) [0..<n] m) t j = (if t = p \<and> j < n then 0 else entry m t j)"
  using assms(4) by (induction n) (use assms(1-3) in \<open>auto simp: entry_store\<close>)

lemma zero_loop_outside:
  assumes "is_frame p" "page_down a \<noteq> p" "n \<le> 512"
  shows "fold (\<lambda>i m. store64 (entry_ptr p i) 0 m) [0..<n] m a = m a"
  using assms(3) by (induction n) (use assms(1,2) in \<open>auto simp: store_outside\<close>)

lemma new_user_pml4_ok:
  assumes inv: "frame_inv (ps_frames s)" and n: "new_user_pml4 s = Some (root, s')"
  shows "pt_inv root s'" "root \<notin> frame_held (ps_frames s)" "frame_held (ps_frames s') = insert root (frame_held (ps_frames s))"
    and "user_path p \<Longrightarrow> walk (ps_mem s') root p = (if p = [] then Some root else None)"
    and "page_down a \<noteq> root \<Longrightarrow> ps_mem s' a = ps_mem s a"
    and "ps_kernel s' = ps_kernel s"
    and "ps_kernel s \<in> frame_held (ps_frames s) \<Longrightarrow> entry (ps_mem s') root 256 = entry (ps_mem s) (ps_kernel s) 256"
proof (atomize (full), goal_cases)
  case 1
  obtain fs where al: "frame_alloc (ps_frames s) = (Some root, fs)"
    using n by (auto simp: new_user_pml4_def Let_def split: option.splits prod.splits)
  have f: "root \<notin> frame_held (ps_frames s)" "frame_held fs = insert root (frame_held (ps_frames s))" "frame_inv fs"
    using fa.alloc_fresh [OF inv al] fa.alloc_inv [OF inv] al by auto
  then have ff: "is_frame root" using held_frame [OF f(3)] by simp
  define m where "m = fold (\<lambda>i m. store64 (entry_ptr root i) 0 m) [0..<512] (ps_mem s)"
  define v where "v = load64 (entry_ptr (ps_kernel s) 256) m"
  have s': "s' = s\<lparr>ps_frames := fs, ps_mem := store64 (entry_ptr root 256) v m\<rparr>"
    using n al by (simp add: new_user_pml4_def Let_def m_def v_def)
  have e: "entry (ps_mem s') root i = 0" if "i < 256" for i
    using that ff by (simp add: s' entry_store m_def entry_zero_loop del: upt_rec_numeral)
  have w: "walk (ps_mem s') root p = (if p = [] then Some root else None)" if "user_path p" for p
    using that e by (cases p) (simp_all add: user_path_def)
  have "pt_inv root s'" unfolding pt_inv_def pt_wf_def
  proof (intro conjI allI impI; (elim conjE)?)
    show "frame_inv (ps_frames s')" using f by (simp add: s')
    show "t \<in> frame_held (ps_frames s')" if "user_path p" "walk (ps_mem s') root p = Some t" for p t
      using that w f by (auto simp: s' split: if_splits)
    show "p = q" if "user_path p" "user_path q" "walk (ps_mem s') root p = Some t" "walk (ps_mem s') root q = Some t" for p q t
      using that w by (auto split: if_splits)
    show "entry (ps_mem s') t i = (entry (ps_mem s') t i AND ADDR_MASK) OR 7"
      if "user_path (p @ [i])" "walk (ps_mem s') root p = Some t" "entry (ps_mem s') t i AND P_PRESENT \<noteq> 0" for p i t
      using that w [OF that(1)] w [OF user_path_prefix [OF that(1)]] e by (auto simp: walk_snoc split: if_splits)
  qed
  moreover have "entry (ps_mem s') root 256 = entry (ps_mem s) (ps_kernel s) 256" if k: "ps_kernel s \<in> frame_held (ps_frames s)"
  proof -
    have kf: "is_frame (ps_kernel s)" "ps_kernel s \<noteq> root" using held_frame [OF inv k] k f(1) by auto
    have "v = entry (ps_mem s) (ps_kernel s) 256"
      using kf ff by (simp add: v_def m_def entry_def [symmetric] entry_zero_loop del: upt_rec_numeral)
    then show ?thesis using ff by (simp add: s' entry_store)
  qed
  ultimately show ?case
    using f w ff by (simp add: s' store_outside m_def zero_loop_outside del: upt_rec_numeral)
qed

subsection \<open>Tearing an address space down\<close>

text \<open>The frames below a table in the order the nested loops give them back, the table last.\<close>

primrec release_order :: "umem \<Rightarrow> nat \<Rightarrow> nat \<Rightarrow> u64 \<Rightarrow> u64 list" where
  "release_order m n 0 t = [t]"
| "release_order m n (Suc d) t =
     concat (map (\<lambda>i. if entry m t i AND P_PRESENT = 0 then [] else release_order m 512 d (entry m t i AND ADDR_MASK)) [0..<n]) @ [t]"

lemma fold_release:
  assumes "\<And>i fs. i \<in> set is \<Longrightarrow> g i fs = fold h (L i) fs"
  shows "fold g is fs = fold h (concat (map L is)) fs"
  using assms by (induction "is" arbitrary: fs) auto

lemma release_table:
  assumes "\<And>i fs. i < n \<Longrightarrow> entry m t i AND P_PRESENT = 0 \<Longrightarrow> g i fs = fs"
    and "\<And>i fs. i < n \<Longrightarrow> entry m t i AND P_PRESENT \<noteq> 0 \<Longrightarrow>
      g i fs = fold frame_free (release_order m 512 d (entry m t i AND ADDR_MASK)) fs"
  shows "frame_free t (fold g [0..<n] fs) = fold frame_free (release_order m n (Suc d) t) fs"
proof -
  have "fold g [0..<n] fs = fold frame_free (concat (map (\<lambda>i. if entry m t i AND P_PRESENT = 0 then []
      else release_order m 512 d (entry m t i AND ADDR_MASK)) [0..<n])) fs"
    by (rule fold_release) (simp add: assms)
  then show ?thesis by simp
qed

lemma free_pt_order: "frame_free pt (free_pt m pt fs) = fold frame_free (release_order m 512 1 pt) fs"
  unfolding free_pt_def One_nat_def by (rule release_table) (simp_all add: entry_def)

lemma free_pd_order:
  assumes "\<And>i. i < 512 \<Longrightarrow> entry m pd i AND P_PRESENT \<noteq> 0 \<Longrightarrow> entry m pd i AND P_HUGE = 0"
  shows "frame_free pd (free_pd m pd fs) = fold frame_free (release_order m 512 (Suc 1) pd) fs"
  unfolding free_pd_def entry_def [symmetric]
  by (rule release_table) (simp_all add: assms Let_def free_pt_order)

lemma free_pdpt_order:
  assumes "\<And>i. i < 512 \<Longrightarrow> entry m t i AND P_PRESENT \<noteq> 0 \<Longrightarrow> entry m t i AND P_HUGE = 0"
    and "\<And>i j. i < 512 \<Longrightarrow> entry m t i AND P_PRESENT \<noteq> 0 \<Longrightarrow> j < 512 \<Longrightarrow>
      entry m (entry m t i AND ADDR_MASK) j AND P_PRESENT \<noteq> 0 \<Longrightarrow> entry m (entry m t i AND ADDR_MASK) j AND P_HUGE = 0"
  shows "frame_free t (free_pdpt m t fs) = fold frame_free (release_order m 512 (Suc (Suc 1)) t) fs"
  unfolding free_pdpt_def entry_def [symmetric]
  by (rule release_table) (simp_all add: assms Let_def free_pd_order)

lemma distinct_concat_map:
  assumes "distinct is" "\<And>i. i \<in> set is \<Longrightarrow> distinct (L i)"
    and "\<And>i j x. i \<in> set is \<Longrightarrow> j \<in> set is \<Longrightarrow> x \<in> set (L i) \<Longrightarrow> x \<in> set (L j) \<Longrightarrow> i = j"
  shows "distinct (concat (map L is))"
  using assms
proof (induction "is")
  case (Cons i "is")
  have "distinct (concat (map L is))" using Cons.prems by (intro Cons.IH) auto
  moreover have "set (L i) \<inter> set (L j) = {}" if "j \<in> set is" for j
    using Cons.prems(1) Cons.prems(3) [of i j] that by auto
  ultimately show ?case using Cons.prems(2) by (auto simp: disjoint_iff)
qed simp

lemma release_order_set:
  "set (release_order m n d t) =
     {u. \<exists>p. length p \<le> d \<and> (\<forall>i\<in>set p. i < 512) \<and> (p \<noteq> [] \<longrightarrow> hd p < n) \<and> walk m t p = Some u}" if "n \<le> 512"
  using that
proof (induction d arbitrary: n t)
  case 0
  then show ?case by auto
next
  case (Suc d)
  have "u \<in> set (release_order m n (Suc d) t) \<longleftrightarrow>
      (\<exists>p. length p \<le> Suc d \<and> (\<forall>i\<in>set p. i < 512) \<and> (p \<noteq> [] \<longrightarrow> hd p < n) \<and> walk m t p = Some u)" (is "?l \<longleftrightarrow> ?r") for u
  proof
    assume ?l
    then consider "u = t" | i where "i < n" "entry m t i AND P_PRESENT \<noteq> 0"
      "u \<in> set (release_order m 512 d (entry m t i AND ADDR_MASK))" by (auto split: if_splits)
    then show ?r
    proof cases
      case 1
      then show ?thesis by (intro exI [of _ "[]"]) simp
    next
      case (2 i)
      then obtain p where "length p \<le> d" "\<forall>j\<in>set p. j < 512" "walk m (entry m t i AND ADDR_MASK) p = Some u"
        using Suc.IH [of 512] by auto
      with 2 Suc.prems show ?thesis by (intro exI [of _ "i # p"]) simp
    qed
  next
    assume ?r
    then obtain p where p: "length p \<le> Suc d" "\<forall>i\<in>set p. i < 512" "p \<noteq> [] \<longrightarrow> hd p < n" "walk m t p = Some u" by blast
    show ?l
    proof (cases p)
      case Nil
      with p show ?thesis by simp
    next
      case (Cons i r)
      then have "entry m t i AND P_PRESENT \<noteq> 0" "walk m (entry m t i AND ADDR_MASK) r = Some u"
        using p(4) by (auto split: if_splits)
      moreover from this have "u \<in> set (release_order m 512 d (entry m t i AND ADDR_MASK))"
        using Suc.IH [of 512] p Cons by (auto intro!: exI [of _ r])
      ultimately show ?thesis using p(3) Cons by (auto intro!: bexI [of _ i])
    qed
  qed
  then show ?case by blast
qed

lemma release_order_distinct:
  assumes "n \<le> 512" "\<And>p q u. \<lbrakk>length p \<le> d; \<forall>i\<in>set p. i < 512; p \<noteq> [] \<longrightarrow> hd p < n; walk m t p = Some u;
      length q \<le> d; \<forall>i\<in>set q. i < 512; q \<noteq> [] \<longrightarrow> hd q < n; walk m t q = Some u\<rbrakk> \<Longrightarrow> p = q"
  shows "distinct (release_order m n d t)"
  using assms
proof (induction d arbitrary: n t)
  case (Suc d)
  let ?c = "\<lambda>i. entry m t i AND ADDR_MASK"
  let ?L = "\<lambda>i. if entry m t i AND P_PRESENT = 0 then [] else release_order m 512 d (?c i)"
  have in_L: "\<exists>p. length p \<le> d \<and> (\<forall>j\<in>set p. j < 512) \<and> walk m t (i # p) = Some u" if "u \<in> set (?L i)" for i u
    using that release_order_set [of 512 m d "?c i"] by (auto split: if_splits)
  have dis: "distinct (concat (map ?L [0..<n]))"
  proof (rule distinct_concat_map)
    show "distinct (?L i)" if i: "i \<in> set [0..<n]" for i
    proof (cases "entry m t i AND P_PRESENT = 0")
      case False
      have "distinct (release_order m 512 d (?c i))"
      proof (rule Suc.IH)
        fix p q u assume a: "length p \<le> d" "\<forall>i\<in>set p. i < 512" "walk m (?c i) p = Some u"
          "length q \<le> d" "\<forall>i\<in>set q. i < 512" "walk m (?c i) q = Some u"
        show "p = q" using Suc.prems(2) [of "i # p" u "i # q"] a i False Suc.prems(1) by simp
      qed simp
      with False show ?thesis by simp
    qed simp
    fix i j u assume "i \<in> set [0..<n]" "j \<in> set [0..<n]" "u \<in> set (?L i)" "u \<in> set (?L j)"
    with in_L [of u i] in_L [of u j] show "i = j"
      using Suc.prems(2) [of "i # _" u "j # _"] Suc.prems(1) by fastforce
  qed simp
  have no: "t \<notin> set (?L i)" if i: "i \<in> set [0..<n]" for i
  proof
    assume "t \<in> set (?L i)"
    from in_L [OF this] obtain p where "length p \<le> d" "\<forall>j\<in>set p. j < 512" "walk m t (i # p) = Some t" by blast
    then show False using Suc.prems(2) [of "i # p" t "[]"] i Suc.prems(1) by simp
  qed
  have "t \<notin> set (concat (map ?L [0..<n]))" unfolding set_concat set_map using no by blast
  with dis show ?case unfolding release_order.simps by (simp del: set_concat)
qed simp
lemma free_user_pml4_order:
  assumes wf: "pt_wf (ps_mem s) root H"
  shows "ps_frames (free_user_pml4 root s) = fold frame_free (release_order (ps_mem s) 256 (Suc (Suc (Suc 1))) root) (ps_frames s)"
proof -
  let ?m = "ps_mem s"
  have e: "frame_free (entry ?m root i AND ADDR_MASK) (free_pdpt ?m (entry ?m root i AND ADDR_MASK) fs) =
      fold frame_free (release_order ?m 512 (Suc (Suc 1)) (entry ?m root i AND ADDR_MASK)) fs"
    if i: "i < 256" "entry ?m root i AND P_PRESENT \<noteq> 0" for i fs
  proof (rule free_pdpt_order)
    let ?t = "entry ?m root i AND ADDR_MASK"
    show "entry ?m ?t j AND P_HUGE = 0" if "j < 512" "entry ?m ?t j AND P_PRESENT \<noteq> 0" for j
      using entry_not_huge [OF wf, of "[i]" j ?t] that i by (simp add: user_path_def)
    show "entry ?m (entry ?m ?t j AND ADDR_MASK) k AND P_HUGE = 0"
      if "j < 512" "entry ?m ?t j AND P_PRESENT \<noteq> 0" "k < 512" "entry ?m (entry ?m ?t j AND ADDR_MASK) k AND P_PRESENT \<noteq> 0" for j k
      using entry_not_huge [OF wf, of "[i, j]" k "entry ?m ?t j AND ADDR_MASK"] that i by (simp add: user_path_def)
  qed
  have "frame_free root (fold (\<lambda>i fs. let e4 = entry ?m root i in if e4 AND P_PRESENT = 0 then fs
      else frame_free (e4 AND ADDR_MASK) (free_pdpt ?m (e4 AND ADDR_MASK) fs)) [0..<256] (ps_frames s))
    = fold frame_free (release_order ?m 256 (Suc (Suc (Suc 1))) root) (ps_frames s)"
    by (rule release_table) (simp_all add: e Let_def)
  then show ?thesis by (simp add: free_user_pml4_def Let_def entry_def)
qed

lemma space_release_order:
  assumes inv: "pt_inv root s"
  defines "l \<equiv> release_order (ps_mem s) 256 (Suc (Suc (Suc 1))) root"
  shows "set l = pt_frames root (ps_mem s)" "distinct l"
proof -
  have up: "user_path p \<longleftrightarrow> length p \<le> Suc (Suc (Suc 1)) \<and> (\<forall>i\<in>set p. i < 512) \<and> (p \<noteq> [] \<longrightarrow> hd p < 256)" for p
    by (simp add: user_path_def numeral_eq_Suc)
  show "set l = pt_frames root (ps_mem s)"
    by (simp add: l_def release_order_set pt_frames_def up del: release_order.simps)
  show "distinct l" unfolding l_def
    by (rule release_order_distinct) (use pt_wfD(2) [OF pt_invD(2) [OF inv]] in \<open>auto simp: up\<close>)
qed

lemma free_user_pml4_ok:
  assumes inv: "pt_inv root s"
  shows "frame_inv (ps_frames (free_user_pml4 root s))"
    and "frame_held (ps_frames (free_user_pml4 root s)) = frame_held (ps_frames s) - pt_frames root (ps_mem s)"
    and "ps_mem (free_user_pml4 root s) = ps_mem s"
proof -
  note I = pt_invD [OF inv] and R = space_release_order [OF inv]
  show "frame_held (ps_frames (free_user_pml4 root s)) = frame_held (ps_frames s) - pt_frames root (ps_mem s)"
    unfolding free_user_pml4_order [OF I(2)] using fa.release_many_held [OF I(1) R(2)] pt_frames_held [OF I(2)] R(1)
    by (simp del: release_order.simps)
  show "frame_inv (ps_frames (free_user_pml4 root s))"
    unfolding free_user_pml4_order [OF I(2)] by (rule fa.release_many_inv [OF I(1)])
  show "ps_mem (free_user_pml4 root s) = ps_mem s" by (simp add: free_user_pml4_def Let_def)
qed

subsection \<open>Other address spaces\<close>

text \<open>What a step may change without touching the address space \<open>other\<close>: memory outside its frames, and
  frames that are not its own.\<close>

lemma other_space:
  assumes inv: "pt_inv other s" and fs: "frame_inv (ps_frames s')"
    and held: "pt_frames other (ps_mem s) \<subseteq> frame_held (ps_frames s')"
    and mem: "\<forall>a. page_down a \<in> pt_frames other (ps_mem s) \<longrightarrow> ps_mem s' a = ps_mem s a"
  shows "pt_inv other s'" "user_path p \<Longrightarrow> walk (ps_mem s') other p = walk (ps_mem s) other p"
    and "user_path p \<Longrightarrow> length p = 4 \<Longrightarrow> pte (ps_mem s') other p = pte (ps_mem s) other p"
    and "pt_frames other (ps_mem s') = pt_frames other (ps_mem s)"
proof -
  note I = pt_invD [OF inv]
  have same: "ps_mem s' a = ps_mem s a" if "page_down a \<in> pt_tables other (ps_mem s)" for a
    using that mem by (auto simp: pt_frames_alt)
  show "pt_inv other s'" using tree_cong(2) [OF I(2,3) same held] fs by (simp add: pt_inv_def)
  show w: "walk (ps_mem s') other p = walk (ps_mem s) other p" if "user_path p" for p by (rule tree_cong(1) [OF I(2,3) same that])
  show "pte (ps_mem s') other p = pte (ps_mem s) other p" if "user_path p" "length p = 4"
    by (rule pte_cong [OF I(2,3) same that])
  show "pt_frames other (ps_mem s') = pt_frames other (ps_mem s)" using w by (auto simp: pt_frames_def)
qed

text \<open>The bytes a task sees at an address, through its tables.\<close>

definition user_byte :: "u64 \<Rightarrow> umem \<Rightarrow> u64 \<Rightarrow> u8 option" where
  "user_byte root m va = map_option (\<lambda>(f, _). m (f + of_nat (unat va mod 4096))) (page_view root m va)"

definition same_space :: "u64 \<Rightarrow> pstate \<Rightarrow> pstate \<Rightarrow> bool" where
  "same_space root s s' \<longleftrightarrow> pt_inv root s' \<and> pt_frames root (ps_mem s') = pt_frames root (ps_mem s)
   \<and> (\<forall>va. user_va va \<longrightarrow> page_view root (ps_mem s') va = page_view root (ps_mem s) va
        \<and> user_byte root (ps_mem s') va = user_byte root (ps_mem s) va)"

lemma page_view_frame:
  assumes "user_va va" "page_view root m va = Some (f, fl)"
  shows "f \<in> pt_frames root m"
proof -
  have "walk m root (va_path va) = Some f" using assms pte_walk [OF va_path_user(2) [OF assms(1)], of m root]
    by (auto simp: page_view_def)
  with va_path_user(1) [OF assms(1)] show ?thesis by (auto simp: pt_frames_def)
qed

lemma other_same_space:
  assumes inv: "pt_inv other s" and fs: "frame_inv (ps_frames s')"
    and held: "pt_frames other (ps_mem s) \<subseteq> frame_held (ps_frames s')"
    and mem: "\<forall>a. page_down a \<in> pt_frames other (ps_mem s) \<longrightarrow> ps_mem s' a = ps_mem s a"
  shows "same_space other s s'"
proof -
  note o = other_space [OF assms]
  have v: "page_view other (ps_mem s') va = page_view other (ps_mem s) va" if "user_va va" for va
    using o(3) [OF va_path_user [OF that]] by (simp add: page_view_def)
  have "user_byte other (ps_mem s') va = user_byte other (ps_mem s) va" if va: "user_va va" for va
  proof (cases "page_view other (ps_mem s) va")
    case (Some x)
    obtain f fl where x: "x = (f, fl)" by (cases x)
    then have f: "f \<in> pt_frames other (ps_mem s)" using page_view_frame [OF va] Some by simp
    then have "is_frame f" using pt_invD(3) [OF inv] pt_frames_held [OF pt_invD(2) [OF inv]] by blast
    then have "page_down (f + of_nat (unat va mod 4096)) = f" by (simp add: is_frame_offset)
    then show ?thesis using spec [OF mem, of "f + of_nat (unat va mod 4096)"] f v [OF va] Some x by (simp add: user_byte_def)
  qed (simp add: user_byte_def v [OF va])
  with o v show ?thesis by (simp add: same_space_def)
qed

lemma local_same_space:
  assumes "pt_inv root s'" "pt_local root s s'" "pt_inv other s" "pt_frames other (ps_mem s) \<inter> pt_frames root (ps_mem s) = {}"
  shows "same_space other s s'"
proof (rule other_same_space [OF assms(3)])
  have h: "pt_frames other (ps_mem s) \<subseteq> frame_held (ps_frames s)" by (rule pt_frames_held [OF pt_invD(2) [OF assms(3)]])
  show "frame_inv (ps_frames s')" by (rule pt_invD(1) [OF assms(1)])
  show "pt_frames other (ps_mem s) \<subseteq> frame_held (ps_frames s')" using h assms(2) by (auto simp: pt_local_def)
  show "\<forall>a. page_down a \<in> pt_frames other (ps_mem s) \<longrightarrow> ps_mem s' a = ps_mem s a"
    using h assms(2,4) by (auto simp: pt_local_def pt_frames_alt [of root])
qed

subsection \<open>Copying an address space\<close>

definition page_copy :: "umem \<Rightarrow> u64 \<Rightarrow> umem \<Rightarrow> u64 \<Rightarrow> bool" where
  "page_copy m f m0 f0 \<longleftrightarrow> (\<forall>j<4096. m (f + of_nat j) = m0 (f0 + of_nat j))"

text \<open>The page on path \<open>p\<close> of the copy, for the entry \<open>eo\<close> of the original: same flags, own frame, same bytes.\<close>

definition copied :: "u64 option \<Rightarrow> umem \<Rightarrow> u64 \<Rightarrow> nat list \<Rightarrow> umem \<Rightarrow> bool" where
  "copied eo m0 dst p m \<longleftrightarrow>
     (case eo of
        None \<Rightarrow> pte m dst p = None
      | Some e \<Rightarrow> \<exists>f. is_frame f \<and> pte m dst p = Some ((e AND NOT ADDR_MASK) OR f) \<and> page_copy m f m0 (e AND ADDR_MASK))"

text \<open>During the copy of \<open>src\<close> (as it was in \<open>s\<close>) into \<open>dst\<close>: memory in use at the start is untouched, the new
  tree is built of frames taken since, and it holds copies of exactly the pages on the paths in \<open>P\<close>.\<close>

definition cloned :: "u64 \<Rightarrow> pstate \<Rightarrow> u64 \<Rightarrow> nat list set \<Rightarrow> pstate \<Rightarrow> bool" where
  "cloned src s dst P u \<longleftrightarrow> pt_inv dst u
   \<and> frame_held (ps_frames s) \<subseteq> frame_held (ps_frames u)
   \<and> pt_frames dst (ps_mem u) \<inter> frame_held (ps_frames s) = {}
   \<and> (\<forall>a. page_down a \<in> frame_held (ps_frames s) \<longrightarrow> ps_mem u a = ps_mem s a)
   \<and> (\<forall>p. user_path p \<and> length p = 4 \<longrightarrow>
        copied (if p \<in> P then pte (ps_mem s) src p else None) (ps_mem s) dst p (ps_mem u))"

definition tables_kept :: "u64 \<Rightarrow> pstate \<Rightarrow> pstate \<Rightarrow> bool" where
  "tables_kept dst u u' \<longleftrightarrow> (\<forall>p t. user_path p \<and> length p \<le> 3 \<and> walk (ps_mem u) dst p = Some t \<longrightarrow> walk (ps_mem u') dst p = Some t)"

lemma tables_kept_refl [simp]: "tables_kept dst u u"
  by (simp add: tables_kept_def)

lemma tables_kept_trans: "tables_kept dst u v \<Longrightarrow> tables_kept dst v w \<Longrightarrow> tables_kept dst u w"
  by (auto simp: tables_kept_def)

lemma clonedD:
  assumes "cloned src s dst P u"
  shows "pt_inv dst u" "frame_held (ps_frames s) \<subseteq> frame_held (ps_frames u)"
    "pt_frames dst (ps_mem u) \<inter> frame_held (ps_frames s) = {}"
    "page_down a \<in> frame_held (ps_frames s) \<Longrightarrow> ps_mem u a = ps_mem s a"
    and "user_path p \<Longrightarrow> length p = 4 \<Longrightarrow>
        copied (if p \<in> P then pte (ps_mem s) src p else None) (ps_mem s) dst p (ps_mem u)"
  using assms unfolding cloned_def by blast+

lemma cloned_skip:
  assumes "cloned src s dst P u" "\<And>p. user_path p \<Longrightarrow> length p = 4 \<Longrightarrow> p \<in> Q \<Longrightarrow> pte (ps_mem s) src p = None"
  shows "cloned src s dst (P \<union> Q) u"
proof -
  have "(if p \<in> P \<union> Q then pte (ps_mem s) src p else None) = (if p \<in> P then pte (ps_mem s) src p else None)"
    if "user_path p" "length p = 4" for p
    using that assms(2) by auto
  then show ?thesis using assms(1) unfolding cloned_def by simp
qed

lemma cloned_cong:
  assumes "cloned src s dst P u" "\<And>p. user_path p \<Longrightarrow> length p = 4 \<Longrightarrow> p \<in> Q \<longleftrightarrow> p \<in> P"
  shows "cloned src s dst Q u"
  using assms unfolding cloned_def by simp

text \<open>Frames of the new tree, read through a leaf entry with the flags of the old one.\<close>

lemma flags_part: "is_flags (e AND NOT ADDR_MASK)"
  by (simp add: is_flags_def and.assoc and.left_commute)

lemma present_flags: "(e AND NOT ADDR_MASK) AND P_PRESENT = e AND P_PRESENT"
  by (simp add: ADDR_MASK_def P_PRESENT_def and.assoc)

lemma copied_entry:
  assumes "is_frame f"
  shows "((e AND NOT ADDR_MASK) OR f) AND ADDR_MASK = f" "((e AND NOT ADDR_MASK) OR f) AND NOT ADDR_MASK = e AND NOT ADDR_MASK"
    "e AND P_PRESENT \<noteq> 0 \<Longrightarrow> ((e AND NOT ADDR_MASK) OR f) AND P_PRESENT \<noteq> 0"
proof -
  show "((e AND NOT ADDR_MASK) OR f) AND ADDR_MASK = f" "((e AND NOT ADDR_MASK) OR f) AND NOT ADDR_MASK = e AND NOT ADDR_MASK"
    using entry_parts [OF assms flags_part] by (simp_all add: or.commute)
  show "((e AND NOT ADDR_MASK) OR f) AND P_PRESENT \<noteq> 0" if "e AND P_PRESENT \<noteq> 0"
    using that present_flags [of e] by (simp add: bit.conj_disj_distrib2 or_eq_0_iff)
qed

lemma pte_present: "pte m root p = Some e \<Longrightarrow> e AND P_PRESENT \<noteq> 0"
  by (auto simp: pte_def split: option.splits if_splits)

lemma leaf_not_table:
  assumes wf: "pt_wf m root H" and p: "user_path p" "length p = 4" "pte m root p = Some e"
  shows "e AND ADDR_MASK \<in> H" "e AND ADDR_MASK \<notin> pt_tables root m"
proof -
  have w: "walk m root p = Some (e AND ADDR_MASK)" using pte_walk [OF p(2)] p(3) by simp
  then show "e AND ADDR_MASK \<in> H" by (rule pt_wfD(1) [OF wf p(1)])
  show "e AND ADDR_MASK \<notin> pt_tables root m"
    using pt_wfD(2) [OF wf p(1) _ w] p(2) by (auto simp: pt_tables_def)
qed

lemma page_copy_cong:
  assumes "is_frame f" "\<And>a. page_down a = f \<Longrightarrow> m' a = m a"
  shows "page_copy m' f m0 f0 = page_copy m f m0 f0"
  unfolding page_copy_def using assms by (simp add: is_frame_offset)

lemma copied_keep:
  assumes c: "copied eo m0 dst p m" and wf: "pt_wf m dst H" and p: "user_path p" "length p = 4"
    and same: "pte m' dst p = pte m dst p"
    and mem: "\<And>a. page_down a \<in> H \<Longrightarrow> page_down a \<notin> pt_tables dst m \<Longrightarrow> m' a = m a"
  shows "copied eo m0 dst p m'"
proof (cases eo)
  case None
  then show ?thesis using c same by (simp add: copied_def)
next
  case (Some e)
  then obtain f where f: "is_frame f" "pte m dst p = Some ((e AND NOT ADDR_MASK) OR f)" "page_copy m f m0 (e AND ADDR_MASK)"
    using c by (auto simp: copied_def)
  have "f \<in> H" "f \<notin> pt_tables dst m" using leaf_not_table [OF wf p f(2)] by (simp_all add: copied_entry [OF f(1)])
  then have "page_copy m' f m0 (e AND ADDR_MASK)" using f(3) mem by (subst page_copy_cong [OF f(1)]) auto
  with Some f same show ?thesis by (auto simp: copied_def)
qed

lemma cloned_grow:
  assumes c: "cloned src s dst P u" and g: "pt_grow dst u u'"
  shows "cloned src s dst P u'"
proof -
  note C = clonedD [OF c] and I = pt_invD [OF clonedD(1) [OF c]]
  have l: "pt_local dst u u'" and pte: "\<And>p. user_path p \<Longrightarrow> length p = 4 \<Longrightarrow> pte (ps_mem u') dst p = pte (ps_mem u) dst p"
    using g by (simp_all add: pt_grow_def)
  have mem: "ps_mem u' a = ps_mem u a" if "page_down a \<in> frame_held (ps_frames u)" "page_down a \<notin> pt_tables dst (ps_mem u)" for a
    using l that by (simp add: pt_local_def)
  show ?thesis unfolding cloned_def
  proof (intro conjI allI impI; (elim conjE)?)
    show "pt_inv dst u'" using g by (simp add: pt_grow_def)
    show "frame_held (ps_frames s) \<subseteq> frame_held (ps_frames u')" using C(2) l by (auto simp: pt_local_def)
    show "pt_frames dst (ps_mem u') \<inter> frame_held (ps_frames s) = {}"
      using C(2,3) g by (auto simp: pt_grow_def)
    show "ps_mem u' a = ps_mem s a" if "page_down a \<in> frame_held (ps_frames s)" for a
      using that C(2,3) C(4) [OF that] mem [of a] by (auto simp: pt_frames_alt)
    show "copied (if p \<in> P then pte (ps_mem s) src p else None) (ps_mem s) dst p (ps_mem u')" if "user_path p" "length p = 4" for p
      by (rule copied_keep [OF C(5) [OF that] I(2) that pte [OF that] mem])
  qed
qed
lemma src_entry:
  assumes inv: "pt_inv src s" and c: "cloned src s dst P u" and q: "user_path (q @ [i])" "walk (ps_mem s) src q = Some T"
  shows "load64 (entry_ptr T i) (ps_mem u) = entry (ps_mem s) T i"
proof -
  have u: "user_path q" "i < 512" using user_path_snocD [OF q(1)] by blast+
  have "T \<in> frame_held (ps_frames s)" "is_frame T" using pt_wfD(1) [OF pt_invD(2) [OF inv] u(1) q(2)] pt_invD(3) [OF inv] by auto
  then show ?thesis unfolding entry_def [symmetric] using u clonedD(4) [OF c] by (intro entry_cong_page) auto
qed

text \<open>One page: a fresh frame with the bytes and the flags of the old one.\<close>

lemma copy_page_state:
  assumes inv: "pt_inv dst u" and al: "frame_alloc (ps_frames u) = (Some f, fs)"
    and u1_def: "u1 = u\<lparr>ps_frames := fs, ps_mem := write_bytes f (map (\<lambda>k. ps_mem u (g + of_nat k)) [0..<4096]) (ps_mem u)\<rparr>"
  shows "pt_inv dst u1" "f \<notin> frame_held (ps_frames u)" "frame_held (ps_frames u1) = insert f (frame_held (ps_frames u))" "is_frame f"
    and "user_path p \<Longrightarrow> walk (ps_mem u1) dst p = walk (ps_mem u) dst p"
    and "user_path p \<Longrightarrow> length p = 4 \<Longrightarrow> pte (ps_mem u1) dst p = pte (ps_mem u) dst p"
    and "page_down a \<noteq> f \<Longrightarrow> ps_mem u1 a = ps_mem u a" "page_copy (ps_mem u1) f (ps_mem u) g"
proof (atomize (full), goal_cases)
  case 1
  note I = pt_invD [OF inv]
  have f: "f \<notin> frame_held (ps_frames u)" "frame_held fs = insert f (frame_held (ps_frames u))" "frame_inv fs"
    using fa.alloc_fresh [OF I(1) al] fa.alloc_inv [OF I(1)] al by auto
  then have ff: "is_frame f" using held_frame [OF f(3)] by simp
  have out: "ps_mem u1 a = ps_mem u a" if "page_down a \<noteq> f" for a
    using frame_bytes_outside [OF ff, of 0 "map (\<lambda>k. ps_mem u (g + of_nat k)) [0..<4096]"] that by (simp add: u1_def)
  have t: "\<forall>a. page_down a \<in> pt_frames dst (ps_mem u) \<longrightarrow> ps_mem u1 a = ps_mem u a"
    using f(1) pt_frames_held [OF I(2)] by (auto intro!: out)
  have h: "pt_frames dst (ps_mem u) \<subseteq> frame_held (ps_frames u1)" using pt_frames_held [OF I(2)] f(2) by (auto simp: u1_def)
  have "frame_inv (ps_frames u1)" using f(3) by (simp add: u1_def)
  note o = other_space [OF inv this h t]
  have "page_copy (ps_mem u1) f (ps_mem u) g"
    by (simp add: page_copy_def u1_def write_bytes_at del: upt_rec_numeral)
  with o out f ff show ?case by (simp add: u1_def)
qed

lemma clone_pte_ok:
  assumes inv: "pt_inv src s" and c: "cloned src s dst P u"
    and q: "user_path (q @ [i])" "length q = 3" "walk (ps_mem s) src q = Some spt" "walk (ps_mem u) dst q = Some dpt"
    and n: "q @ [i] \<notin> P" and r: "clone_pte spt dpt i u = Some (ok, u')"
  shows "if ok then cloned src s dst (P \<union> {q @ [i]}) u' \<and> tables_kept dst u u' else cloned src s dst P u'"
proof (cases "entry (ps_mem s) spt i AND P_PRESENT = 0")
  case True
  then have "ok" "u' = u" using r by (auto simp: clone_pte_def src_entry [OF inv c q(1,3)])
  moreover have "pte (ps_mem s) src (q @ [i]) = None" using True q(3) by (simp add: pte_snoc)
  ultimately show ?thesis using cloned_skip [OF c, of "{q @ [i]}"] by auto
next
  case False
  define e where "e = entry (ps_mem s) spt i"
  note se = src_entry [OF inv c q(1,3), folded e_def]
  obtain x fs where al: "frame_alloc (ps_frames u) = (x, fs)" by fastforce
  note C = clonedD [OF c] and I = pt_invD [OF clonedD(1) [OF c]]
  show ?thesis
  proof (cases x)
    case None
    then have "fs = ps_frames u" using al frame_alloc_None(1) by simp
    then have "\<not> ok" "u' = u" using r False al None by (auto simp: clone_pte_def se Let_def e_def)
    then show ?thesis using c by simp
  next
    case (Some f)
    with al have al: "frame_alloc (ps_frames u) = (Some f, fs)" by simp
    define u1 where "u1 = u\<lparr>ps_frames := fs,
      ps_mem := write_bytes f (map (\<lambda>k. ps_mem u ((e AND ADDR_MASK) + of_nat k)) [0..<4096]) (ps_mem u)\<rparr>"
    note B = copy_page_state [OF C(1) al u1_def]
    note I1 = pt_invD [OF B(1)]
    define v where "v = (e AND NOT ADDR_MASK) OR f"
    have u': "ok" "u' = u1\<lparr>ps_mem := store64 (entry_ptr dpt i) v (ps_mem u1)\<rparr>"
      using r False al by (auto simp: clone_pte_def se Let_def e_def [symmetric] u1_def v_def del: upt_rec_numeral)
    have up: "user_path q" "i < 512" using user_path_snocD [OF q(1)] by blast+
    have w1: "walk (ps_mem u1) dst q = Some dpt" using B(5) [OF up(1)] q(4) by simp
    have v: "v AND ADDR_MASK = f" "v AND P_PRESENT \<noteq> 0" using copied_entry [OF B(4)] False by (simp_all add: v_def e_def)
    note pl = pte_leaf [OF I1(2,3) q(1,2) w1, of _ v] and wl = walk_leaf [OF I1(2,3) q(1,2) w1, of _ v]
    have fresh: "f \<notin> pt_frames dst (ps_mem u1)" using B(2,5) pt_frames_held [OF I(2)] by (auto simp: pt_frames_def)
    have inv': "pt_inv dst u'"
      using I1(1) B(3) fresh v pt_wf_leaf [OF I1(2,3) q(1,2) w1, of v] by (auto simp: u' pt_inv_def pt_frames_def)
    have dpt: "is_frame dpt" "dpt \<in> pt_tables dst (ps_mem u)"
      using I(3) pt_wfD(1) [OF I(2) up(1) q(4)] up(1) q(2,4) by (auto simp: pt_tables_def intro!: exI [of _ q])
    have mem: "ps_mem u' a = ps_mem u a" if "page_down a \<in> frame_held (ps_frames u)" "page_down a \<notin> pt_tables dst (ps_mem u)" for a
      using that dpt up(2) B(2) by (auto simp: u' intro!: trans [OF store_outside] B(7))
    have fr: "pt_frames dst (ps_mem u') \<subseteq> insert f (pt_frames dst (ps_mem u))"
      using wl B(5) v by (auto simp: u' pt_frames_def split: if_splits)
    have kept: "tables_kept dst u u'" using wl B(5) q(2) by (auto simp: tables_kept_def u')
    have g: "e AND ADDR_MASK \<in> frame_held (ps_frames s)"
      using pt_wfD(1) [OF pt_invD(2) [OF inv] q(1)] q(3) False by (simp add: walk_snoc e_def)
    have "f \<notin> pt_tables dst (ps_mem u)" using B(2) pt_tables_held [OF I(2)] by blast
    then have "ps_mem u' a = ps_mem u1 a" if "page_down a = f" for a
      using that dpt up(2) by (auto simp: u' intro!: store_outside)
    then have "page_copy (ps_mem u') f (ps_mem u) (e AND ADDR_MASK)" using B(8) by (subst page_copy_cong [OF B(4)]) auto
    moreover have "ps_mem u ((e AND ADDR_MASK) + of_nat j) = ps_mem s ((e AND ADDR_MASK) + of_nat j)" if "j < 4096" for j
      using C(4) g is_frame_offset(2) [OF _ that, of "e AND ADDR_MASK"] pt_invD(3) [OF inv] by simp
    ultimately have copy: "page_copy (ps_mem u') f (ps_mem s) (e AND ADDR_MASK)" by (simp add: page_copy_def)
    have "cloned src s dst (P \<union> {q @ [i]}) u'" unfolding cloned_def
    proof (intro conjI allI impI; (elim conjE)?)
      show "pt_inv dst u'" by (rule inv')
      show "frame_held (ps_frames s) \<subseteq> frame_held (ps_frames u')" using C(2) B(3) by (auto simp: u')
      show "pt_frames dst (ps_mem u') \<inter> frame_held (ps_frames s) = {}" using C(2,3) fr B(2) by auto
      show "ps_mem u' a = ps_mem s a" if "page_down a \<in> frame_held (ps_frames s)" for a
        using that C(2,3) C(4) [OF that] mem [of a] by (auto simp: pt_frames_alt)
      show "copied (if p \<in> P \<union> {q @ [i]} then pte (ps_mem s) src p else None) (ps_mem s) dst p (ps_mem u')"
        if p: "user_path p" "length p = 4" for p
      proof (cases "p = q @ [i]")
        case True
        then show ?thesis using q(3) False copy v pl [OF p] B(4) by (auto simp: copied_def u' pte_snoc e_def v_def)
      next
        case False
        then have "pte (ps_mem u') dst p = pte (ps_mem u) dst p" using pl [OF p] B(6) [OF p] by (simp add: u')
        from copied_keep [OF C(5) [OF p] I(2) p this mem] False show ?thesis by simp
      qed
    qed
    with kept u'(1) show ?thesis by simp
  qed
qed
text \<open>A loop over the entries of one table: all paths through it are copied, or the loop stops early.\<close>

definition clone_done :: "u64 \<Rightarrow> pstate \<Rightarrow> u64 \<Rightarrow> nat list set \<Rightarrow> pstate \<Rightarrow> bool \<Rightarrow> pstate \<Rightarrow> bool" where
  "clone_done src s dst P u ok u' \<longleftrightarrow>
     (if ok then cloned src s dst P u' \<and> tables_kept dst u u' else \<exists>P. cloned src s dst P u')"

definition below :: "nat list \<Rightarrow> nat list set" where
  "below q = {p. prefix q p}"

lemma below_disjoint: "i \<noteq> j \<Longrightarrow> below (q @ [i]) \<inter> below (q @ [j]) = {}"
  by (auto simp: below_def prefix_def)

lemma below_table:
  assumes "user_path p" "length p = 4" "length q \<le> 3"
  shows "p \<in> below q \<longleftrightarrow> (\<exists>i<512. p \<in> below (q @ [i]))"
proof
  assume "p \<in> below q"
  then obtain r where r: "p = q @ r" by (auto simp: below_def prefix_def)
  then obtain i r' where "r = i # r'" using assms by (cases r) auto
  then show "\<exists>i<512. p \<in> below (q @ [i])" using assms(1) r by (auto simp: below_def user_path_def intro!: exI [of _ i])
qed (auto simp: below_def prefix_def)

lemma each_entry_cloned:
  assumes step: "\<And>i P u ok u'. i \<in> set is \<Longrightarrow> cloned src s dst P u \<Longrightarrow> walk (ps_mem u) dst q = Some dt \<Longrightarrow>
      P \<inter> below (q @ [i]) = {} \<Longrightarrow> f i u = Some (ok, u') \<Longrightarrow> clone_done src s dst (P \<union> below (q @ [i])) u ok u'"
    and "cloned src s dst P u" "walk (ps_mem u) dst q = Some dt" "user_path q" "length q \<le> 3" "distinct is"
    and "\<And>i. i \<in> set is \<Longrightarrow> P \<inter> below (q @ [i]) = {}"
    and "each_entry f is u = Some (ok, u')"
  shows "clone_done src s dst (P \<union> (\<Union>i\<in>set is. below (q @ [i]))) u ok u'"
  using assms
proof (induction "is" arbitrary: P u)
  case (Cons i "is")
  obtain ok1 u1 where f: "f i u = Some (ok1, u1)"
    and rest: "if ok1 then each_entry f is u1 = Some (ok, u') else ok = False \<and> u' = u1"
    using Cons.prems(8) by (auto simp: bind_eq_Some_conv split: if_splits)
  have st: "clone_done src s dst (P \<union> below (q @ [i])) u ok1 u1"
    by (rule Cons.prems(1) [OF _ Cons.prems(2,3) _ f]) (use Cons.prems(7) in auto)
  show ?case
  proof (cases ok1)
    case False
    with st rest show ?thesis by (auto simp: clone_done_def)
  next
    case True
    with st have c: "cloned src s dst (P \<union> below (q @ [i])) u1" and k: "tables_kept dst u u1" by (simp_all add: clone_done_def)
    have w: "walk (ps_mem u1) dst q = Some dt" using k Cons.prems(3-5) by (simp add: tables_kept_def)
    have "clone_done src s dst (P \<union> below (q @ [i]) \<union> (\<Union>i\<in>set is. below (q @ [i]))) u1 ok u'"
    proof (rule Cons.IH [OF _ c w Cons.prems(4,5)])
      show "distinct is" "each_entry f is u1 = Some (ok, u')" using Cons.prems(6) rest True by simp_all
      show "(P \<union> below (q @ [i])) \<inter> below (q @ [j]) = {}" if "j \<in> set is" for j
        using that Cons.prems(6) Cons.prems(7) [of j] below_disjoint [of i j q] by auto
    qed (use Cons.prems(1) in auto)
    then show ?thesis using k by (auto simp: clone_done_def Un_assoc intro: tables_kept_trans)
  qed
qed (simp add: clone_done_def)

lemma each_entry_table:
  assumes step: "\<And>i P u ok u'. i < 512 \<Longrightarrow> cloned src s dst P u \<Longrightarrow> walk (ps_mem u) dst q = Some dt \<Longrightarrow>
      P \<inter> below (q @ [i]) = {} \<Longrightarrow> f i u = Some (ok, u') \<Longrightarrow> clone_done src s dst (P \<union> below (q @ [i])) u ok u'"
    and "cloned src s dst P u" "walk (ps_mem u) dst q = Some dt" "user_path q" "length q \<le> 3"
    and "P \<inter> below q = {}" "each_entry f [0..<512] u = Some (ok, u')"
  shows "clone_done src s dst (P \<union> below q) u ok u'"
proof -
  have sub: "below (q @ [i]) \<subseteq> below q" for i by (auto simp: below_def prefix_def)
  have "clone_done src s dst (P \<union> (\<Union>i\<in>set [0..<512]. below (q @ [i]))) u ok u'"
    by (rule each_entry_cloned [OF _ assms(2-5) _ _ assms(7)])
       (use assms(6) sub in \<open>auto intro: step simp del: upt_rec_numeral\<close>)
  then show ?thesis
    unfolding clone_done_def using below_table [OF _ _ assms(5)]
    by (auto split: if_splits elim!: cloned_cong simp del: upt_rec_numeral)
qed

lemma next_level_kept:
  assumes "pt_inv dst u" "user_path (q @ [i])" "length q < 3" "walk (ps_mem u) dst q = Some T" "next_level (entry_ptr T i) u = Some (t, u')"
  shows "tables_kept dst u u'"
  unfolding tables_kept_def
proof (intro allI impI, elim conjE)
  fix p t' assume p: "user_path p" "length p \<le> 3" "walk (ps_mem u) dst p = Some t'"
  note n = next_level_ok [OF assms]
  show "walk (ps_mem u') dst p = Some t'"
  proof (cases "p = q @ [i]")
    case False
    with n(4) [OF p(1)] p(3) show ?thesis by simp
  next
    case True
    then have e: "entry (ps_mem u) T i AND P_PRESENT \<noteq> 0" "t' = entry (ps_mem u) T i AND ADDR_MASK"
      using p(3) assms(4) by (auto simp: walk_snoc split: if_splits)
    then have "t = t'" using assms(5) by (auto simp: next_level_def entry_def)
    with n(3) True show ?thesis by simp
  qed
qed
lemma pte_below_None:
  assumes "walk m root q = Some T" "entry m T i AND P_PRESENT = 0" "p \<in> below (q @ [i])" "length p = 4"
  shows "pte m root p = None"
proof -
  have "walk m root p = None" using assms(1-3) by (auto simp: below_def prefix_def walk_append)
  then show ?thesis using pte_walk [OF assms(4), of m root] by simp
qed

lemma clone_table_step:
  assumes inv: "pt_inv src s" and c: "cloned src s dst P u"
    and q: "user_path (q @ [i])" "length q < 3" "walk (ps_mem s) src q = Some T" "walk (ps_mem u) dst q = Some dt"
    and disj: "P \<inter> below (q @ [i]) = {}"
    and skip: "entry (ps_mem s) T i AND P_PRESENT = 0 \<Longrightarrow> ok \<and> u' = u"
    and copy: "entry (ps_mem s) T i AND P_PRESENT \<noteq> 0 \<Longrightarrow>
      \<exists>t u1. next_level (entry_ptr dt i) u = Some (t, u1) \<and> each_entry (g t) [0..<512] u1 = Some (ok, u')"
    and inner: "\<And>t j P u ok u'. j < 512 \<Longrightarrow> cloned src s dst P u \<Longrightarrow> walk (ps_mem u) dst (q @ [i]) = Some t \<Longrightarrow>
      walk (ps_mem s) src (q @ [i]) = Some (entry (ps_mem s) T i AND ADDR_MASK) \<Longrightarrow> P \<inter> below ((q @ [i]) @ [j]) = {} \<Longrightarrow>
      g t j u = Some (ok, u') \<Longrightarrow> clone_done src s dst (P \<union> below ((q @ [i]) @ [j])) u ok u'"
  shows "clone_done src s dst (P \<union> below (q @ [i])) u ok u'"
proof (cases "entry (ps_mem s) T i AND P_PRESENT = 0")
  case True
  have "cloned src s dst (P \<union> below (q @ [i])) u"
    by (rule cloned_skip [OF c]) (rule pte_below_None [OF q(3) True])
  then show ?thesis using skip [OF True] by (simp add: clone_done_def)
next
  case False
  obtain t u1 where n: "next_level (entry_ptr dt i) u = Some (t, u1)" "each_entry (g t) [0..<512] u1 = Some (ok, u')"
    using copy [OF False] by blast
  note g = next_level_grow [OF clonedD(1) [OF c] q(1,2,4) n(1)]
  have c1: "cloned src s dst P u1" by (rule cloned_grow [OF c g(1)])
  have k: "tables_kept dst u u1" by (rule next_level_kept [OF clonedD(1) [OF c] q(1,2,4) n(1)])
  have "clone_done src s dst (P \<union> below (q @ [i])) u1 ok u'"
  proof (rule each_entry_table [OF _ c1 g(2) q(1) _ disj n(2)])
    show "length (q @ [i]) \<le> 3" using q(2) by simp
    show "clone_done src s dst (P' \<union> below ((q @ [i]) @ [j])) v ok' v'"
      if "j < 512" "cloned src s dst P' v" "walk (ps_mem v) dst (q @ [i]) = Some t" "P' \<inter> below ((q @ [i]) @ [j]) = {}"
        "g t j v = Some (ok', v')" for j P' v ok' v'
      by (rule inner [OF that(1-3) _ that(4,5)]) (simp add: walk_snoc q(3) False)
  qed
  then show ?thesis using k by (auto simp: clone_done_def intro: tables_kept_trans)
qed

lemma user_path_ext: "user_path q \<Longrightarrow> length q \<le> 3 \<Longrightarrow> j < 512 \<Longrightarrow> q \<noteq> [] \<Longrightarrow> user_path (q @ [j])"
  by (auto simp: user_path_def)

lemma clone_pte_done:
  assumes "pt_inv src s" "cloned src s dst P u" "user_path (q @ [i])" "length q = 3" "walk (ps_mem s) src q = Some spt"
    "walk (ps_mem u) dst q = Some dpt" "P \<inter> below (q @ [i]) = {}" "clone_pte spt dpt i u = Some (ok, u')"
  shows "clone_done src s dst (P \<union> below (q @ [i])) u ok u'"
proof -
  have n: "q @ [i] \<notin> P" using assms(7) by (auto simp: below_def)
  have "cloned src s dst (P \<union> below (q @ [i])) u'" if "cloned src s dst (P \<union> {q @ [i]}) u'"
    by (rule cloned_cong [OF that]) (use user_path_4 [OF assms(3) _ assms(4)] in \<open>auto simp: below_def\<close>)
  then show ?thesis using clone_pte_ok [OF assms(1-6) n assms(8)] by (auto simp: clone_done_def split: if_splits)
qed

lemma clone_pde_done:
  assumes inv: "pt_inv src s" and c: "cloned src s dst P u" and q: "user_path (q @ [i])" "length q = 2" "walk (ps_mem s) src q = Some spd"
    "walk (ps_mem u) dst q = Some dpd" and d: "P \<inter> below (q @ [i]) = {}" and r: "clone_pde spd dpd i u = Some (ok, u')"
  shows "clone_done src s dst (P \<union> below (q @ [i])) u ok u'"
proof (rule clone_table_step [OF inv c q(1) _ q(3,4) d, where g = "clone_pte (entry (ps_mem s) spd i AND ADDR_MASK)"])
  note se = src_entry [OF inv c q(1,3)]
  show "length q < 3" using q(2) by simp
  show "ok \<and> u' = u" if "entry (ps_mem s) spd i AND P_PRESENT = 0" using r that by (simp add: clone_pde_def se)
  show "\<exists>t u1. next_level (entry_ptr dpd i) u = Some (t, u1)
      \<and> each_entry (clone_pte (entry (ps_mem s) spd i AND ADDR_MASK) t) [0..<512] u1 = Some (ok, u')"
    if "entry (ps_mem s) spd i AND P_PRESENT \<noteq> 0"
    using r that entry_not_huge [OF pt_invD(2) [OF inv] q(1) _ q(3) that] q(2)
    by (auto simp: clone_pde_def se Let_def bind_eq_Some_conv simp del: upt_rec_numeral)
  show "clone_done src s dst (P' \<union> below ((q @ [i]) @ [j])) v ok' v'"
    if "j < 512" "cloned src s dst P' v" "walk (ps_mem v) dst (q @ [i]) = Some t"
      "walk (ps_mem s) src (q @ [i]) = Some (entry (ps_mem s) spd i AND ADDR_MASK)" "P' \<inter> below ((q @ [i]) @ [j]) = {}"
      "clone_pte (entry (ps_mem s) spd i AND ADDR_MASK) t j v = Some (ok', v')" for t j P' v ok' v'
    by (rule clone_pte_done [OF inv that(2) _ _ that(4,3,5,6)]) (use q that(1) user_path_ext [OF q(1)] in auto)
qed

lemma clone_pdpte_done:
  assumes inv: "pt_inv src s" and c: "cloned src s dst P u" and q: "user_path (q @ [i])" "length q = 1" "walk (ps_mem s) src q = Some spd"
    "walk (ps_mem u) dst q = Some dpd" and d: "P \<inter> below (q @ [i]) = {}" and r: "clone_pdpte spd dpd i u = Some (ok, u')"
  shows "clone_done src s dst (P \<union> below (q @ [i])) u ok u'"
proof (rule clone_table_step [OF inv c q(1) _ q(3,4) d, where g = "clone_pde (entry (ps_mem s) spd i AND ADDR_MASK)"])
  note se = src_entry [OF inv c q(1,3)]
  show "length q < 3" using q(2) by simp
  show "ok \<and> u' = u" if "entry (ps_mem s) spd i AND P_PRESENT = 0" using r that by (simp add: clone_pdpte_def se)
  show "\<exists>t u1. next_level (entry_ptr dpd i) u = Some (t, u1)
      \<and> each_entry (clone_pde (entry (ps_mem s) spd i AND ADDR_MASK) t) [0..<512] u1 = Some (ok, u')"
    if "entry (ps_mem s) spd i AND P_PRESENT \<noteq> 0"
    using r that entry_not_huge [OF pt_invD(2) [OF inv] q(1) _ q(3) that] q(2)
    by (auto simp: clone_pdpte_def se Let_def bind_eq_Some_conv simp del: upt_rec_numeral)
  show "clone_done src s dst (P' \<union> below ((q @ [i]) @ [j])) v ok' v'"
    if "j < 512" "cloned src s dst P' v" "walk (ps_mem v) dst (q @ [i]) = Some t"
      "walk (ps_mem s) src (q @ [i]) = Some (entry (ps_mem s) spd i AND ADDR_MASK)" "P' \<inter> below ((q @ [i]) @ [j]) = {}"
      "clone_pde (entry (ps_mem s) spd i AND ADDR_MASK) t j v = Some (ok', v')" for t j P' v ok' v'
    by (rule clone_pde_done [OF inv that(2) _ _ that(4,3,5,6)]) (use q that(1) user_path_ext [OF q(1)] in auto)
qed

lemma clone_pml4e_done:
  assumes inv: "pt_inv src s" and c: "cloned src s dst P u" and i: "i < 256" and w: "walk (ps_mem u) dst [] = Some dt"
    and d: "P \<inter> below ([] @ [i]) = {}" and r: "clone_pml4e src dst i u = Some (ok, u')"
  shows "clone_done src s dst (P \<union> below ([] @ [i])) u ok u'"
proof -
  have q: "user_path ([] @ [i])" using i by (simp add: user_path_def)
  note se = src_entry [OF inv c q walk.simps(1)]
  have dt: "dt = dst" using w by simp
  show ?thesis
  proof (rule clone_table_step [OF inv c q _ walk.simps(1) w d, where g = "clone_pdpte (entry (ps_mem s) src i AND ADDR_MASK)"])
    show "ok \<and> u' = u" if "entry (ps_mem s) src i AND P_PRESENT = 0" using r that by (simp add: clone_pml4e_def se)
    show "\<exists>t u1. next_level (entry_ptr dt i) u = Some (t, u1)
        \<and> each_entry (clone_pdpte (entry (ps_mem s) src i AND ADDR_MASK) t) [0..<512] u1 = Some (ok, u')"
      if pr: "entry (ps_mem s) src i AND P_PRESENT \<noteq> 0"
    proof -
      obtain t u1 where n: "next_level (entry_ptr dst i) u = Some (t, u1)"
        "each_entry (clone_pdpte (load64 (entry_ptr src i) (ps_mem u1) AND ADDR_MASK) t) [0..<512] u1 = Some (ok, u')"
        using r pr by (auto simp: clone_pml4e_def se bind_eq_Some_conv simp del: upt_rec_numeral)
      have "cloned src s dst P u1"
        using next_level_grow(1) [OF clonedD(1) [OF c] q _ walk.simps(1) n(1)] by (intro cloned_grow [OF c]) simp
      from src_entry [OF inv this q walk.simps(1)] n dt show ?thesis by auto
    qed
    show "clone_done src s dst (P' \<union> below (([] @ [i]) @ [j])) v ok' v'"
      if "j < 512" "cloned src s dst P' v" "walk (ps_mem v) dst ([] @ [i]) = Some t"
        "walk (ps_mem s) src ([] @ [i]) = Some (entry (ps_mem s) src i AND ADDR_MASK)" "P' \<inter> below (([] @ [i]) @ [j]) = {}"
        "clone_pdpte (entry (ps_mem s) src i AND ADDR_MASK) t j v = Some (ok', v')" for t j P' v ok' v'
      by (rule clone_pdpte_done [OF inv that(2) _ _ that(4,3,5,6)]) (use that(1) i in \<open>auto simp: user_path_def\<close>)
  qed simp
qed
lemma new_space_cloned:
  assumes inv: "pt_inv src s" and n: "new_user_pml4 s = Some (dst, u)"
  shows "cloned src s dst {} u"
proof -
  note N = new_user_pml4_ok [OF pt_invD(1) [OF inv] n]
  have "pte (ps_mem u) dst p = None" if "user_path p" "length p = 4" for p
    using N(4) [OF that(1)] pte_walk [OF that(2), of "ps_mem u" dst] that(2) by (auto split: if_splits)
  moreover have "pt_frames dst (ps_mem u) \<subseteq> {dst}" using N(4) by (auto simp: pt_frames_def split: if_splits)
  ultimately show ?thesis using N(1-3) by (auto simp: cloned_def copied_def intro!: N(5))
qed

lemma clone_user_pml4_ok:
  assumes inv: "pt_inv src s" and r: "clone_user_pml4 src s = Some (res, s')"
  obtains (copy) dst where "res = Some dst" "cloned src s dst UNIV s'"
  | (out_of_frames) dst P where "res = None" "cloned src s dst P s'"
proof -
  obtain dst u ok where n: "new_user_pml4 s = Some (dst, u)" "each_entry (clone_pml4e src dst) [0..<256] u = Some (ok, s')"
    "res = (if ok then Some dst else None)"
    using r by (auto simp: clone_user_pml4_def bind_eq_Some_conv simp del: upt_rec_numeral)
  have c: "cloned src s dst {} u" by (rule new_space_cloned [OF inv n(1)])
  have "clone_done src s dst ({} \<union> (\<Union>i\<in>set [0..<256]. below ([] @ [i]))) u ok s'"
    by (rule each_entry_cloned [OF _ c walk.simps(1) _ _ _ _ n(2)])
       (use clone_pml4e_done [OF inv] in \<open>simp_all del: upt_rec_numeral append_Nil\<close>)
  then show thesis
  proof (cases ok)
    case True
    have "cloned src s dst UNIV s'"
    proof (rule cloned_cong)
      show "cloned src s dst (\<Union>i\<in>set [0..<256]. below ([] @ [i])) s'"
        using True \<open>clone_done src s dst _ u ok s'\<close> by (simp add: clone_done_def del: upt_rec_numeral)
      show "p \<in> UNIV \<longleftrightarrow> p \<in> (\<Union>i\<in>set [0..<256]. below ([] @ [i]))" if p: "user_path p" "length p = 4" for p
      proof -
        obtain i r where "p = i # r" "i < 256" using p by (cases p) (auto simp: user_path_def)
        then show ?thesis by (auto simp: below_def intro!: bexI [of _ i] simp del: upt_rec_numeral)
      qed
    qed
    with True n(3) copy show thesis by simp
  next
    case False
    with \<open>clone_done src s dst _ u ok s'\<close> n(3) out_of_frames show thesis by (auto simp: clone_done_def)
  qed
qed

lemma cloned_views:
  assumes inv: "pt_inv src s" and c: "cloned src s dst UNIV s'" and va: "user_va va"
  shows "map_option snd (page_view dst (ps_mem s') va) = map_option snd (page_view src (ps_mem s) va)"
    and "user_byte dst (ps_mem s') va = user_byte src (ps_mem s) va"
proof -
  note p = va_path_user [OF va]
  have cp: "copied (pte (ps_mem s) src (va_path va)) (ps_mem s) dst (va_path va) (ps_mem s')" using clonedD(5) [OF c p] by simp
  have "map_option snd (page_view dst (ps_mem s') va) = map_option snd (page_view src (ps_mem s) va)
      \<and> user_byte dst (ps_mem s') va = user_byte src (ps_mem s) va"
  proof (cases "pte (ps_mem s) src (va_path va)")
    case None
    then show ?thesis using cp by (simp add: copied_def page_view_def user_byte_def)
  next
    case (Some e)
    then obtain f where f: "is_frame f" "pte (ps_mem s') dst (va_path va) = Some ((e AND NOT ADDR_MASK) OR f)"
      "page_copy (ps_mem s') f (ps_mem s) (e AND ADDR_MASK)" using cp by (auto simp: copied_def)
    then show ?thesis using Some copied_entry(1,2) [OF f(1), of e] by (simp add: page_view_def user_byte_def page_copy_def)
  qed
  then show "map_option snd (page_view dst (ps_mem s') va) = map_option snd (page_view src (ps_mem s) va)"
    and "user_byte dst (ps_mem s') va = user_byte src (ps_mem s) va" by blast+
qed

lemma cloned_others:
  assumes c: "cloned src s dst P s'" and inv: "pt_inv other s"
  shows "same_space other s s'"
proof (rule other_same_space [OF inv])
  have h: "pt_frames other (ps_mem s) \<subseteq> frame_held (ps_frames s)" by (rule pt_frames_held [OF pt_invD(2) [OF inv]])
  show "frame_inv (ps_frames s')" by (rule pt_invD(1) [OF clonedD(1) [OF c]])
  show "pt_frames other (ps_mem s) \<subseteq> frame_held (ps_frames s')" using h clonedD(2) [OF c] by blast
  show "\<forall>a. page_down a \<in> pt_frames other (ps_mem s) \<longrightarrow> ps_mem s' a = ps_mem s a" using h clonedD(4) [OF c] by blast
qed
text \<open>With as many free frames as the tree has, the copy goes through.\<close>

abbreviation free_count :: "pstate \<Rightarrow> nat" where
  "free_count u \<equiv> card (free_set (ps_frames u))"

lemma alloc_count:
  assumes "frame_inv fs" "0 < card (free_set fs)"
  obtains f fs' where "frame_alloc fs = (Some f, fs')" "card (free_set fs) = card (free_set fs') + 1"
proof -
  obtain r fs' where al: "frame_alloc fs = (r, fs')" by fastforce
  have ne: "free_set fs \<noteq> {}" using assms(2) by auto
  then obtain f where f: "r = Some f" using frame_alloc_None(2) [of fs fs'] al by (cases r) auto
  have al': "frame_alloc fs = (Some f, fs')" using al f by simp
  obtain i where i: "i \<in> free_set fs" "free_set fs' = free_set fs - {i}" by (rule frame_alloc_Some [OF assms(1) al'])
  have "finite (free_set fs)" by (simp add: free_set_def)
  then have "card (free_set fs) = card (free_set fs') + 1" using i assms(2) by (simp add: card_Diff_singleton)
  with al' that show thesis by blast
qed

lemma next_level_count:
  assumes "frame_inv (ps_frames u)" "0 < free_count u"
  obtains t u' where "next_level e u = Some (t, u')" "free_count u \<le> free_count u' + 1"
proof (cases "load64 e (ps_mem u) AND P_PRESENT = 0")
  case False
  then show thesis using that by (simp add: next_level_def)
next
  case True
  obtain f fs where "frame_alloc (ps_frames u) = (Some f, fs)" "card (free_set (ps_frames u)) = card (free_set fs) + 1"
    by (rule alloc_count [OF assms])
  with True that show thesis by (simp add: next_level_def Let_def)
qed

lemma map_page_count:
  assumes "frame_inv (ps_frames s)" "3 \<le> free_count s"
  shows "\<exists>s'. map_page root va f fl s = Some s' \<and> free_count s \<le> free_count s' + 3"
proof -
  have step: "\<exists>t u'. next_level e u = Some (t, u') \<and> frame_inv (ps_frames u') \<and> free_count u \<le> free_count u' + 1"
    if u: "frame_inv (ps_frames u)" "0 < free_count u" for e u
  proof -
    obtain t u' where n: "next_level e u = Some (t, u')" "free_count u \<le> free_count u' + 1" by (rule next_level_count [OF u])
    moreover have "frame_inv (ps_frames u')"
      using n(1) u(1) fa.alloc_inv [OF u(1)] by (auto simp: next_level_def Let_def split: if_splits option.splits prod.splits)
    ultimately show ?thesis by blast
  qed
  have "0 < free_count s" using assms(2) by simp
  then obtain t3 s3 where 3: "next_level (entry_ptr root (table_index 39 va)) s = Some (t3, s3)" "frame_inv (ps_frames s3)" "free_count s \<le> free_count s3 + 1"
    using step [OF assms(1)] by metis
  have "0 < free_count s3" using 3(3) assms(2) by simp
  then obtain t2 s2 where 2: "next_level (entry_ptr t3 (table_index 30 va)) s3 = Some (t2, s2)" "frame_inv (ps_frames s2)" "free_count s3 \<le> free_count s2 + 1"
    using step [OF 3(2)] by metis
  have "0 < free_count s2" using 2(3) 3(3) assms(2) by simp
  then obtain t1 s1 where 1: "next_level (entry_ptr t2 (table_index 21 va)) s2 = Some (t1, s1)" "free_count s2 \<le> free_count s1 + 1"
    using step [OF 2(2)] by metis
  show ?thesis using 1 2(1,3) 3(1,3) by (simp add: map_page_def)
qed

lemma each_entry_returns:
  assumes step: "\<And>i P u ok u'. i \<in> set is \<Longrightarrow> cloned src s dst P u \<Longrightarrow> walk (ps_mem u) dst q = Some dt \<Longrightarrow>
      P \<inter> below (q @ [i]) = {} \<Longrightarrow> f i u = Some (ok, u') \<Longrightarrow> clone_done src s dst (P \<union> below (q @ [i])) u ok u'"
    and ret: "\<And>i P u. i \<in> set is \<Longrightarrow> cloned src s dst P u \<Longrightarrow> walk (ps_mem u) dst q = Some dt \<Longrightarrow>
      P \<inter> below (q @ [i]) = {} \<Longrightarrow> c i \<le> free_count u \<Longrightarrow> \<exists>u'. f i u = Some (True, u') \<and> free_count u \<le> free_count u' + c i"
    and "cloned src s dst P u" "walk (ps_mem u) dst q = Some dt" "user_path q" "length q \<le> 3" "distinct is"
    and "\<And>i. i \<in> set is \<Longrightarrow> P \<inter> below (q @ [i]) = {}" and "sum_list (map c is) \<le> free_count u"
  shows "\<exists>u'. each_entry f is u = Some (True, u') \<and> free_count u \<le> free_count u' + sum_list (map c is)"
  using assms
proof (induction "is" arbitrary: P u)
  case (Cons i "is")
  obtain u1 where f: "f i u = Some (True, u1)" and c1: "free_count u \<le> free_count u1 + c i"
    using Cons.prems(2) [OF _ Cons.prems(3,4), of i] Cons.prems(8,9) by auto
  have "clone_done src s dst (P \<union> below (q @ [i])) u True u1"
    by (rule Cons.prems(1) [OF _ Cons.prems(3,4) _ f]) (use Cons.prems(8) in auto)
  then have c: "cloned src s dst (P \<union> below (q @ [i])) u1" and k: "tables_kept dst u u1" by (simp_all add: clone_done_def)
  have w: "walk (ps_mem u1) dst q = Some dt" using k Cons.prems(4-6) by (simp add: tables_kept_def)
  have "\<exists>u'. each_entry f is u1 = Some (True, u') \<and> free_count u1 \<le> free_count u' + sum_list (map c is)"
  proof (rule Cons.IH [OF _ _ c w Cons.prems(5,6)])
    show "distinct is" "sum_list (map c is) \<le> free_count u1" using Cons.prems(7,9) c1 by simp_all
    show "(P \<union> below (q @ [i])) \<inter> below (q @ [j]) = {}" if "j \<in> set is" for j
      using that Cons.prems(7) Cons.prems(8) [of j] below_disjoint [of i j q] by auto
  qed (use Cons.prems(1,2) in auto)
  then show ?case using f c1 by auto
qed simp

definition entry_cost :: "umem \<Rightarrow> nat \<Rightarrow> u64 \<Rightarrow> nat \<Rightarrow> nat" where
  "entry_cost m d t i = (if entry m t i AND P_PRESENT = 0 then 0 else length (release_order m 512 d (entry m t i AND ADDR_MASK)))"

lemma entry_cost_sum: "length (release_order m n (Suc d) t) = Suc (sum_list (map (entry_cost m d t) [0..<n]))"
  by (auto simp: length_concat entry_cost_def comp_def intro!: arg_cong [of _ _ sum_list] map_cong)

lemma clone_table_returns:
  assumes inv: "pt_inv src s" and c: "cloned src s dst P u"
    and q: "user_path (q @ [i])" "length q < 3" "walk (ps_mem s) src q = Some T" "walk (ps_mem u) dst q = Some dt"
    and disj: "P \<inter> below (q @ [i]) = {}" and cost: "entry_cost (ps_mem s) (Suc d) T i \<le> free_count u"
    and skip: "entry (ps_mem s) T i AND P_PRESENT = 0 \<Longrightarrow> r = Some (True, u)"
    and copy: "entry (ps_mem s) T i AND P_PRESENT \<noteq> 0 \<Longrightarrow>
      r = Option.bind (next_level (entry_ptr dt i) u) (\<lambda>(t, u1). each_entry (g t) [0..<512] u1)"
    and inner: "\<And>t j P u ok u'. j < 512 \<Longrightarrow> cloned src s dst P u \<Longrightarrow> walk (ps_mem u) dst (q @ [i]) = Some t \<Longrightarrow>
      walk (ps_mem s) src (q @ [i]) = Some (entry (ps_mem s) T i AND ADDR_MASK) \<Longrightarrow> P \<inter> below ((q @ [i]) @ [j]) = {} \<Longrightarrow>
      g t j u = Some (ok, u') \<Longrightarrow> clone_done src s dst (P \<union> below ((q @ [i]) @ [j])) u ok u'"
    and ret: "\<And>t j P u. j < 512 \<Longrightarrow> cloned src s dst P u \<Longrightarrow> walk (ps_mem u) dst (q @ [i]) = Some t \<Longrightarrow>
      walk (ps_mem s) src (q @ [i]) = Some (entry (ps_mem s) T i AND ADDR_MASK) \<Longrightarrow> P \<inter> below ((q @ [i]) @ [j]) = {} \<Longrightarrow>
      entry_cost (ps_mem s) d (entry (ps_mem s) T i AND ADDR_MASK) j \<le> free_count u \<Longrightarrow>
      \<exists>u'. g t j u = Some (True, u') \<and> free_count u \<le> free_count u' + entry_cost (ps_mem s) d (entry (ps_mem s) T i AND ADDR_MASK) j"
  shows "\<exists>u'. r = Some (True, u') \<and> free_count u \<le> free_count u' + entry_cost (ps_mem s) (Suc d) T i"
proof (cases "entry (ps_mem s) T i AND P_PRESENT = 0")
  case True
  then show ?thesis using skip by simp
next
  case False
  define child where "child = entry (ps_mem s) T i AND ADDR_MASK"
  have k: "entry_cost (ps_mem s) (Suc d) T i = Suc (sum_list (map (entry_cost (ps_mem s) d child) [0..<512]))"
    using False by (simp only: entry_cost_def [of _ "Suc d"] if_False entry_cost_sum child_def [symmetric])
  obtain t u1 where n: "next_level (entry_ptr dt i) u = Some (t, u1)" and cnt: "free_count u \<le> free_count u1 + 1"
    using next_level_count [OF pt_invD(1) [OF clonedD(1) [OF c]], of "entry_ptr dt i"] cost k by auto
  note g = next_level_grow [OF clonedD(1) [OF c] q(1,2,4) n]
  have c1: "cloned src s dst P u1" by (rule cloned_grow [OF c g(1)])
  have ws: "walk (ps_mem s) src (q @ [i]) = Some (entry (ps_mem s) T i AND ADDR_MASK)" by (simp add: walk_snoc q(3) False)
  have sub: "below ((q @ [i]) @ [j]) \<subseteq> below (q @ [i])" for j by (auto simp: below_def prefix_def)
  have "\<exists>u'. each_entry (g t) [0..<512] u1 = Some (True, u')
      \<and> free_count u1 \<le> free_count u' + sum_list (map (entry_cost (ps_mem s) d child) [0..<512])"
  proof (rule each_entry_returns [OF _ _ c1 g(2) q(1)])
    show "P \<inter> below ((q @ [i]) @ [j]) = {}" for j using disj sub by blast
    show "sum_list (map (entry_cost (ps_mem s) d child) [0..<512]) \<le> free_count u1" using cost k cnt by simp
    show "length (q @ [i]) \<le> 3" using q(2) by simp
  qed (use inner [OF _ _ _ ws] ret [OF _ _ _ ws, folded child_def] in \<open>simp_all del: upt_rec_numeral append_assoc\<close>)
  then show ?thesis using copy [OF False] n cnt k by (auto simp del: upt_rec_numeral)
qed
lemma clone_pte_returns:
  assumes inv: "pt_inv src s" and c: "cloned src s dst P u" and q: "user_path (q @ [i])" "walk (ps_mem s) src q = Some spt"
    and cost: "entry_cost (ps_mem s) 0 spt i \<le> free_count u"
  shows "\<exists>u'. clone_pte spt dpt i u = Some (True, u') \<and> free_count u \<le> free_count u' + entry_cost (ps_mem s) 0 spt i"
proof (cases "entry (ps_mem s) spt i AND P_PRESENT = 0")
  case True
  then show ?thesis by (simp add: clone_pte_def src_entry [OF inv c q])
next
  case False
  then have "0 < free_count u" using cost by (simp add: entry_cost_def)
  then obtain f fs where "frame_alloc (ps_frames u) = (Some f, fs)" "card (free_set (ps_frames u)) = card (free_set fs) + 1"
    by (rule alloc_count [OF pt_invD(1) [OF clonedD(1) [OF c]]])
  with False show ?thesis by (simp add: clone_pte_def src_entry [OF inv c q] Let_def entry_cost_def del: upt_rec_numeral)
qed

lemma clone_pde_returns:
  assumes inv: "pt_inv src s" and c: "cloned src s dst P u" and q: "user_path (q @ [i])" "length q = 2" "walk (ps_mem s) src q = Some spd"
    "walk (ps_mem u) dst q = Some dpd" and d: "P \<inter> below (q @ [i]) = {}" and cost: "entry_cost (ps_mem s) 1 spd i \<le> free_count u"
  shows "\<exists>u'. clone_pde spd dpd i u = Some (True, u') \<and> free_count u \<le> free_count u' + entry_cost (ps_mem s) 1 spd i"
  unfolding One_nat_def
proof (rule clone_table_returns [OF inv c q(1) _ q(3,4) d cost [unfolded One_nat_def], where g = "clone_pte (entry (ps_mem s) spd i AND ADDR_MASK)"])
  note se = src_entry [OF inv c q(1,3)]
  show "length q < 3" using q(2) by simp
  show "clone_pde spd dpd i u = Some (True, u)" if "entry (ps_mem s) spd i AND P_PRESENT = 0" using that by (simp add: clone_pde_def se)
  show "clone_pde spd dpd i u = Option.bind (next_level (entry_ptr dpd i) u)
      (\<lambda>(t, u1). each_entry (clone_pte (entry (ps_mem s) spd i AND ADDR_MASK) t) [0..<512] u1)"
    if "entry (ps_mem s) spd i AND P_PRESENT \<noteq> 0"
    using that entry_not_huge [OF pt_invD(2) [OF inv] q(1) _ q(3) that] q(2) by (simp add: clone_pde_def se Let_def del: upt_rec_numeral)
  fix t j P' v assume a: "j < 512" "cloned src s dst P' v" "walk (ps_mem v) dst (q @ [i]) = Some t"
    "walk (ps_mem s) src (q @ [i]) = Some (entry (ps_mem s) spd i AND ADDR_MASK)" "P' \<inter> below ((q @ [i]) @ [j]) = {}"
  have up: "user_path ((q @ [i]) @ [j])" using user_path_ext [OF q(1)] q(2) a(1) by simp
  show "clone_done src s dst (P' \<union> below ((q @ [i]) @ [j])) v ok' v'"
    if "clone_pte (entry (ps_mem s) spd i AND ADDR_MASK) t j v = Some (ok', v')" for ok' v'
    by (rule clone_pte_done [OF inv a(2) up _ a(4,3,5) that]) (use q(2) in simp)
  show "\<exists>u'. clone_pte (entry (ps_mem s) spd i AND ADDR_MASK) t j v = Some (True, u')
      \<and> free_count v \<le> free_count u' + entry_cost (ps_mem s) 0 (entry (ps_mem s) spd i AND ADDR_MASK) j"
    if "entry_cost (ps_mem s) 0 (entry (ps_mem s) spd i AND ADDR_MASK) j \<le> free_count v"
    by (rule clone_pte_returns [OF inv a(2) up a(4) that])
qed

lemma clone_pdpte_returns:
  assumes inv: "pt_inv src s" and c: "cloned src s dst P u" and q: "user_path (q @ [i])" "length q = 1" "walk (ps_mem s) src q = Some spd"
    "walk (ps_mem u) dst q = Some dpd" and d: "P \<inter> below (q @ [i]) = {}" and cost: "entry_cost (ps_mem s) (Suc 1) spd i \<le> free_count u"
  shows "\<exists>u'. clone_pdpte spd dpd i u = Some (True, u') \<and> free_count u \<le> free_count u' + entry_cost (ps_mem s) (Suc 1) spd i"
proof (rule clone_table_returns [OF inv c q(1) _ q(3,4) d cost, where g = "clone_pde (entry (ps_mem s) spd i AND ADDR_MASK)"])
  note se = src_entry [OF inv c q(1,3)]
  show "length q < 3" using q(2) by simp
  show "clone_pdpte spd dpd i u = Some (True, u)" if "entry (ps_mem s) spd i AND P_PRESENT = 0" using that by (simp add: clone_pdpte_def se)
  show "clone_pdpte spd dpd i u = Option.bind (next_level (entry_ptr dpd i) u)
      (\<lambda>(t, u1). each_entry (clone_pde (entry (ps_mem s) spd i AND ADDR_MASK) t) [0..<512] u1)"
    if "entry (ps_mem s) spd i AND P_PRESENT \<noteq> 0"
    using that entry_not_huge [OF pt_invD(2) [OF inv] q(1) _ q(3) that] q(2) by (simp add: clone_pdpte_def se Let_def del: upt_rec_numeral)
  fix t j P' v assume a: "j < 512" "cloned src s dst P' v" "walk (ps_mem v) dst (q @ [i]) = Some t"
    "walk (ps_mem s) src (q @ [i]) = Some (entry (ps_mem s) spd i AND ADDR_MASK)" "P' \<inter> below ((q @ [i]) @ [j]) = {}"
  have up: "user_path ((q @ [i]) @ [j])" "length (q @ [i]) = 2" using user_path_ext [OF q(1)] q(2) a(1) by simp_all
  show "clone_done src s dst (P' \<union> below ((q @ [i]) @ [j])) v ok' v'"
    if "clone_pde (entry (ps_mem s) spd i AND ADDR_MASK) t j v = Some (ok', v')" for ok' v'
    by (rule clone_pde_done [OF inv a(2) up a(4,3,5) that])
  show "\<exists>u'. clone_pde (entry (ps_mem s) spd i AND ADDR_MASK) t j v = Some (True, u')
      \<and> free_count v \<le> free_count u' + entry_cost (ps_mem s) 1 (entry (ps_mem s) spd i AND ADDR_MASK) j"
    if "entry_cost (ps_mem s) 1 (entry (ps_mem s) spd i AND ADDR_MASK) j \<le> free_count v"
    by (rule clone_pde_returns [OF inv a(2) up a(4,3,5) that])
qed

lemma clone_pml4e_returns:
  assumes inv: "pt_inv src s" and c: "cloned src s dst P u" and i: "i < 256" and w: "walk (ps_mem u) dst [] = Some dt"
    and d: "P \<inter> below ([] @ [i]) = {}" and cost: "entry_cost (ps_mem s) (Suc (Suc 1)) src i \<le> free_count u"
  shows "\<exists>u'. clone_pml4e src dst i u = Some (True, u') \<and> free_count u \<le> free_count u' + entry_cost (ps_mem s) (Suc (Suc 1)) src i"
proof -
  have q: "user_path ([] @ [i])" using i by (simp add: user_path_def)
  note se = src_entry [OF inv c q walk.simps(1)]
  have dt: "dt = dst" using w by simp
  show ?thesis
  proof (rule clone_table_returns [OF inv c q _ walk.simps(1) w d cost, where g = "clone_pdpte (entry (ps_mem s) src i AND ADDR_MASK)"])
    show "clone_pml4e src dst i u = Some (True, u)" if "entry (ps_mem s) src i AND P_PRESENT = 0" using that by (simp add: clone_pml4e_def se)
    show "clone_pml4e src dst i u = Option.bind (next_level (entry_ptr dt i) u)
        (\<lambda>(t, u1). each_entry (clone_pdpte (entry (ps_mem s) src i AND ADDR_MASK) t) [0..<512] u1)"
      if pr: "entry (ps_mem s) src i AND P_PRESENT \<noteq> 0"
    proof (cases "next_level (entry_ptr dst i) u")
      case (Some x)
      obtain t u1 where x: "x = (t, u1)" by (cases x)
      have "cloned src s dst P u1"
        using next_level_grow(1) [OF clonedD(1) [OF c] q _ walk.simps(1)] Some x by (intro cloned_grow [OF c]) simp
      from src_entry [OF inv this q walk.simps(1)] Some x pr dt show ?thesis
        by (simp add: clone_pml4e_def se del: upt_rec_numeral)
    qed (use pr dt in \<open>simp add: clone_pml4e_def se\<close>)
    fix t j P' v assume a: "j < 512" "cloned src s dst P' v" "walk (ps_mem v) dst ([] @ [i]) = Some t"
      "walk (ps_mem s) src ([] @ [i]) = Some (entry (ps_mem s) src i AND ADDR_MASK)" "P' \<inter> below (([] @ [i]) @ [j]) = {}"
    have up: "user_path (([] @ [i]) @ [j])" "length ([] @ [i]) = 1" using i a(1) by (auto simp: user_path_def)
    show "clone_done src s dst (P' \<union> below (([] @ [i]) @ [j])) v ok' v'"
      if "clone_pdpte (entry (ps_mem s) src i AND ADDR_MASK) t j v = Some (ok', v')" for ok' v'
      by (rule clone_pdpte_done [OF inv a(2) up a(4,3,5) that])
    show "\<exists>u'. clone_pdpte (entry (ps_mem s) src i AND ADDR_MASK) t j v = Some (True, u')
        \<and> free_count v \<le> free_count u' + entry_cost (ps_mem s) (Suc 1) (entry (ps_mem s) src i AND ADDR_MASK) j"
      if "entry_cost (ps_mem s) (Suc 1) (entry (ps_mem s) src i AND ADDR_MASK) j \<le> free_count v"
      by (rule clone_pdpte_returns [OF inv a(2) up a(4,3,5) that])
  qed simp
qed

lemma clone_user_pml4_returns:
  assumes inv: "pt_inv src s" and free: "card (pt_frames src (ps_mem s)) \<le> free_count s"
  shows "\<exists>dst s'. clone_user_pml4 src s = Some (Some dst, s')"
proof -
  let ?c = "\<lambda>i. entry_cost (ps_mem s) (Suc (Suc 1)) src i"
  note R = space_release_order [OF inv]
  have len: "Suc (sum_list (map ?c [0..<256])) \<le> free_count s"
    using free distinct_card [OF R(2)] by (simp only: R(1) entry_cost_sum)
  then have "0 < free_count s" by simp
  then obtain f fs where "frame_alloc (ps_frames s) = (Some f, fs)" "card (free_set (ps_frames s)) = card (free_set fs) + 1"
    by (rule alloc_count [OF pt_invD(1) [OF inv]])
  then obtain dst u where n: "new_user_pml4 s = Some (dst, u)" and cnt: "free_count s = free_count u + 1"
    by (simp add: new_user_pml4_def Let_def del: upt_rec_numeral)
  have c: "cloned src s dst {} u" by (rule new_space_cloned [OF inv n])
  have "\<exists>u'. each_entry (clone_pml4e src dst) [0..<256] u = Some (True, u') \<and> free_count u \<le> free_count u' + sum_list (map ?c [0..<256])"
  proof (rule each_entry_returns [OF _ _ c walk.simps(1)])
    show "sum_list (map ?c [0..<256]) \<le> free_count u" using len cnt by simp
  qed (use clone_pml4e_done [OF inv] clone_pml4e_returns [OF inv] in \<open>simp_all del: upt_rec_numeral append_Nil\<close>)
  then show ?thesis using n by (auto simp: clone_user_pml4_def simp del: upt_rec_numeral)
qed
section \<open>The abstract address space\<close>

text \<open>The calls of \<^verbatim>\<open>UserOps\<close> that change one page, as the glue installs them, and the map they act on: from
  page addresses to frames and flags.\<close>

datatype pt_op = PtMap u64 u64 prot | PtUnmap u64 | PtProtect u64 prot

fun pt_exec :: "u64 \<Rightarrow> pt_op \<Rightarrow> pstate \<Rightarrow> pstate option" where
  "pt_exec root (PtMap va f pr) s = arch_user_map root va f pr s"
| "pt_exec root (PtUnmap va) s = Some (unmap_page root va s)"
| "pt_exec root (PtProtect va pr) s = Some (protect_page root va pr s)"

fun op_va :: "pt_op \<Rightarrow> u64" where
  "op_va (PtMap va f pr) = va"
| "op_va (PtUnmap va) = va"
| "op_va (PtProtect va pr) = va"

text \<open>What the callers ensure: a frame to be mapped is in use and not yet part of the address space.\<close>

fun op_ok :: "u64 \<Rightarrow> pt_op \<Rightarrow> pstate \<Rightarrow> bool" where
  "op_ok root (PtMap va f pr) s \<longleftrightarrow> user_va va \<and> f \<in> frame_held (ps_frames s) \<and> f \<notin> pt_frames root (ps_mem s)"
| "op_ok root (PtUnmap va) s \<longleftrightarrow> user_va va"
| "op_ok root (PtProtect va pr) s \<longleftrightarrow> user_va va"

type_synonym aspace = "u64 \<rightharpoonup> u64 \<times> u64"

fun aspace_exec :: "pt_op \<Rightarrow> aspace \<Rightarrow> aspace" where
  "aspace_exec (PtMap va f pr) A = A(page_down va \<mapsto> (f, prot_flags pr))"
| "aspace_exec (PtUnmap va) A = A(page_down va := None)"
| "aspace_exec (PtProtect va pr) A = A(page_down va := map_option (\<lambda>(f, _). (f, prot_flags pr)) (A (page_down va)))"

definition space_abs :: "u64 \<Rightarrow> umem \<Rightarrow> aspace" where
  "space_abs root m page = (if user_va page \<and> page_aligned page then page_view root m page else None)"

lemma user_va_page_down [simp]: "user_va va \<Longrightarrow> user_va (page_down va)"
  by (simp add: user_va_def unat_page_down)

lemma va_path_page_down: "user_va va \<Longrightarrow> va_path (page_down va) = va_path va"
  by (simp add: va_path_eq page_aligned_down)

lemma space_abs_eqI:
  assumes "\<And>pg. user_va pg \<Longrightarrow> page_aligned pg \<Longrightarrow> page_view root m pg = A pg"
    "\<And>pg. \<not> (user_va pg \<and> page_aligned pg) \<Longrightarrow> A pg = None"
  shows "space_abs root m = A"
  using assms by (auto simp: space_abs_def fun_eq_iff)

lemma va_path_pages: "user_va a \<Longrightarrow> user_va b \<Longrightarrow> page_aligned a \<Longrightarrow> va_path a = va_path b \<longleftrightarrow> a = page_down b"
  by (simp add: va_path_eq page_aligned_down)

lemma pt_exec_ok:
  assumes inv: "pt_inv root s" and ok: "op_ok root op s" and ex: "pt_exec root op s = Some s'"
  shows "pt_inv root s' \<and> space_abs root (ps_mem s') = aspace_exec op (space_abs root (ps_mem s))"
proof (cases op)
  case (PtMap va f pr)
  then have a: "user_va va" "f \<in> frame_held (ps_frames s)" "f \<notin> pt_frames root (ps_mem s)"
    "map_page root va f (prot_flags pr) s = Some s'" using ok ex by (simp_all add: arch_user_map_def)
  note M = map_page_ok [OF inv a(1-3) prot_flags_ok a(4)]
  have "is_frame f" using pt_invD(3) [OF inv] a(2) by blast
  note parts = entry_parts [OF this prot_flags_ok(1), of pr]
  have "space_abs root (ps_mem s') = aspace_exec op (space_abs root (ps_mem s))"
    using a(1) parts M(3) va_path_user va_path_pages
    by (intro space_abs_eqI) (auto simp: PtMap space_abs_def page_view_def)
  with M(1) show ?thesis by blast
next
  case (PtUnmap va)
  then have a: "user_va va" "s' = unmap_page root va s" using ok ex by simp_all
  note U = unmap_page_ok [OF inv a(1)]
  have "space_abs root (ps_mem s') = aspace_exec op (space_abs root (ps_mem s))"
    using a U(2) va_path_user va_path_pages by (intro space_abs_eqI) (auto simp: PtUnmap space_abs_def page_view_def)
  with U(1) a(2) show ?thesis by blast
next
  case (PtProtect va pr)
  then have a: "user_va va" "s' = protect_page root va pr s" using ok ex by simp_all
  note U = protect_page_ok [OF inv a(1), where pr = pr]
  have view: "page_view root (ps_mem s') pg = (if pg = page_down va
      then map_option (\<lambda>(f, _). (f, prot_flags pr)) (page_view root (ps_mem s) pg) else page_view root (ps_mem s) pg)"
    if pg: "user_va pg" "page_aligned pg" for pg
  proof -
    have p: "pte (ps_mem s') root (va_path pg) = (if pg = page_down va
        then map_option (\<lambda>e. (e AND ADDR_MASK) OR prot_flags pr) (pte (ps_mem s) root (va_path pg)) else pte (ps_mem s) root (va_path pg))"
      unfolding a(2) U(3) [OF va_path_user [OF pg(1)]] va_path_pages [OF pg(1) a(1) pg(2)] ..
    have "is_frame (e AND ADDR_MASK)" if "pte (ps_mem s) root (va_path pg) = Some e" for e
      using leaf_not_table(1) [OF pt_invD(2) [OF inv] va_path_user [OF pg(1)] that] pt_invD(3) [OF inv] by blast
    note parts = entry_parts [OF this prot_flags_ok(1), of _ pr]
    show ?thesis using parts by (cases "pte (ps_mem s) root (va_path pg)") (auto simp: page_view_def p)
  qed
  have "space_abs root (ps_mem s') = aspace_exec op (space_abs root (ps_mem s))"
    using a(1) view by (intro space_abs_eqI) (auto simp: PtProtect space_abs_def)
  with U(1) a(2) show ?thesis by blast
qed

lemma pt_exec_others:
  assumes inv: "pt_inv root s" and ok: "op_ok root op s" and ex: "pt_exec root op s = Some s'"
    and other: "pt_inv other s" "pt_frames other (ps_mem s) \<inter> pt_frames root (ps_mem s) = {}"
  shows "same_space other s s'"
proof (cases op)
  case (PtMap va f pr)
  then have a: "user_va va" "f \<in> frame_held (ps_frames s)" "f \<notin> pt_frames root (ps_mem s)"
    "map_page root va f (prot_flags pr) s = Some s'" using ok ex by (simp_all add: arch_user_map_def)
  note M = map_page_ok [OF inv a(1-3) prot_flags_ok a(4)]
  show ?thesis by (rule local_same_space [OF M(1,2) other])
next
  case (PtUnmap va)
  then have a: "user_va va" "s' = unmap_page root va s" using ok ex by simp_all
  note U = unmap_page_ok [OF inv a(1)]
  have h: "pt_frames other (ps_mem s) \<subseteq> frame_held (ps_frames s)" by (rule pt_frames_held [OF pt_invD(2) [OF other(1)]])
  show ?thesis unfolding a(2)
  proof (rule other_same_space [OF other(1)])
    show "frame_inv (ps_frames (unmap_page root va s))" by (rule pt_invD(1) [OF U(1)])
    have "set_option (walk (ps_mem s) root (va_path va)) \<subseteq> pt_frames root (ps_mem s)"
      using va_path_user(1) [OF a(1)] by (auto simp: pt_frames_def)
    then show "pt_frames other (ps_mem s) \<subseteq> frame_held (ps_frames (unmap_page root va s))"
      unfolding U(3) using h other(2) by blast
    show "\<forall>a. page_down a \<in> pt_frames other (ps_mem s) \<longrightarrow> ps_mem (unmap_page root va s) a = ps_mem s a"
      using other(2) U(4) by (auto simp: pt_frames_alt [of root])
  qed
next
  case (PtProtect va pr)
  then have a: "user_va va" "s' = protect_page root va pr s" using ok ex by simp_all
  note U = protect_page_ok [OF inv a(1), where pr = pr]
  show ?thesis unfolding a(2) by (rule local_same_space [OF U(1,2) other])
qed

subsection \<open>Properties\<close>

text \<open>C5. The page tables implement a map from pages to frames and protections: mapping, unmapping and
  re-protecting a page of the user half each change that page and no other, keep the tables a tree of
  held frames, and leave every other address space (its pages, its protections and the bytes in them) as
  it was. With three free frames left none of the calls can panic.\<close>

theorem page_tables_refine_map:
  assumes "pt_inv root s" "op_ok root op s"
  shows "(\<forall>s'. pt_exec root op s = Some s' \<longrightarrow>
        pt_inv root s' \<and> space_abs root (ps_mem s') = aspace_exec op (space_abs root (ps_mem s))
      \<and> (\<forall>other. pt_inv other s \<and> pt_frames other (ps_mem s) \<inter> pt_frames root (ps_mem s) = {} \<longrightarrow> same_space other s s'))
    \<and> (3 \<le> card (free_set (ps_frames s)) \<longrightarrow> pt_exec root op s \<noteq> None)"
proof (intro conjI allI impI)
  show "pt_inv root s'" "space_abs root (ps_mem s') = aspace_exec op (space_abs root (ps_mem s))"
    if "pt_exec root op s = Some s'" for s' using pt_exec_ok [OF assms that] by blast+
  show "same_space other s s'" if "pt_exec root op s = Some s'"
    "pt_inv other s \<and> pt_frames other (ps_mem s) \<inter> pt_frames root (ps_mem s) = {}" for s' other
    using pt_exec_others [OF assms that(1)] that(2) by blast
  show "pt_exec root op s \<noteq> None" if "3 \<le> card (free_set (ps_frames s))"
    using map_page_count [OF pt_invD(1) [OF assms(1)] that, of root] by (cases op) (simp_all add: arch_user_map_def, blast)
qed

definition demo_ps :: pstate where
  "demo_ps = \<lparr>ps_frames = demo_frames, ps_mem = (\<lambda>_. 0), ps_kernel = 0x9000\<rparr>"

lemma demo_space:
  obtains root s where "new_user_pml4 demo_ps = Some (root, s)" "pt_inv root s" "0x8000 \<in> frame_held (ps_frames s)"
    "pt_frames root (ps_mem s) = {root}" "root \<noteq> 0x8000" "3 \<le> card (free_set (ps_frames s))"
proof -
  obtain r fs where al: "frame_alloc demo_frames = (r, fs)" by fastforce
  then obtain f where "r = Some f" using frame_alloc_None(2) [of demo_frames fs] by (cases r) (auto simp: demo_frames_sets)
  with al have al: "frame_alloc demo_frames = (Some f, fs)" by simp
  then obtain s where n: "new_user_pml4 demo_ps = Some (f, s)" and fs: "ps_frames s = fs"
    by (simp add: new_user_pml4_def demo_ps_def Let_def del: upt_rec_numeral)
  have inv: "frame_inv (ps_frames demo_ps)" by (simp add: demo_ps_def demo_frames_inv)
  note N = new_user_pml4_ok [OF inv n]
  have h: "0x8000 \<in> frame_held (ps_frames demo_ps)"
    by (simp add: demo_ps_def frame_held_def demo_frames_sets FRAME_SIZE_def)
  obtain i where "free_set fs = free_set demo_frames - {i}" by (rule frame_alloc_Some [OF demo_frames_inv al])
  then have "3 \<le> card (free_set fs)" by (simp add: demo_frames_sets card_Diff_singleton_if)
  moreover have "pt_frames f (ps_mem s) = {f}" using N(4) by (auto simp: pt_frames_def split: if_splits intro!: exI [of _ "[]"])
  ultimately show thesis using that [OF n N(1)] N(2,3) h fs by auto
qed

theorem page_tables_refine_map_witness:
  "\<exists>root s s'. new_user_pml4 demo_ps = Some (root, s) \<and> pt_exec root (PtMap 0x400123 0x8000 Rx) s = Some s'
     \<and> space_abs root (ps_mem s') = (space_abs root (ps_mem s))(0x400000 \<mapsto> (0x8000, prot_flags Rx))"
proof -
  obtain root s where s: "new_user_pml4 demo_ps = Some (root, s)" "pt_inv root s" "0x8000 \<in> frame_held (ps_frames s)"
    "pt_frames root (ps_mem s) = {root}" "root \<noteq> 0x8000" "3 \<le> card (free_set (ps_frames s))" by (rule demo_space)
  have ok: "op_ok root (PtMap 0x400123 0x8000 Rx) s" using s by (simp add: user_va_def)
  have pd: "page_down 0x400123 = 0x400000" by (simp add: page_down_def)
  show ?thesis using page_tables_refine_map [OF s(2) ok] s(1,6) pd by auto
qed

text \<open>C17. Tearing an address space down gives back exactly its frames, the pages, the tables of every level and
  the root, each once; every other address space stays as it was.\<close>

theorem free_user_pml4_exact:
  assumes "pt_inv root s"
  shows "frame_inv (ps_frames (free_user_pml4 root s))
    \<and> frame_held (ps_frames (free_user_pml4 root s)) = frame_held (ps_frames s) - pt_frames root (ps_mem s)
    \<and> (\<forall>other. pt_inv other s \<and> pt_frames other (ps_mem s) \<inter> pt_frames root (ps_mem s) = {}
        \<longrightarrow> same_space other s (free_user_pml4 root s))"
proof (intro conjI allI impI; (elim conjE)?)
  note F = free_user_pml4_ok [OF assms]
  show "frame_inv (ps_frames (free_user_pml4 root s))" by (rule F(1))
  show "frame_held (ps_frames (free_user_pml4 root s)) = frame_held (ps_frames s) - pt_frames root (ps_mem s)" by (rule F(2))
  show "same_space other s (free_user_pml4 root s)"
    if "pt_inv other s" "pt_frames other (ps_mem s) \<inter> pt_frames root (ps_mem s) = {}" for other
    using that pt_frames_held [OF pt_invD(2) [OF that(1)]] F by (intro other_same_space) auto
qed

theorem free_user_pml4_exact_witness:
  "\<exists>root s. new_user_pml4 demo_ps = Some (root, s) \<and> root \<in> frame_held (ps_frames s)
     \<and> root \<notin> frame_held (ps_frames (free_user_pml4 root s)) \<and> 0x8000 \<in> frame_held (ps_frames (free_user_pml4 root s))"
proof -
  obtain root s where s: "new_user_pml4 demo_ps = Some (root, s)" "pt_inv root s" "0x8000 \<in> frame_held (ps_frames s)"
    "pt_frames root (ps_mem s) = {root}" "root \<noteq> 0x8000" by (rule demo_space)
  show ?thesis using free_user_pml4_exact [OF s(2)] s pt_invD(5) [OF s(2)] by auto
qed

text \<open>C3. Forking copies the address space eagerly: the child has the parent's pages at the same addresses with the
  same protections and the same bytes, in frames taken for it, and the parent and every other address
  space stay as they were. As many free frames as the parent's tree has are enough. When the frames run
  out the call fails, and the frames taken so far stay in use although no caller learns their root.\<close>

theorem fork_copies_space:
  assumes "pt_inv src s"
  shows "(\<forall>res s'. clone_user_pml4 src s = Some (res, s') \<longrightarrow>
       (\<forall>other. pt_inv other s \<longrightarrow> same_space other s s')
     \<and> (case res of
          Some dst \<Rightarrow> pt_inv dst s' \<and> pt_frames dst (ps_mem s') \<inter> frame_held (ps_frames s) = {}
            \<and> (\<forall>va. user_va va \<longrightarrow> user_byte dst (ps_mem s') va = user_byte src (ps_mem s) va
                \<and> map_option snd (page_view dst (ps_mem s') va) = map_option snd (page_view src (ps_mem s) va))
        | None \<Rightarrow> frame_held (ps_frames s) \<subset> frame_held (ps_frames s')))
    \<and> (card (pt_frames src (ps_mem s)) \<le> card (free_set (ps_frames s)) \<longrightarrow> (\<exists>dst s'. clone_user_pml4 src s = Some (Some dst, s')))"
proof (intro conjI [OF _ impI [OF clone_user_pml4_returns [OF assms]]] allI impI, goal_cases)
  case (1 res s')
  from assms 1 show ?case
  proof (cases rule: clone_user_pml4_ok)
    case (copy dst)
    then show ?thesis using clonedD [OF copy(2)] cloned_views [OF assms copy(2)] cloned_others [OF copy(2)] by auto
  next
    case (out_of_frames dst P)
    note C = clonedD [OF out_of_frames(2)]
    have "dst \<in> pt_frames dst (ps_mem s')" by (auto simp: pt_frames_def intro!: exI [of _ "[]"])
    then have "dst \<notin> frame_held (ps_frames s)" "dst \<in> frame_held (ps_frames s')" using C(3) pt_invD(5) [OF C(1)] by auto
    then show ?thesis using out_of_frames(1) C(2) cloned_others [OF out_of_frames(2)] by auto
  qed
qed simp

theorem fork_copies_space_witness:
  "\<exists>root s dst s'. new_user_pml4 demo_ps = Some (root, s) \<and> clone_user_pml4 root s = Some (Some dst, s')
     \<and> pt_inv dst s' \<and> same_space root s s' \<and> dst \<noteq> root"
proof -
  obtain root s where s: "new_user_pml4 demo_ps = Some (root, s)" "pt_inv root s"
    "pt_frames root (ps_mem s) = {root}" "3 \<le> card (free_set (ps_frames s))" by (rule demo_space)
  then obtain dst s' where c: "clone_user_pml4 root s = Some (Some dst, s')"
    using fork_copies_space [OF s(2)] by auto
  then have d: "pt_inv dst s'" "pt_frames dst (ps_mem s') \<inter> frame_held (ps_frames s) = {}" "same_space root s s'"
    using fork_copies_space [OF s(2)] s(2) by auto
  have "dst \<in> pt_frames dst (ps_mem s')" by (auto simp: pt_frames_def intro!: exI [of _ "[]"])
  with d s pt_invD(5) [OF s(2)] c show ?thesis by blast
qed

end
