(* ===== verification/Elf.thy ===== *)
theory Elf
  imports Address_Space "HOL-Library.Monad_Syntax"
begin

unbundle bit_operations_syntax

text \<open>
  The static ELF loader (\<^verbatim>\<open>src/kernel-core/src/elf.rs\<close>): header and segment checks, then one frame for every page
  a segment covers, filled from all covering segments and mapped through the architecture's
  \<^verbatim>\<open>UserOps\<close>. The contract of those operations is the locale \<open>user_space\<close>; the loader is proved correct
  over it, and it is interpreted on the x86-64 page tables. \<^verbatim>\<open>usize\<close> has 64 bits, so
  \<^verbatim>\<open>to_usize\<close> never fails.
\<close>

named_theorems elf_defs

section \<open>The image\<close>

definition ELF_MAGIC :: "u8 list" where "ELF_MAGIC = [0x7F, 0x45, 0x4C, 0x46]"
definition PT_LOAD :: u32 where [elf_defs]: "PT_LOAD = 1"
definition ELF32_HEADER :: nat where [elf_defs]: "ELF32_HEADER = 52"
definition ELF64_HEADER :: nat where [elf_defs]: "ELF64_HEADER = 64"
definition PHENT32_SIZE :: nat where [elf_defs]: "PHENT32_SIZE = 32"
definition PHENT64_SIZE :: nat where [elf_defs]: "PHENT64_SIZE = 56"
definition EM_386 :: u16 where [elf_defs]: "EM_386 = 3"

record elf_header =
  eh_class32 :: bool
  eh_entry :: u64
  eh_phoff :: u64
  eh_phentsize :: nat
  eh_phnum :: nat

record phdr =
  p_type :: u32
  p_flags :: u32
  p_offset :: u64
  p_vaddr :: u64
  p_filesz :: u64
  p_memsz :: u64

text \<open>A loadable segment, the tuple \<^verbatim>\<open>Seg\<close> of the source.\<close>

record elf_seg =
  sg_vaddr :: u64
  sg_offset :: u64
  sg_filesz :: u64
  sg_memsz :: u64
  sg_prot :: prot

text \<open>Reads of the image; \<open>None\<close> is the panic of an index out of range.\<close>

definition byte_at :: "u8 list \<Rightarrow> nat \<Rightarrow> u8 option" where
  "byte_at b i = (if i < length b then Some (b ! i) else None)"

definition u16_at :: "u8 list \<Rightarrow> nat \<Rightarrow> nat option" where
  "u16_at b i = (if i + 2 \<le> length b then Some (unat (le16 (b ! i) (b ! (i + 1)))) else None)"

definition u32_at :: "u8 list \<Rightarrow> nat \<Rightarrow> u64 option" where
  "u32_at b i =
     (if i + 4 \<le> length b then Some (ucast (le32 (b ! i) (b ! (i + 1)) (b ! (i + 2)) (b ! (i + 3)))) else None)"

definition u64_at :: "u8 list \<Rightarrow> nat \<Rightarrow> u64 option" where
  "u64_at b i = (if i + 8 \<le> length b then Some (le64 (take 8 (drop i b))) else None)"

text \<open>A second layer of \<open>option\<close> is the result of the source: \<open>Some None\<close> refuses the image.\<close>

definition parse_header :: "u8 list \<Rightarrow> u16 \<Rightarrow> elf_header option option" where
  "parse_header elf machine = do {
     c \<leftarrow> byte_at elf 4;
     if c = 1 then
       if machine \<noteq> EM_386 then Some None
       else do {
         e \<leftarrow> u32_at elf 24; po \<leftarrow> u32_at elf 28; es \<leftarrow> u16_at elf 42; n \<leftarrow> u16_at elf 44;
         Some (Some \<lparr>eh_class32 = True, eh_entry = e, eh_phoff = po, eh_phentsize = es, eh_phnum = n\<rparr>) }
     else if c = 2 then
       if machine = EM_386 then Some None
       else do {
         e \<leftarrow> u64_at elf 24; po \<leftarrow> u64_at elf 32; es \<leftarrow> u16_at elf 54; n \<leftarrow> u16_at elf 56;
         Some (Some \<lparr>eh_class32 = False, eh_entry = e, eh_phoff = po, eh_phentsize = es, eh_phnum = n\<rparr>) }
     else Some None }"

definition parse_phdr :: "u8 list \<Rightarrow> bool \<Rightarrow> phdr option" where
  "parse_phdr ph class32 =
     (if class32 then do {
        ty \<leftarrow> u32_at ph 0; fl \<leftarrow> u32_at ph 24; off \<leftarrow> u32_at ph 4; va \<leftarrow> u32_at ph 8; fs \<leftarrow> u32_at ph 16; ms \<leftarrow> u32_at ph 20;
        Some \<lparr>p_type = ucast ty, p_flags = ucast fl, p_offset = off, p_vaddr = va, p_filesz = fs, p_memsz = ms\<rparr> }
      else do {
        ty \<leftarrow> u32_at ph 0; fl \<leftarrow> u32_at ph 4; off \<leftarrow> u64_at ph 8; va \<leftarrow> u64_at ph 16; fs \<leftarrow> u64_at ph 32; ms \<leftarrow> u64_at ph 40;
        Some \<lparr>p_type = ucast ty, p_flags = ucast fl, p_offset = off, p_vaddr = va, p_filesz = fs, p_memsz = ms\<rparr> })"

text \<open>The checks before an address space is made: the identification, then the program-header table.\<close>

definition elf_ident :: "u8 list \<Rightarrow> u16 \<Rightarrow> bool option" where
  "elf_ident elf machine =
     (if length elf < ELF32_HEADER \<or> take 4 elf \<noteq> ELF_MAGIC then Some False
      else do {
        c \<leftarrow> byte_at elf 4; en \<leftarrow> byte_at elf 5; ty \<leftarrow> u16_at elf 16; ma \<leftarrow> u16_at elf 18;
        Some (\<not> (c \<noteq> 1 \<and> c \<noteq> 2) \<and> en = 1 \<and> ty = 2 \<and> ma = unat machine
          \<and> \<not> (length elf < (if c = 1 then ELF32_HEADER else ELF64_HEADER) \<or> (c = 1) \<noteq> (machine = EM_386))) })"

definition elf_table_ok :: "u8 list \<Rightarrow> elf_header \<Rightarrow> bool" where
  "elf_table_ok elf hdr \<longleftrightarrow>
     \<not> (eh_phentsize hdr < (if eh_class32 hdr then PHENT32_SIZE else PHENT64_SIZE) \<or> eh_phnum hdr = 0)
   \<and> (case checked_mul (of_nat (eh_phnum hdr)) (of_nat (eh_phentsize hdr)) of
        None \<Rightarrow> False
      | Some sz \<Rightarrow>
         (case checked_add (eh_phoff hdr) sz of
            None \<Rightarrow> False
          | Some e \<Rightarrow> \<not> e > of_nat (length elf) \<and> \<not> eh_entry hdr \<ge> PHYS_OFFSET))"

definition elf_check :: "u8 list \<Rightarrow> u16 \<Rightarrow> elf_header option option" where
  "elf_check elf machine = do {
     ok \<leftarrow> elf_ident elf machine;
     if \<not> ok then Some None
     else do {
       ho \<leftarrow> parse_header elf machine;
       Some (case ho of None \<Rightarrow> None | Some hdr \<Rightarrow> if elf_table_ok elf hdr then Some hdr else None) } }"

definition seg_prot :: "u32 \<Rightarrow> prot" where
  "seg_prot fl = prot_of_rights (fl AND 2 \<noteq> 0) (fl AND 1 \<noteq> 0)"

text \<open>One program header: \<open>Some None\<close> refuses the image.\<close>

definition add_segment :: "u8 list \<Rightarrow> phdr \<Rightarrow> elf_seg list \<Rightarrow> elf_seg list option" where
  "add_segment elf ph segs =
     (if p_type ph \<noteq> PT_LOAD then Some segs
      else case checked_add (p_vaddr ph) (p_memsz ph) of
        None \<Rightarrow> None
      | Some ve \<Rightarrow>
          if ve > PHYS_OFFSET then None
          else case checked_add (p_offset ph) (p_filesz ph) of
            None \<Rightarrow> None
          | Some fe \<Rightarrow>
              if fe > of_nat (length elf) \<or> p_filesz ph > p_memsz ph then None
              else if 16 \<le> length segs then None
              else Some (segs @ [\<lparr>sg_vaddr = p_vaddr ph, sg_offset = p_offset ph, sg_filesz = p_filesz ph,
                                  sg_memsz = p_memsz ph, sg_prot = seg_prot (p_flags ph)\<rparr>]))"

fun collect_segs :: "u8 list \<Rightarrow> elf_header \<Rightarrow> nat list \<Rightarrow> elf_seg list \<Rightarrow> elf_seg list option option" where
  "collect_segs elf hdr [] segs = Some (Some segs)"
| "collect_segs elf hdr (i # is) segs =
     (let lo = unat (eh_phoff hdr) + i * eh_phentsize hdr in
      if length elf < lo + eh_phentsize hdr then None
      else do {
        ph \<leftarrow> parse_phdr (take (eh_phentsize hdr) (drop lo elf)) (eh_class32 hdr);
        case add_segment elf ph segs of
          None \<Rightarrow> Some None
        | Some segs' \<Rightarrow> collect_segs elf hdr is segs' })"

section \<open>Loading\<close>

text \<open>The operations of \<^verbatim>\<open>UserOps\<close> the loader calls. \<open>None\<close> is a panic of the architecture's code.\<close>

record user_ops =
  uo_machine :: u16
  uo_new_root :: "pstate \<Rightarrow> (u64 \<times> pstate) option"
  uo_map :: "u64 \<Rightarrow> u64 \<Rightarrow> u64 \<Rightarrow> prot \<Rightarrow> pstate \<Rightarrow> pstate option"

definition covers :: "elf_seg \<Rightarrow> u64 \<Rightarrow> bool" where
  "covers s page \<longleftrightarrow> sg_vaddr s < page + 4096 \<and> page < sg_vaddr s + sg_memsz s"

definition merged_prot :: "elf_seg list \<Rightarrow> u64 \<Rightarrow> prot \<Rightarrow> prot" where
  "merged_prot segs page = fold (\<lambda>s m. if covers s page then prot_union m (sg_prot s) else m) segs"

text \<open>The bytes of one segment in a page, into the frame \<open>dst\<close>; \<open>False\<close> when bytes are missing.\<close>

definition copy_segment :: "u8 list \<Rightarrow> u64 \<Rightarrow> u64 \<Rightarrow> elf_seg \<Rightarrow> umem \<Rightarrow> bool \<times> umem" where
  "copy_segment elf page dst s m =
     (if sg_filesz s = 0 \<or> \<not> covers s page then (True, m)
      else let start = max (sg_vaddr s) page;
               page_off = unat (start - page);
               seg_off = unat (start - sg_vaddr s) in
        if unat (sg_filesz s) \<le> seg_off then (True, m)
        else let copy = min (unat (sg_filesz s) - seg_off) (4096 - page_off);
                 src = unat (sg_offset s) + seg_off in
          if src + copy \<le> length elf
          then (True, write_bytes (dst + of_nat page_off) (take copy (drop src elf)) m)
          else (False, m))"

primrec fill_page :: "u8 list \<Rightarrow> u64 \<Rightarrow> u64 \<Rightarrow> elf_seg list \<Rightarrow> umem \<Rightarrow> bool \<times> umem" where
  "fill_page elf page dst [] m = (True, m)"
| "fill_page elf page dst (s # ss) m =
     (case copy_segment elf page dst s m of (ok, m') \<Rightarrow> if ok then fill_page elf page dst ss m' else (False, m'))"

definition load_page :: "user_ops \<Rightarrow> u8 list \<Rightarrow> elf_seg list \<Rightarrow> u64 \<Rightarrow> prot \<Rightarrow> u64 \<Rightarrow> pstate \<Rightarrow> (bool \<times> pstate) option" where
  "load_page ops elf segs root pr page s =
     (case frame_alloc (ps_frames s) of
        (None, fs) \<Rightarrow> Some (False, s\<lparr>ps_frames := fs\<rparr>)
      | (Some f, fs) \<Rightarrow>
          (case fill_page elf page f segs (zero_page f (ps_mem s)) of
             (ok, m) \<Rightarrow>
               if ok then Option.bind (uo_map ops root page f (merged_prot segs page pr) (s\<lparr>ps_frames := fs, ps_mem := m\<rparr>))
                            (\<lambda>s'. Some (True, s'))
               else Some (False, s\<lparr>ps_frames := fs, ps_mem := m\<rparr>)))"

fun load_pages :: "user_ops \<Rightarrow> u8 list \<Rightarrow> elf_seg list \<Rightarrow> u64 \<Rightarrow> nat \<Rightarrow> u64 list \<Rightarrow> u64 \<Rightarrow> pstate \<Rightarrow> (u64 option \<times> pstate) option" where
  "load_pages ops elf segs root si [] image_end s = Some (Some image_end, s)"
| "load_pages ops elf segs root si (page # ps) image_end s =
     (if \<exists>e\<in>set (take si segs). covers e page then load_pages ops elf segs root si ps image_end s
      else Option.bind (load_page ops elf segs root (sg_prot (segs ! si)) page s) (\<lambda>(ok, s').
             if ok then load_pages ops elf segs root si ps (max image_end (page + 4096)) s' else Some (None, s')))"

fun load_segs :: "user_ops \<Rightarrow> u8 list \<Rightarrow> elf_seg list \<Rightarrow> u64 \<Rightarrow> nat list \<Rightarrow> u64 \<Rightarrow> pstate \<Rightarrow> (u64 option \<times> pstate) option" where
  "load_segs ops elf segs root [] image_end s = Some (Some image_end, s)"
| "load_segs ops elf segs root (si # sis) image_end s =
     (let sg = segs ! si in
      Option.bind (page_walk (page_down (sg_vaddr sg)) (sg_vaddr sg + sg_memsz sg)) (\<lambda>pages.
      Option.bind (load_pages ops elf segs root si pages image_end s) (\<lambda>(r, s').
        case r of None \<Rightarrow> Some (None, s') | Some ie \<Rightarrow> load_segs ops elf segs root sis ie s')))"

definition load_full :: "user_ops \<Rightarrow> u8 list \<Rightarrow> pstate \<Rightarrow> ((u64 \<times> u64 \<times> u64) option \<times> pstate) option" where
  "load_full ops elf s = do {
     ho \<leftarrow> elf_check elf (uo_machine ops);
     case ho of
       None \<Rightarrow> Some (None, s)
     | Some hdr \<Rightarrow> do {
         (root, s) \<leftarrow> uo_new_root ops s;
         so \<leftarrow> collect_segs elf hdr [0..<eh_phnum hdr] [];
         case so of
           None \<Rightarrow> Some (None, s)
         | Some segs \<Rightarrow> do {
             (r, s) \<leftarrow> load_segs ops elf segs root [0..<length segs] 0 s;
             Some (map_option (\<lambda>ie. (eh_entry hdr, root, ie)) r, s) } } }"

definition elf_load :: "user_ops \<Rightarrow> u8 list \<Rightarrow> pstate \<Rightarrow> ((u64 \<times> u64) option \<times> pstate) option" where
  "elf_load ops elf s = map_option (\<lambda>(r, s'). (map_option (\<lambda>(e, root, _). (e, root)) r, s')) (load_full ops elf s)"
subsection \<open>What the checks guarantee\<close>

text \<open>A segment the loader accepts: inside the addresses below \<^verbatim>\<open>PHYS_OFFSET\<close>, its bytes inside the image.\<close>

definition seg_ok :: "u8 list \<Rightarrow> elf_seg \<Rightarrow> bool" where
  "seg_ok elf s \<longleftrightarrow> unat (sg_vaddr s) + unat (sg_memsz s) \<le> unat PHYS_OFFSET
     \<and> unat (sg_offset s) + unat (sg_filesz s) \<le> length elf \<and> sg_filesz s \<le> sg_memsz s"

definition header_ok :: "u8 list \<Rightarrow> elf_header \<Rightarrow> bool" where
  "header_ok elf h \<longleftrightarrow> (if eh_class32 h then 32 else 56) \<le> eh_phentsize h
     \<and> unat (eh_phoff h) + eh_phnum h * eh_phentsize h \<le> length elf \<and> eh_entry h < PHYS_OFFSET"

lemma checked_add_Some: "checked_add a b = Some c \<Longrightarrow> unat c = unat a + unat b"
  by (auto simp: checked_add_def unat_word_ariths split: if_splits)

lemma unat_of_nat_le: "unat (of_nat n :: u64) \<le> n"
  by (simp add: unat_of_nat)

lemma le_of_nat_length: "x \<le> (of_nat n :: u64) \<Longrightarrow> unat x \<le> n"
  using unat_of_nat_le [of n] by (simp add: word_le_nat_alt)

lemma add_segment_ok:
  assumes "add_segment elf ph segs = Some segs'" "\<forall>s\<in>set segs. seg_ok elf s" "length segs \<le> 16"
  shows "\<forall>s\<in>set segs'. seg_ok elf s" "length segs' \<le> 16"
  using assms unat_of_nat_le [of "length elf"]
  by (auto simp: add_segment_def seg_ok_def not_less word_le_nat_alt dest!: checked_add_Some split: if_splits option.splits)

lemma collect_segs_ok:
  assumes "collect_segs elf hdr is segs = Some (Some segs')" "\<forall>s\<in>set segs. seg_ok elf s" "length segs \<le> 16"
  shows "(\<forall>s\<in>set segs'. seg_ok elf s) \<and> length segs' \<le> 16"
  using assms
proof (induction "is" arbitrary: segs)
  case (Cons i "is")
  from Cons.prems(1) obtain ph s1 where a: "add_segment elf ph segs = Some s1" and c: "collect_segs elf hdr is s1 = Some (Some segs')"
    by (auto simp: Let_def bind_eq_Some_conv split: if_splits option.splits)
  from Cons.IH [OF c] add_segment_ok [OF a Cons.prems(2,3)] show ?case by blast
qed simp

lemma u16_at_le: "u16_at b i = Some n \<Longrightarrow> n < 2 ^ 16"
  using unsigned_less [of "le16 (b ! i) (b ! (i + 1))", where 'a = nat] by (auto simp: u16_at_def split: if_splits)

lemma parse_header_Some:
  assumes "parse_header elf machine = Some (Some h)"
  shows "eh_phnum h < 2 ^ 16" "eh_phentsize h < 2 ^ 16"
  using assms by (auto simp: parse_header_def bind_eq_Some_conv split: if_splits dest!: u16_at_le)

lemma elf_check_ok:
  assumes "elf_check elf machine = Some (Some h)"
  shows "header_ok elf h"
proof -
  have p: "parse_header elf machine = Some (Some h)" and t: "elf_table_ok elf h"
    using assms by (auto simp: elf_check_def bind_eq_Some_conv split: if_splits option.splits)
  have c: "(if eh_class32 h then PHENT32_SIZE else PHENT64_SIZE) \<le> eh_phentsize h" "eh_entry h < PHYS_OFFSET"
    "\<exists>sz e. checked_mul (of_nat (eh_phnum h)) (of_nat (eh_phentsize h)) = Some sz \<and> checked_add (eh_phoff h) sz = Some e
      \<and> e \<le> of_nat (length elf)"
    using t unfolding elf_table_ok_def not_less not_le by (simp_all add: not_less not_le split: option.splits)
  obtain sz e where sz: "checked_mul (of_nat (eh_phnum h)) (of_nat (eh_phentsize h)) = Some sz"
    and e: "checked_add (eh_phoff h) sz = Some e" "e \<le> of_nat (length elf)" using c(3) by blast
  have "unat (of_nat (eh_phnum h) :: u64) = eh_phnum h" "unat (of_nat (eh_phentsize h) :: u64) = eh_phentsize h"
    using parse_header_Some [OF p] by (simp_all add: unat_of_nat)
  then have "unat sz = eh_phnum h * eh_phentsize h"
    using sz by (auto simp: checked_mul_def unat_word_ariths split: if_splits)
  with checked_add_Some [OF e(1)] le_of_nat_length [OF e(2)] c(1,2) show ?thesis
    by (simp add: header_ok_def elf_defs split: if_splits)
qed

text \<open>No read of the image is out of range.\<close>

lemma elf_ident_total: "elf_ident elf machine \<noteq> None"
  by (auto simp: elf_ident_def byte_at_def u16_at_def elf_defs)

lemma elf_check_total: "elf_check elf machine \<noteq> None"
proof -
  have "\<exists>ho. parse_header elf machine = Some ho" if "elf_ident elf machine = Some True"
    using that by (auto simp: elf_ident_def parse_header_def byte_at_def u16_at_def u32_at_def u64_at_def elf_defs bind_eq_Some_conv
        split: if_splits)
  then show ?thesis using elf_ident_total [of elf machine] by (auto simp: elf_check_def)
qed

lemma parse_phdr_total: "(if c then 32 else 56) \<le> length ph \<Longrightarrow> \<exists>p. parse_phdr ph c = Some p"
  by (auto simp: parse_phdr_def u32_at_def u64_at_def split: if_splits)

lemma collect_segs_total:
  assumes "header_ok elf h" "\<forall>i\<in>set is. i < eh_phnum h"
  shows "collect_segs elf h is segs \<noteq> None"
  using assms(2)
proof (induction "is" arbitrary: segs)
  case (Cons i "is")
  let ?lo = "unat (eh_phoff h) + i * eh_phentsize h"
  have "i * eh_phentsize h + eh_phentsize h \<le> eh_phnum h * eh_phentsize h"
    using Cons.prems mult_le_mono1 [of "Suc i" "eh_phnum h" "eh_phentsize h"] by simp
  then have lo: "?lo + eh_phentsize h \<le> length elf" using assms(1) by (simp add: header_ok_def)
  then obtain p where "parse_phdr (take (eh_phentsize h) (drop ?lo elf)) (eh_class32 h) = Some p"
    using parse_phdr_total [of "eh_class32 h" "take (eh_phentsize h) (drop ?lo elf)"] assms(1)
    by (auto simp: header_ok_def)
  with lo Cons.IH Cons.prems show ?case by (auto simp: Let_def split: option.splits)
qed simp
subsection \<open>Pages of a segment\<close>

lemma page_walk_upto:
  assumes "page_aligned va" "unat end + 4096 \<le> 2 ^ 64"
  shows "\<exists>ps. page_walk va end = Some ps \<and> distinct ps \<and> set ps = {pg. page_aligned pg \<and> va \<le> pg \<and> pg < end}"
  using assms(1)
proof (induction "unat end - unat va" arbitrary: va rule: less_induct)
  case less
  show ?case
  proof (cases "va < end")
    case False
    then show ?thesis by (intro exI [of _ "[]"]) (auto simp: page_walk_empty not_less)
  next
    case True
    then have lt: "unat va < unat end" by (simp add: word_less_nat_alt)
    then have n: "unat (va + 0x1000) = unat va + 4096" using assms(2) by (simp add: unat_word_ariths)
    have "unat end - unat (va + 0x1000) < unat end - unat va" using n lt by simp
    then obtain ps where ps: "page_walk (va + 0x1000) end = Some ps" "distinct ps" "set ps = {pg. page_aligned pg \<and> va + 0x1000 \<le> pg \<and> pg < end}"
      using less.hyps [OF _ page_aligned_step [OF less.prems]] by blast
    have "va \<le> pg \<longleftrightarrow> pg = va \<or> va + 0x1000 \<le> pg" if "page_aligned pg" for pg
    proof (cases "va < pg")
      case True
      then show ?thesis using page_aligned_less(2) [OF less.prems that] n by (auto simp: word_le_nat_alt)
    qed (use n in \<open>auto simp: word_le_nat_alt word_less_nat_alt word_unat_eq_iff\<close>)
    then have "set (va # ps) = {pg. page_aligned pg \<and> va \<le> pg \<and> pg < end}"
      using ps(3) less.prems True by auto
    moreover have "va \<notin> set ps" using ps(3) n by (auto simp: word_le_nat_alt)
    ultimately show ?thesis using True ps(1,2) by (subst page_walk.simps) auto
  qed
qed

lemma phys_offset_unat: "unat PHYS_OFFSET = 0xFFFF800000000000"
  by (simp add: PHYS_OFFSET_def)

lemma seg_end:
  assumes "seg_ok elf s"
  shows "unat (sg_vaddr s + sg_memsz s) = unat (sg_vaddr s) + unat (sg_memsz s)" "unat (sg_vaddr s + sg_memsz s) + 4096 \<le> 2 ^ 64"
proof -
  show "unat (sg_vaddr s + sg_memsz s) = unat (sg_vaddr s) + unat (sg_memsz s)"
    using assms by (simp add: seg_ok_def phys_offset_unat unat_word_ariths)
  with assms show "unat (sg_vaddr s + sg_memsz s) + 4096 \<le> 2 ^ 64" by (simp add: seg_ok_def phys_offset_unat)
qed

lemma covers_nat:
  assumes "seg_ok elf s" "unat pg + 4096 < 2 ^ 64"
  shows "covers s pg \<longleftrightarrow> unat (sg_vaddr s) < unat pg + 4096 \<and> unat pg < unat (sg_vaddr s) + unat (sg_memsz s)"
  using seg_end(1) [OF assms(1)] assms(2) by (simp add: covers_def word_less_nat_alt unat_word_ariths)

lemma covers_bound: "seg_ok elf s \<Longrightarrow> covers s pg \<Longrightarrow> unat pg + 4096 < 2 ^ 64"
  using seg_end [of elf s] by (simp add: covers_def word_less_nat_alt)

lemma covers_walk:
  assumes "seg_ok elf s" "page_aligned pg"
  shows "covers s pg \<longleftrightarrow> page_down (sg_vaddr s) \<le> pg \<and> pg < sg_vaddr s + sg_memsz s"
proof (cases "pg < sg_vaddr s + sg_memsz s")
  case True
  then have b: "unat pg + 4096 < 2 ^ 64" using seg_end [OF assms(1)] by (simp add: word_less_nat_alt)
  have "unat (sg_vaddr s) < unat pg + 4096 \<longleftrightarrow> unat (page_down (sg_vaddr s)) \<le> unat pg"
  proof -
    obtain k where k: "unat pg = 4096 * k" using assms(2) unfolding page_aligned_dvd by (elim dvdE)
    show ?thesis unfolding unat_page_down k minus_mod_eq_mult_div
      using div_less_iff_less_mult [of 4096 "unat (sg_vaddr s)" "Suc k"] by (simp add: algebra_simps less_Suc_eq_le)
  qed
  then show ?thesis using covers_nat [OF assms(1) b] True seg_end(1) [OF assms(1)] by (simp add: word_le_nat_alt word_less_nat_alt)
qed (simp add: covers_def)

subsection \<open>Rights and bytes of a page\<close>

text \<open>The union of the rights of the covering segments.\<close>

definition page_prot :: "elf_seg list \<Rightarrow> u64 \<Rightarrow> prot" where
  "page_prot segs pg = prot_of_rights (\<exists>s\<in>set segs. covers s pg \<and> prot_write (sg_prot s)) (\<exists>s\<in>set segs. covers s pg \<and> prot_exec (sg_prot s))"

lemma merged_prot_rights:
  "prot_write (merged_prot segs pg pr) \<longleftrightarrow> prot_write pr \<or> (\<exists>s\<in>set segs. covers s pg \<and> prot_write (sg_prot s))"
  "prot_exec (merged_prot segs pg pr) \<longleftrightarrow> prot_exec pr \<or> (\<exists>s\<in>set segs. covers s pg \<and> prot_exec (sg_prot s))"
  unfolding merged_prot_def by (induction segs arbitrary: pr) auto

lemma merged_prot_eq:
  assumes "s \<in> set segs" "covers s pg" shows "merged_prot segs pg (sg_prot s) = page_prot segs pg"
  by (rule prot_eqI) (use assms in \<open>auto simp: merged_prot_rights page_prot_def\<close>)

text \<open>The byte of the image at an address: the last segment with file bytes there gives it, zero if none has.\<close>

fun image_byte :: "u8 list \<Rightarrow> elf_seg list \<Rightarrow> u64 \<Rightarrow> u8 \<Rightarrow> u8" where
  "image_byte elf [] a b = b"
| "image_byte elf (s # ss) a b =
     image_byte elf ss a
       (if unat (sg_vaddr s) \<le> unat a \<and> unat a < unat (sg_vaddr s) + unat (sg_filesz s)
        then elf ! (unat (sg_offset s) + (unat a - unat (sg_vaddr s))) else b)"

lemma write_window:
  assumes f: "is_frame f" and j: "j < 4096" and n: "d + length bs \<le> 4096"
  shows "write_bytes (f + of_nat d) bs m (f + of_nat j) = (if d \<le> j \<and> j < d + length bs then bs ! (j - d) else m (f + of_nat j))"
proof (cases "d \<le> j \<and> j < d + length bs")
  case True
  then obtain k where k: "j = d + k" by (auto dest: le_Suc_ex)
  have "write_bytes (f + of_nat d) bs m (f + of_nat d + of_nat k) = bs ! k" by (rule write_bytes_at) (use True n k in auto)
  then show ?thesis using True by (simp add: k add.assoc)
next
  case False
  have "f + of_nat d + of_nat i \<noteq> f + of_nat j" if "i < length bs" for i
  proof -
    have a: "d + i < 4096" and ne: "d + i \<noteq> j" using that n False by auto
    have "unat (f + of_nat (d + i)) \<noteq> unat (f + of_nat j)"
      unfolding is_frame_offset(1) [OF f a] is_frame_offset(1) [OF f j] using ne by simp
    then show ?thesis unfolding add.assoc of_nat_add by (rule contrapos_nn) (simp only:)
  qed
  then have "write_bytes (f + of_nat d) bs m (f + of_nat j) = m (f + of_nat j)" by (rule write_bytes_outside)
  with False show ?thesis by (simp only: if_False)
qed

text \<open>Where the file bytes of a segment lie in a page: \<open>d\<close> into the page, \<open>k\<close> into the segment, \<open>n\<close> of them.\<close>

lemma file_window:
  fixes v fs p :: nat
  assumes "d = max v p - p" "k = max v p - v" "n = min (fs - k) (4096 - d)" "k < fs" "v < p + 4096"
  shows "j < 4096 \<Longrightarrow> v \<le> p + j \<and> p + j < v + fs \<longleftrightarrow> d \<le> j \<and> j < d + n" (is "_ \<Longrightarrow> ?g1")
    and "d \<le> j \<Longrightarrow> k + (j - d) = p + j - v" and "d + n \<le> 4096" "k + n \<le> fs"
proof -
  have dk: "d + p = k + v" "d = 0 \<or> k = 0" "d < 4096" using assms(1,2,5) by (auto simp: max_def)
  then show "k + (j - d) = p + j - v" if "d \<le> j" using that by linarith
  show "d + n \<le> 4096" "k + n \<le> fs" using dk(3) assms(3,4) by linarith+
  assume j: "j < 4096"
  show ?g1
  proof (cases "d \<le> j")
    case True
    then obtain i where i: "j = d + i" by (auto dest: le_Suc_ex)
    have "i < n \<longleftrightarrow> k + i < fs" using i j assms(3) by (simp add: less_diff_conv add.commute)
    then show ?thesis using dk(1) i by auto
  next
    case False
    then have "k = 0" using dk(2) by auto
    with dk(1) False show ?thesis by auto
  qed
qed

lemma copy_segment_ok:
  assumes ok: "seg_ok elf s" and f: "is_frame f" and pg: "page_aligned pg" "unat pg + 4096 < 2 ^ 64"
  obtains m' where "copy_segment elf pg f s m = (True, m')" "\<forall>a. page_down a \<noteq> f \<longrightarrow> m' a = m a"
    "\<forall>j<4096. m' (f + of_nat j) =
      (if unat (sg_vaddr s) \<le> unat pg + j \<and> unat pg + j < unat (sg_vaddr s) + unat (sg_filesz s)
       then elf ! (unat (sg_offset s) + (unat pg + j - unat (sg_vaddr s))) else m (f + of_nat j))"
proof -
  let ?v = "unat (sg_vaddr s)" and ?fs = "unat (sg_filesz s)" and ?p = "unat pg"
  define d where "d = max ?v ?p - ?p"
  define k where "k = max ?v ?p - ?v"
  have le: "?fs \<le> unat (sg_memsz s)" using ok by (simp add: seg_ok_def word_le_nat_alt)
  note cn = covers_nat [OF ok pg(2)]
  have mx: "unat (max (sg_vaddr s) pg) = max ?v ?p" by (simp add: max_def word_le_nat_alt)
  have dk: "unat (max (sg_vaddr s) pg - pg) = d" "unat (max (sg_vaddr s) pg - sg_vaddr s) = k"
    using unat_sub [OF max.cobounded2 [of pg "sg_vaddr s"]] unat_sub [OF max.cobounded1 [of "sg_vaddr s" pg]]
    by (simp_all add: mx d_def k_def)
  show thesis
  proof (cases "?fs = 0 \<or> \<not> covers s pg \<or> ?fs \<le> k")
    case True
    then have c: "copy_segment elf pg f s m = (True, m)" by (auto simp: copy_segment_def Let_def dk unat_eq_zero)
    have no: "\<not> (?v \<le> ?p + j \<and> ?p + j < ?v + ?fs)" if "j < 4096" for j
      using True that cn le by (auto simp: k_def max_def split: if_splits)
    show thesis by (rule that [OF c]) (use no in auto)
  next
    case False
    define n where "n = min (?fs - k) (4096 - d)"
    define src where "src = unat (sg_offset s) + k"
    have fsz: "k < ?fs" "?v < ?p + 4096" using False cn by auto
    note w = file_window [OF d_def k_def n_def fsz]
    note dn = w(3,4)
    have sn: "src + n \<le> length elf" using ok dn by (simp add: seg_ok_def src_def)
    then have len: "length (take n (drop src elf)) = n" by simp
    have c: "copy_segment elf pg f s m = (True, write_bytes (f + of_nat d) (take n (drop src elf)) m)"
      using False sn by (simp add: copy_segment_def Let_def dk unat_eq_zero n_def src_def)
    have "elf ! (src + (j - d)) = elf ! (unat (sg_offset s) + (?p + j - ?v))" if "d \<le> j" for j
      using w(2) [OF that] by (simp add: src_def add.assoc)
    then show thesis
      by (intro that [OF c]) (use frame_bytes_outside [OF f] dn sn write_window [OF f] w(1) len in \<open>auto simp del: of_nat_add\<close>)
  qed
qed
lemma fill_page_ok:
  assumes "\<forall>s\<in>set ss. seg_ok elf s" "is_frame f" "page_aligned pg" "unat pg + 4096 < 2 ^ 64"
  shows "\<exists>m'. fill_page elf pg f ss m = (True, m') \<and> (\<forall>a. page_down a \<noteq> f \<longrightarrow> m' a = m a)
    \<and> (\<forall>j<4096. m' (f + of_nat j) = image_byte elf ss (pg + of_nat j) (m (f + of_nat j)))"
  using assms(1)
proof (induction ss arbitrary: m)
  case (Cons s ss)
  have ok: "seg_ok elf s" "\<forall>s\<in>set ss. seg_ok elf s" using Cons.prems by simp_all
  obtain m1 where m1: "copy_segment elf pg f s m = (True, m1)" "\<forall>a. page_down a \<noteq> f \<longrightarrow> m1 a = m a"
    "\<forall>j<4096. m1 (f + of_nat j) =
      (if unat (sg_vaddr s) \<le> unat pg + j \<and> unat pg + j < unat (sg_vaddr s) + unat (sg_filesz s)
       then elf ! (unat (sg_offset s) + (unat pg + j - unat (sg_vaddr s))) else m (f + of_nat j))"
    by (rule copy_segment_ok [OF ok(1) assms(2-4), where m = m])
  obtain m' where m': "fill_page elf pg f ss m1 = (True, m')" "\<forall>a. page_down a \<noteq> f \<longrightarrow> m' a = m1 a"
    "\<forall>j<4096. m' (f + of_nat j) = image_byte elf ss (pg + of_nat j) (m1 (f + of_nat j))"
    using Cons.IH [OF ok(2)] by blast
  have u: "unat (pg + of_nat j) = unat pg + j" if "j < 4096" for j
    using that assms(4) by (simp add: unat_word_ariths unat_of_nat)
  have "m' (f + of_nat j) = image_byte elf (s # ss) (pg + of_nat j) (m (f + of_nat j))" if "j < 4096" for j
    using m1(3) m'(3) that by (simp add: u [OF that])
  with m1(1,2) m'(1,2) show ?case by simp
qed simp

subsection \<open>The pages of an image\<close>

definition seg_pages :: "elf_seg \<Rightarrow> u64 set" where
  "seg_pages s = {pg. page_aligned pg \<and> covers s pg}"

lemma seg_walk:
  assumes "seg_ok elf s"
  obtains ps where "page_walk (page_down (sg_vaddr s)) (sg_vaddr s + sg_memsz s) = Some ps" "distinct ps" "set ps = seg_pages s"
  using page_walk_upto [OF page_down_aligned seg_end(2) [OF assms], of "sg_vaddr s"] covers_walk [OF assms]
  by (auto simp: seg_pages_def)

text \<open>The end of the image: the first address after the highest loaded page.\<close>

definition end_of :: "u64 set \<Rightarrow> u64 \<Rightarrow> bool" where
  "end_of D ie \<longleftrightarrow> (\<forall>pg\<in>D. pg + 4096 \<le> ie) \<and> (if D = {} then ie = 0 else \<exists>pg\<in>D. ie = pg + 4096)"

lemma end_of_empty: "end_of {} 0"
  by (simp add: end_of_def)

lemma end_of_insert: "end_of D ie \<Longrightarrow> end_of (insert pg D) (max ie (pg + 4096))"
  by (auto simp: end_of_def max_def split: if_splits)

section \<open>The contract of the architecture\<close>

text \<open>What the loader relies on: a fresh root maps nothing, mapping a page that is in use but not yet part of
  the address space changes that page only and keeps the bytes of the mapped pages, and an address
  space does not depend on frames taken after it was built.\<close>

locale user_space =
  fixes ops :: user_ops
    and inv :: "u64 \<Rightarrow> pstate \<Rightarrow> bool"
    and frames :: "u64 \<Rightarrow> pstate \<Rightarrow> u64 set"
    and view :: "u64 \<Rightarrow> pstate \<Rightarrow> u64 \<Rightarrow> (u64 \<times> u64) option"
    and rights :: "prot \<Rightarrow> u64"
    and user_page :: "u64 \<Rightarrow> bool"
  assumes inv_alloc: "inv root s \<Longrightarrow> frame_inv (ps_frames s)"
    and inv_frames: "inv root s \<Longrightarrow> frames root s \<subseteq> frame_held (ps_frames s)"
    and new_root_empty: "frame_inv (ps_frames s) \<Longrightarrow> uo_new_root ops s = Some (root, s') \<Longrightarrow>
      inv root s' \<and> (\<forall>pg. user_page pg \<longrightarrow> view root s' pg = None)"
    and map_one: "inv root s \<Longrightarrow> user_page pg \<Longrightarrow> f \<in> frame_held (ps_frames s) \<Longrightarrow> f \<notin> frames root s \<Longrightarrow>
      uo_map ops root pg f pr s = Some s' \<Longrightarrow>
      inv root s' \<and> (\<forall>q. user_page q \<longrightarrow> view root s' q = (if q = pg then Some (f, rights pr) else view root s q))
      \<and> (\<forall>q g r a. user_page q \<longrightarrow> view root s' q = Some (g, r) \<longrightarrow> page_down a = g \<longrightarrow> ps_mem s' a = ps_mem s a)"
    and view_frame: "inv root s \<Longrightarrow> user_page q \<Longrightarrow> view root s q = Some (g, r) \<Longrightarrow> g \<in> frames root s"
    and fresh_frame: "inv root s \<Longrightarrow> frame_inv (ps_frames s') \<Longrightarrow> frame_held (ps_frames s) \<subseteq> frame_held (ps_frames s') \<Longrightarrow>
      (\<forall>a. page_down a \<in> frame_held (ps_frames s) \<longrightarrow> ps_mem s' a = ps_mem s a) \<Longrightarrow>
      inv root s' \<and> frames root s' = frames root s \<and> (\<forall>q. user_page q \<longrightarrow> view root s' q = view root s q)"
    and map_enough: "inv root s \<Longrightarrow> user_page pg \<Longrightarrow> 3 \<le> card (free_set (ps_frames s)) \<Longrightarrow>
      \<exists>s'. uo_map ops root pg f pr s = Some s' \<and> card (free_set (ps_frames s)) \<le> card (free_set (ps_frames s')) + 3"
    and new_root_enough: "frame_inv (ps_frames s) \<Longrightarrow> 1 \<le> card (free_set (ps_frames s)) \<Longrightarrow>
      \<exists>root s'. uo_new_root ops s = Some (root, s') \<and> card (free_set (ps_frames s)) = card (free_set (ps_frames s')) + 1"
    and user_page_aligned: "user_page pg \<Longrightarrow> page_aligned pg"
begin

text \<open>The pages in \<open>D\<close>, and no others, are loaded.\<close>

definition loaded :: "u8 list \<Rightarrow> elf_seg list \<Rightarrow> u64 \<Rightarrow> u64 set \<Rightarrow> pstate \<Rightarrow> bool" where
  "loaded elf segs root D s \<longleftrightarrow> inv root s \<and>
     (\<forall>pg. user_page pg \<longrightarrow>
        (if pg \<in> D then \<exists>f. view root s pg = Some (f, rights (page_prot segs pg)) \<and> is_frame f
            \<and> (\<forall>j<4096. ps_mem s (f + of_nat j) = image_byte elf segs (pg + of_nat j) 0)
         else view root s pg = None))"

lemma loadedD:
  assumes "loaded elf segs root D s" "user_page pg"
  shows "pg \<in> D \<Longrightarrow> \<exists>f. view root s pg = Some (f, rights (page_prot segs pg)) \<and> is_frame f
      \<and> (\<forall>j<4096. ps_mem s (f + of_nat j) = image_byte elf segs (pg + of_nat j) 0)"
    and "pg \<notin> D \<Longrightarrow> view root s pg = None"
  using assms by (auto simp: loaded_def)

lemma load_page_body:
  assumes segs: "\<forall>s\<in>set segs. seg_ok elf s" and sg: "sg \<in> set segs" "covers sg pg"
    and inv: "inv root s" and pg: "user_page pg" and al: "frame_alloc (ps_frames s) = (Some f, fs)"
  obtains m where "is_frame f" "f \<notin> frame_held (ps_frames s)" "f \<in> frame_held fs"
    "load_page ops elf segs root (sg_prot sg) pg s =
       Option.bind (uo_map ops root pg f (page_prot segs pg) (s\<lparr>ps_frames := fs, ps_mem := m\<rparr>)) (\<lambda>s'. Some (True, s'))"
    "inv root (s\<lparr>ps_frames := fs, ps_mem := m\<rparr>)" "frames root (s\<lparr>ps_frames := fs, ps_mem := m\<rparr>) = frames root s"
    "\<forall>q. user_page q \<longrightarrow> view root (s\<lparr>ps_frames := fs, ps_mem := m\<rparr>) q = view root s q"
    "\<forall>a. page_down a \<noteq> f \<longrightarrow> m a = ps_mem s a" "\<forall>j<4096. m (f + of_nat j) = image_byte elf segs (pg + of_nat j) 0"
proof -
  have f: "f \<notin> frame_held (ps_frames s)" "frame_held fs = insert f (frame_held (ps_frames s))" "frame_inv fs"
    using fa.alloc_fresh [OF inv_alloc [OF inv] al] fa.alloc_inv [OF inv_alloc [OF inv]] al by auto
  then have ff: "is_frame f" using held_frame [OF f(3)] by simp
  have b: "unat pg + 4096 < 2 ^ 64" using covers_bound [OF _ sg(2)] segs sg(1) by blast
  obtain m where m: "fill_page elf pg f segs (zero_page f (ps_mem s)) = (True, m)"
    "\<forall>a. page_down a \<noteq> f \<longrightarrow> m a = zero_page f (ps_mem s) a"
    "\<forall>j<4096. m (f + of_nat j) = image_byte elf segs (pg + of_nat j) (zero_page f (ps_mem s) (f + of_nat j))"
    using fill_page_ok [OF segs ff user_page_aligned [OF pg] b] by blast
  let ?s = "s\<lparr>ps_frames := fs, ps_mem := m\<rparr>"
  have out: "m a = ps_mem s a" if "page_down a \<noteq> f" for a using m(2) zero_outside [OF ff that] that by simp
  have lp: "load_page ops elf segs root (sg_prot sg) pg s = Option.bind (uo_map ops root pg f (page_prot segs pg) ?s) (\<lambda>s'. Some (True, s'))"
    by (simp add: load_page_def al m(1) merged_prot_eq [OF sg])
  have bytes: "\<forall>j<4096. m (f + of_nat j) = image_byte elf segs (pg + of_nat j) 0" using m(3) by (simp add: zero_inside)
  have kept: "\<forall>a. page_down a \<in> frame_held (ps_frames s) \<longrightarrow> ps_mem ?s a = ps_mem s a" using f(1) by (auto intro!: out)
  have "frame_inv (ps_frames ?s)" "frame_held (ps_frames s) \<subseteq> frame_held (ps_frames ?s)" using f by auto
  from fresh_frame [OF inv this kept] that [OF ff f(1) _ lp _ _ _ _ bytes] f(2) out show thesis by blast
qed

lemma load_page_loaded:
  assumes segs: "\<forall>s\<in>set segs. seg_ok elf s" and sg: "sg \<in> set segs" "covers sg pg"
    and l: "loaded elf segs root D s" and pg: "user_page pg"
    and lp: "load_page ops elf segs root (sg_prot sg) pg s = Some (True, s')"
  shows "loaded elf segs root (insert pg D) s'"
proof -
  have inv: "inv root s" using l by (simp add: loaded_def)
  obtain f fs where al: "frame_alloc (ps_frames s) = (Some f, fs)"
    using lp by (cases "frame_alloc (ps_frames s)") (auto simp: load_page_def split: option.splits)
  obtain m where ff: "is_frame f" "f \<notin> frame_held (ps_frames s)" "f \<in> frame_held fs"
    and b: "load_page ops elf segs root (sg_prot sg) pg s =
       Option.bind (uo_map ops root pg f (page_prot segs pg) (s\<lparr>ps_frames := fs, ps_mem := m\<rparr>)) (\<lambda>s'. Some (True, s'))"
    and k: "inv root (s\<lparr>ps_frames := fs, ps_mem := m\<rparr>)" "frames root (s\<lparr>ps_frames := fs, ps_mem := m\<rparr>) = frames root s"
    "\<forall>q. user_page q \<longrightarrow> view root (s\<lparr>ps_frames := fs, ps_mem := m\<rparr>) q = view root s q"
    and m: "\<forall>a. page_down a \<noteq> f \<longrightarrow> m a = ps_mem s a" "\<forall>j<4096. m (f + of_nat j) = image_byte elf segs (pg + of_nat j) 0"
    by (rule load_page_body [OF segs sg inv pg al])
  have mp: "uo_map ops root pg f (page_prot segs pg) (s\<lparr>ps_frames := fs, ps_mem := m\<rparr>) = Some s'"
    using lp b by (auto simp: bind_eq_Some_conv)
  have fr: "f \<notin> frames root s" using inv_frames [OF inv] ff(2) by blast
  have M: "inv root s'" "\<forall>q. user_page q \<longrightarrow> view root s' q = (if q = pg then Some (f, rights (page_prot segs pg)) else view root s q)"
    "\<forall>q g r a. user_page q \<longrightarrow> view root s' q = Some (g, r) \<longrightarrow> page_down a = g \<longrightarrow> ps_mem s' a = m a"
    using map_one [OF k(1) pg _ _ mp] ff(3) fr k(2,3) by auto
  have bytes: "ps_mem s' (g + of_nat j) = m (g + of_nat j)" if "user_page q" "view root s' q = Some (g, r)" "is_frame g" "j < 4096" for q g r j
    using M(3) that is_frame_offset(2) [OF that(3,4)] by blast
  show ?thesis unfolding loaded_def
  proof (intro conjI allI impI)
    show "inv root s'" by (rule M(1))
    fix q assume q: "user_page q"
    show "if q \<in> insert pg D then \<exists>g. view root s' q = Some (g, rights (page_prot segs q)) \<and> is_frame g
            \<and> (\<forall>j<4096. ps_mem s' (g + of_nat j) = image_byte elf segs (q + of_nat j) 0)
         else view root s' q = None"
    proof (cases "q = pg")
      case True
      then show ?thesis using M(2) pg m(2) ff(1) bytes [OF pg _ ff(1)] by simp
    next
      case False
      then have v: "view root s' q = view root s q" using M(2) q by simp
      show ?thesis
      proof (cases "q \<in> D")
        case True
        then obtain g where g: "view root s q = Some (g, rights (page_prot segs q))" "is_frame g"
          "\<forall>j<4096. ps_mem s (g + of_nat j) = image_byte elf segs (q + of_nat j) 0" using loadedD(1) [OF l q] by blast
        have "g \<noteq> f" using view_frame [OF inv q g(1)] inv_frames [OF inv] ff(2) by blast
        then have "ps_mem s' (g + of_nat j) = ps_mem s (g + of_nat j)" if "j < 4096" for j
          using bytes [OF q _ g(2) that] v g(1) m(1) is_frame_offset(2) [OF g(2) that] by simp
        with True v g show ?thesis by simp
      qed (use False v loadedD(2) [OF l q] in simp)
    qed
  qed
qed
lemma load_pages_loaded:
  assumes segs: "\<forall>s\<in>set segs. seg_ok elf s" "si < length segs"
    and "\<forall>pg\<in>set ps. covers (segs ! si) pg \<and> user_page pg"
    and "\<forall>pg\<in>set ps. (\<exists>e\<in>set (take si segs). covers e pg) \<longrightarrow> pg \<in> D"
    and "loaded elf segs root D s" "end_of D ie"
    and "load_pages ops elf segs root si ps ie s = Some (Some ie', s')"
  shows "loaded elf segs root (D \<union> set ps) s' \<and> end_of (D \<union> set ps) ie'"
  using assms(3-)
proof (induction ps arbitrary: D ie s)
  case (Cons pg ps)
  show ?case
  proof (cases "\<exists>e\<in>set (take si segs). covers e pg")
    case True
    then have "D \<union> set (pg # ps) = D \<union> set ps" using Cons.prems(2) by auto
    with Cons.IH [of D s ie] Cons.prems True show ?thesis by auto
  next
    case False
    then obtain s1 where lp: "load_page ops elf segs root (sg_prot (segs ! si)) pg s = Some (True, s1)"
      and rest: "load_pages ops elf segs root si ps (max ie (pg + 4096)) s1 = Some (Some ie', s')"
      using Cons.prems(5) by (auto simp: bind_eq_Some_conv split: if_splits)
    have "loaded elf segs root (insert pg D) s1"
      by (rule load_page_loaded [OF segs(1) nth_mem [OF segs(2)] _ Cons.prems(3) _ lp]) (use Cons.prems(1) in auto)
    from Cons.IH [OF _ _ this end_of_insert [OF Cons.prems(4)] rest] Cons.prems(1,2)
    have "loaded elf segs root (insert pg D \<union> set ps) s' \<and> end_of (insert pg D \<union> set ps) ie'" by auto
    then show ?thesis by simp
  qed
qed simp

lemma load_segs_loaded:
  assumes segs: "\<forall>s\<in>set segs. seg_ok elf s" "\<forall>s\<in>set segs. \<forall>pg\<in>seg_pages s. user_page pg"
    and "sis = [k..<length segs]"
    and "loaded elf segs root (\<Union>e\<in>set (take k segs). seg_pages e) s" "end_of (\<Union>e\<in>set (take k segs). seg_pages e) ie"
    and "load_segs ops elf segs root sis ie s = Some (Some ie', s')"
  shows "loaded elf segs root (\<Union>e\<in>set segs. seg_pages e) s' \<and> end_of (\<Union>e\<in>set segs. seg_pages e) ie'"
  using assms(3-)
proof (induction sis arbitrary: k ie s)
  case Nil
  have "[k..<length segs] = []" using Nil(1) by (rule sym)
  then have "length segs \<le> k" by (auto simp: upt_eq_Nil_conv)
  with Nil show ?case by simp
next
  case (Cons si sis)
  have "[k..<length segs] = si # sis" using Cons.prems(1) by simp
  then have k: "k < length segs" "si = k" "sis = [Suc k..<length segs]" by (auto simp: upt_eq_Cons_conv)
  let ?D = "\<Union>e\<in>set (take k segs). seg_pages e"
  have sg: "segs ! k \<in> set segs" using k(1) by simp
  obtain ps where ps: "page_walk (page_down (sg_vaddr (segs ! k))) (sg_vaddr (segs ! k) + sg_memsz (segs ! k)) = Some ps"
    "set ps = seg_pages (segs ! k)" using seg_walk [OF bspec [OF segs(1) sg]] by metis
  obtain ie1 s1 where lp: "load_pages ops elf segs root k ps ie s = Some (Some ie1, s1)"
    and rest: "load_segs ops elf segs root sis ie1 s1 = Some (Some ie', s')"
    using Cons.prems(4) ps(1) k(2) by (auto simp: Let_def bind_eq_Some_conv split: option.splits)
  have "loaded elf segs root (?D \<union> set ps) s1 \<and> end_of (?D \<union> set ps) ie1"
    by (rule load_pages_loaded [OF segs(1) k(1) _ _ Cons.prems(2,3) lp]) (use ps(2) segs(2) sg in \<open>auto simp: seg_pages_def\<close>)
  moreover have "?D \<union> set ps = (\<Union>e\<in>set (take (Suc k) segs). seg_pages e)"
    using k(1) ps(2) by (auto simp: take_Suc_conv_app_nth)
  ultimately show ?case using Cons.IH [of "Suc k" s1 ie1] rest k by auto
qed

text \<open>Four frames for every page are enough: the page and at most three tables.\<close>

lemma load_page_returns:
  assumes segs: "\<forall>s\<in>set segs. seg_ok elf s" and sg: "sg \<in> set segs" "covers sg pg"
    and inv: "inv root s" and pg: "user_page pg" and free: "4 \<le> free_count s"
  shows "\<exists>s'. load_page ops elf segs root (sg_prot sg) pg s = Some (True, s') \<and> free_count s \<le> free_count s' + 4"
proof -
  have "0 < card (free_set (ps_frames s))" using free by simp
  then obtain f fs where al: "frame_alloc (ps_frames s) = (Some f, fs)" and cnt: "card (free_set (ps_frames s)) = card (free_set fs) + 1"
    by (rule alloc_count [OF inv_alloc [OF inv]])
  obtain m where b: "load_page ops elf segs root (sg_prot sg) pg s =
       Option.bind (uo_map ops root pg f (page_prot segs pg) (s\<lparr>ps_frames := fs, ps_mem := m\<rparr>)) (\<lambda>s'. Some (True, s'))"
    and k: "inv root (s\<lparr>ps_frames := fs, ps_mem := m\<rparr>)"
    by (rule load_page_body [OF segs sg inv pg al])
  obtain s' where "uo_map ops root pg f (page_prot segs pg) (s\<lparr>ps_frames := fs, ps_mem := m\<rparr>) = Some s'" "card (free_set fs) \<le> free_count s' + 3"
    using map_enough [OF k pg, of f "page_prot segs pg"] free cnt by auto
  with b cnt show ?thesis by auto
qed

lemma load_pages_returns:
  assumes segs: "\<forall>s\<in>set segs. seg_ok elf s" "si < length segs"
    and "\<forall>pg\<in>set ps. covers (segs ! si) pg \<and> user_page pg"
    and "\<forall>pg\<in>set ps. (\<exists>e\<in>set (take si segs). covers e pg) \<longrightarrow> pg \<in> D"
    and "loaded elf segs root D s" and "4 * length ps \<le> free_count s"
  shows "\<exists>ie' s'. load_pages ops elf segs root si ps ie s = Some (Some ie', s') \<and> free_count s \<le> free_count s' + 4 * length ps"
  using assms(3-)
proof (induction ps arbitrary: D ie s)
  case (Cons pg ps)
  show ?case
  proof (cases "\<exists>e\<in>set (take si segs). covers e pg")
    case True
    with Cons.IH [of D s ie] Cons.prems show ?thesis by fastforce
  next
    case False
    have pg: "covers (segs ! si) pg" "user_page pg" using Cons.prems(1) by auto
    have inv: "inv root s" using Cons.prems(3) by (simp add: loaded_def)
    obtain s1 where lp: "load_page ops elf segs root (sg_prot (segs ! si)) pg s = Some (True, s1)" and cnt: "free_count s \<le> free_count s1 + 4"
      using load_page_returns [OF segs(1) nth_mem [OF segs(2)] pg(1) inv pg(2)] Cons.prems(4) by auto
    have "loaded elf segs root (insert pg D) s1" by (rule load_page_loaded [OF segs(1) nth_mem [OF segs(2)] pg(1) Cons.prems(3) pg(2) lp])
    from Cons.IH [OF _ _ this, of "max ie (pg + 4096)"] Cons.prems(1,2,4) cnt
    obtain ie' s' where "load_pages ops elf segs root si ps (max ie (pg + 4096)) s1 = Some (Some ie', s')" "free_count s1 \<le> free_count s' + 4 * length ps"
      by auto
    with False lp cnt show ?thesis by auto
  qed
qed simp

lemma load_segs_returns:
  assumes segs: "\<forall>s\<in>set segs. seg_ok elf s" "\<forall>s\<in>set segs. \<forall>pg\<in>seg_pages s. user_page pg"
    and "sis = [k..<length segs]"
    and "loaded elf segs root (\<Union>e\<in>set (take k segs). seg_pages e) s" "end_of (\<Union>e\<in>set (take k segs). seg_pages e) ie"
    and "4 * sum_list (map (\<lambda>i. card (seg_pages (segs ! i))) sis) \<le> free_count s"
  shows "\<exists>ie' s'. load_segs ops elf segs root sis ie s = Some (Some ie', s')"
  using assms(3-)
proof (induction sis arbitrary: k ie s)
  case (Cons si sis)
  have "[k..<length segs] = si # sis" using Cons.prems(1) by simp
  then have k: "k < length segs" "si = k" "sis = [Suc k..<length segs]" by (auto simp: upt_eq_Cons_conv)
  let ?D = "\<Union>e\<in>set (take k segs). seg_pages e"
  have sg: "segs ! k \<in> set segs" using k(1) by simp
  obtain ps where ps: "page_walk (page_down (sg_vaddr (segs ! k))) (sg_vaddr (segs ! k) + sg_memsz (segs ! k)) = Some ps"
    "distinct ps" "set ps = seg_pages (segs ! k)" using seg_walk [OF bspec [OF segs(1) sg]] by metis
  have len: "length ps = card (seg_pages (segs ! k))" using distinct_card [OF ps(2)] ps(3) by simp
  have pp: "\<forall>pg\<in>set ps. covers (segs ! k) pg \<and> user_page pg" "\<forall>pg\<in>set ps. (\<exists>e\<in>set (take k segs). covers e pg) \<longrightarrow> pg \<in> ?D"
    using ps(3) segs(2) sg by (auto simp: seg_pages_def)
  have "4 * length ps \<le> free_count s" using Cons.prems(4) k(2) len by simp
  then obtain ie1 s1 where lp: "load_pages ops elf segs root k ps ie s = Some (Some ie1, s1)" and cnt: "free_count s \<le> free_count s1 + 4 * length ps"
    using load_pages_returns [OF segs(1) k(1) pp Cons.prems(2)] by blast
  have "loaded elf segs root (?D \<union> set ps) s1 \<and> end_of (?D \<union> set ps) ie1"
    by (rule load_pages_loaded [OF segs(1) k(1) pp Cons.prems(2,3) lp])
  moreover have "?D \<union> set ps = (\<Union>e\<in>set (take (Suc k) segs). seg_pages e)"
    using k(1) ps(3) by (auto simp: take_Suc_conv_app_nth)
  moreover have "4 * sum_list (map (\<lambda>i. card (seg_pages (segs ! i))) sis) \<le> free_count s1" using Cons.prems(4) k(2) len cnt by simp
  ultimately have "\<exists>ie' s'. load_segs ops elf segs root sis ie1 s1 = Some (Some ie', s')"
    using Cons.IH [of "Suc k" s1 ie1] k by auto
  then show ?case using ps(1) lp k(2) by (auto simp: Let_def)
qed simp

lemma empty_loaded: "inv root s \<Longrightarrow> \<forall>pg. user_page pg \<longrightarrow> view root s pg = None \<Longrightarrow> loaded elf segs root {} s"
  by (simp add: loaded_def)

lemma load_full_loaded:
  assumes fs: "frame_inv (ps_frames s)"
    and h: "elf_check elf (uo_machine ops) = Some (Some hdr)" "collect_segs elf hdr [0..<eh_phnum hdr] [] = Some (Some segs)"
    and low: "\<forall>e\<in>set segs. \<forall>pg\<in>seg_pages e. user_page pg"
  shows "load_full ops elf s = Some (Some (pc, root, ie), s') \<Longrightarrow>
      pc = eh_entry hdr \<and> loaded elf segs root (\<Union>e\<in>set segs. seg_pages e) s' \<and> end_of (\<Union>e\<in>set segs. seg_pages e) ie"
    and "4 * sum_list (map (\<lambda>e. card (seg_pages e)) segs) < free_count s \<Longrightarrow>
      \<exists>root ie s'. load_full ops elf s = Some (Some (eh_entry hdr, root, ie), s')"
proof -
  have segs: "\<forall>e\<in>set segs. seg_ok elf e" using collect_segs_ok [OF h(2)] by simp
  show "pc = eh_entry hdr \<and> loaded elf segs root (\<Union>e\<in>set segs. seg_pages e) s' \<and> end_of (\<Union>e\<in>set segs. seg_pages e) ie"
    if lf: "load_full ops elf s = Some (Some (pc, root, ie), s')"
  proof -
    obtain s1 where n: "uo_new_root ops s = Some (root, s1)" and l: "load_segs ops elf segs root [0..<length segs] 0 s1 = Some (Some ie, s')"
      and e: "pc = eh_entry hdr" using lf h by (auto simp: load_full_def bind_eq_Some_conv)
    have "loaded elf segs root {} s1" using new_root_empty [OF fs n] empty_loaded by blast
    then show ?thesis using load_segs_loaded [OF segs low refl _ _ l] end_of_empty e by simp
  qed
  show "\<exists>root ie s'. load_full ops elf s = Some (Some (eh_entry hdr, root, ie), s')"
    if free: "4 * sum_list (map (\<lambda>e. card (seg_pages e)) segs) < free_count s"
  proof -
    obtain root s1 where n: "uo_new_root ops s = Some (root, s1)" and cnt: "free_count s = free_count s1 + 1"
      using new_root_enough [OF fs] free by auto
    have l: "loaded elf segs root {} s1" using new_root_empty [OF fs n] empty_loaded by blast
    have "map (\<lambda>i. card (seg_pages (segs ! i))) [0..<length segs] = map (\<lambda>e. card (seg_pages e)) segs"
      by (rule nth_equalityI) simp_all
    then have "4 * sum_list (map (\<lambda>i. card (seg_pages (segs ! i))) [0..<length segs]) \<le> free_count s1" using free cnt by simp
    then have "\<exists>ie s'. load_segs ops elf segs root [0..<length segs] 0 s1 = Some (Some ie, s')"
      using load_segs_returns [OF segs low refl, where k = 0 and root = root and s = s1 and ie = 0] l end_of_empty by simp
    then show ?thesis using h n by (auto simp: load_full_def)
  qed
qed

end
section \<open>Loading on x86-64\<close>

definition x86_ops :: user_ops where
  "x86_ops = \<lparr>uo_machine = 0x3E, uo_new_root = new_user_pml4, uo_map = arch_user_map\<rparr>"

lemma map_page_bytes:
  assumes inv: "pt_inv root s" and pg: "user_va pg" and f: "f \<in> frame_held (ps_frames s)" "f \<notin> pt_frames root (ps_mem s)"
    and m: "map_page root pg f (prot_flags pr) s = Some s'"
    and q: "user_va q" "page_view root (ps_mem s') q = Some (g, r)" "page_down a = g"
  shows "ps_mem s' a = ps_mem s a"
proof -
  note M = map_page_ok [OF inv pg f prot_flags_ok m]
  obtain e where e: "pte (ps_mem s') root (va_path q) = Some e" "g = e AND ADDR_MASK" using q(2) by (auto simp: page_view_def)
  have "is_frame f" using pt_invD(3) [OF inv] f(1) by blast
  have "g \<in> frame_held (ps_frames s) - pt_tables root (ps_mem s)"
  proof (cases "va_path q = va_path pg")
    case True
    then have "g = f"
      using M(3) [OF va_path_user [OF q(1)]] e entry_parts(1) [OF \<open>is_frame f\<close> prot_flags_ok(1)] by auto
    then show ?thesis using f by (simp add: pt_frames_alt)
  next
    case False
    then show ?thesis using M(3) [OF va_path_user [OF q(1)]] e leaf_not_table [OF pt_invD(2) [OF inv] va_path_user [OF q(1)]] by simp
  qed
  then show ?thesis using M(2) q(3) by (simp add: pt_local_def)
qed

interpretation x86: user_space x86_ops pt_inv "\<lambda>root s. pt_frames root (ps_mem s)" "\<lambda>root s. page_view root (ps_mem s)"
  prot_flags "\<lambda>pg. user_va pg \<and> page_aligned pg"
proof (unfold_locales, goal_cases)
  case (1 root s)
  then show ?case by (rule pt_invD(1))
next
  case (2 root s)
  then show ?case by (rule pt_frames_held [OF pt_invD(2)])
next
  case (3 s root s')
  then have n: "new_user_pml4 s = Some (root, s')" by (simp add: x86_ops_def)
  note N = new_user_pml4_ok [OF 3(1) n]
  have "page_view root (ps_mem s') pg = None" if "user_va pg" for pg
    using N(4) [OF va_path_user(1) [OF that]] pte_walk [OF va_path_user(2) [OF that], of "ps_mem s'" root]
    by (simp add: page_view_def va_path_def)
  with N(1) show ?case by blast
next
  case (4 root s pg f pr s')
  then have m: "map_page root pg f (prot_flags pr) s = Some s'" by (simp add: x86_ops_def arch_user_map_def)
  have op: "op_ok root (PtMap pg f pr) s" "pt_exec root (PtMap pg f pr) s = Some s'" using 4 m by (simp_all add: arch_user_map_def)
  have v: "page_view root (ps_mem s') q = (if q = pg then Some (f, prot_flags pr) else page_view root (ps_mem s) q)"
    if "user_va q \<and> page_aligned q" for q
    using conjunct2 [OF pt_exec_ok [OF 4(1) op], THEN fun_cong, of q] that 4(2) by (simp add: space_abs_def page_aligned_down)
  show ?case using pt_exec_ok [OF 4(1) op] v map_page_bytes [OF 4(1) _ 4(3,4) m] 4(2) by blast
next
  case (5 root s q g r)
  then show ?case using page_view_frame by blast
next
  case (6 root s s')
  have h: "pt_frames root (ps_mem s) \<subseteq> frame_held (ps_frames s)" by (rule pt_frames_held [OF pt_invD(2) [OF 6(1)]])
  then have "pt_frames root (ps_mem s) \<subseteq> frame_held (ps_frames s')" "\<forall>a. page_down a \<in> pt_frames root (ps_mem s) \<longrightarrow> ps_mem s' a = ps_mem s a"
    using 6(3,4) by blast+
  note o = other_space [OF 6(1,2) this]
  have "page_view root (ps_mem s') q = page_view root (ps_mem s) q" if "user_va q" for q
    using o(3) [OF va_path_user [OF that]] by (simp add: page_view_def)
  with o(1,4) show ?case by blast
next
  case (7 root s pg f pr)
  then show ?case using map_page_count [OF pt_invD(1)] by (simp add: x86_ops_def arch_user_map_def)
next
  case (8 s)
  then have "0 < free_count s" by simp
  then obtain f fs where "frame_alloc (ps_frames s) = (Some f, fs)" "card (free_set (ps_frames s)) = card (free_set fs) + 1"
    by (rule alloc_count [OF 8(1)])
  then show ?case by (simp add: x86_ops_def new_user_pml4_def Let_def del: upt_rec_numeral)
next
  case (9 pg)
  then show ?case by blast
qed
subsection \<open>Properties\<close>

text \<open>C18. Whatever the bytes of an image, parsing it never reads out of range, and what it accepts is well formed: the
  program-header table lies inside the image, the entry point is below the kernel's base, and there are
  at most sixteen segments, each with its file bytes inside the image and its memory below the
  kernel's base.\<close>

theorem elf_parsed_well_formed:
  "\<exists>ho. elf_check elf machine = Some ho \<and> (\<forall>hdr. ho = Some hdr \<longrightarrow> header_ok elf hdr
     \<and> (\<exists>so. collect_segs elf hdr [0..<eh_phnum hdr] [] = Some so
          \<and> (\<forall>segs. so = Some segs \<longrightarrow> length segs \<le> 16 \<and> (\<forall>e\<in>set segs. seg_ok elf e))))"
proof -
  obtain ho where ho: "elf_check elf machine = Some ho" using elf_check_total [of elf machine] by blast
  have "header_ok elf hdr" if "ho = Some hdr" for hdr using elf_check_ok [of elf machine hdr] ho that by simp
  moreover have "\<exists>so. collect_segs elf hdr [0..<eh_phnum hdr] [] = Some so" if "header_ok elf hdr" for hdr
    using collect_segs_total [OF that, of "[0..<eh_phnum hdr]" "[]"] by auto
  ultimately show ?thesis using ho collect_segs_ok [where elf = elf and segs = "[]"] by fastforce
qed

text \<open>An image with one segment of four bytes, mapped at \<open>0x400000\<close> with eight bytes of memory.\<close>

definition demo_header :: "u8 list" where
  "demo_header = [0x7F, 0x45, 0x4C, 0x46, 2, 1, 1, 0] @ replicate 8 0 @ [2, 0, 0x3E, 0, 1, 0, 0, 0]
     @ to_le64 0x400000 @ to_le64 64 @ to_le64 0 @ [0, 0, 0, 0, 64, 0, 56, 0, 1, 0] @ replicate 6 0"

definition demo_phdr :: "u64 \<Rightarrow> u8 list" where
  "demo_phdr va = [1, 0, 0, 0, 5, 0, 0, 0] @ to_le64 120 @ to_le64 va @ to_le64 va @ to_le64 4 @ to_le64 8 @ to_le64 0x1000"

definition demo_elf :: "u64 \<Rightarrow> u8 list" where
  "demo_elf va = demo_header @ demo_phdr va @ [0x90, 0x91, 0xEB, 0xFE]"

definition demo_seg :: "u64 \<Rightarrow> elf_seg" where
  "demo_seg va = \<lparr>sg_vaddr = va, sg_offset = 120, sg_filesz = 4, sg_memsz = 8, sg_prot = Rx\<rparr>"

definition demo_hdr :: elf_header where
  "demo_hdr = \<lparr>eh_class32 = False, eh_entry = 0x400000, eh_phoff = 64, eh_phentsize = 56, eh_phnum = 1\<rparr>"

lemma demo_header_bytes:
  "demo_header = [0x7F, 0x45, 0x4C, 0x46, 2, 1, 1, 0, 0, 0, 0, 0, 0, 0, 0, 0, 2, 0, 0x3E, 0, 1, 0, 0, 0,
     0, 0, 0x40, 0, 0, 0, 0, 0, 64, 0, 0, 0, 0, 0, 0, 0, 0, 0, 0, 0, 0, 0, 0, 0, 0, 0, 0, 0, 64, 0, 56, 0, 1, 0, 0, 0, 0, 0, 0, 0]"
  by code_simp

lemma demo_phdr_length: "length (demo_phdr va) = 56"
  by (simp add: demo_phdr_def)

lemma demo_elf_check: "elf_check (demo_elf va) 0x3E = Some (Some demo_hdr)"
proof -
  have i: "elf_ident (demo_elf va) 0x3E = Some True"
    by (simp add: elf_ident_def elf_defs ELF_MAGIC_def demo_elf_def demo_header_bytes demo_phdr_length byte_at_def u16_at_def le16_def)
  have p: "parse_header (demo_elf va) 0x3E = Some (Some demo_hdr)"
    by (simp add: parse_header_def elf_defs demo_elf_def demo_header_bytes demo_phdr_length byte_at_def u16_at_def u64_at_def le16_def le64_def demo_hdr_def)
  have "elf_table_ok (demo_elf va) demo_hdr"
    by (simp add: elf_table_ok_def demo_hdr_def elf_defs checked_mul_def checked_add_def demo_elf_def demo_header_bytes demo_phdr_length PHYS_OFFSET_def)
  with i p show ?thesis by (simp add: elf_check_def)
qed

lemma demo_elf_segs:
  assumes "unat va + 8 \<le> unat PHYS_OFFSET"
  shows "collect_segs (demo_elf va) demo_hdr [0..<eh_phnum demo_hdr] [] = Some (Some [demo_seg va])"
proof -
  have l: "length (demo_elf va) = 124" "length demo_header = 64" by (simp_all add: demo_elf_def demo_header_bytes demo_phdr_length)
  have d: "take 56 (drop 64 (demo_elf va)) = demo_phdr va" by (simp add: demo_elf_def l(2) demo_phdr_length)
  have p: "parse_phdr (demo_phdr va) False = Some \<lparr>p_type = 1, p_flags = 5, p_offset = 120, p_vaddr = va, p_filesz = 4, p_memsz = 8\<rparr>"
    by (simp add: parse_phdr_def u32_at_def u64_at_def demo_phdr_length) (simp add: demo_phdr_def le32_def)
  have c: "checked_add va 8 = Some (va + 8)" "\<not> PHYS_OFFSET < va + 8"
    using assms by (simp_all add: checked_add_def phys_offset_unat word_less_nat_alt unat_word_ariths)
  have "add_segment (demo_elf va) \<lparr>p_type = 1, p_flags = 5, p_offset = 120, p_vaddr = va, p_filesz = 4, p_memsz = 8\<rparr> [] = Some [demo_seg va]"
    using c by (simp add: add_segment_def elf_defs l checked_add_def demo_seg_def seg_prot_def)
  then show ?thesis using d p by (simp add: demo_hdr_def l Let_def)
qed

lemma demo_seg_pages:
  assumes "page_aligned va" "unat va + 8 \<le> unat PHYS_OFFSET"
  shows "seg_pages (demo_seg va) = {va}"
proof -
  have u: "unat (va + 8) = unat va + 8" using assms(2) by (simp add: phys_offset_unat unat_word_ariths)
  have ok: "seg_ok (demo_elf va) (demo_seg va)" using assms(2) by (simp add: seg_ok_def demo_seg_def demo_elf_def demo_header_bytes demo_phdr_length)
  have "va = pg" if "page_aligned pg" "va \<le> pg" "pg < va + 8" for pg
  proof (rule ccontr)
    assume "va \<noteq> pg"
    then have "unat va + 4096 \<le> unat pg" using page_aligned_less(2) [OF assms(1) that(1)] that(2) by simp
    then show False using that(3) u by (simp add: word_less_nat_alt)
  qed
  moreover have "va < va + 8" using u by (simp add: word_less_nat_alt)
  ultimately show ?thesis
    using covers_walk [OF ok] assms(1) by (auto simp: seg_pages_def demo_seg_def page_aligned_down)
qed

theorem elf_parsed_well_formed_witness:
  "elf_check (demo_elf 0x400000) 0x3E = Some (Some demo_hdr) \<and> header_ok (demo_elf 0x400000) demo_hdr
   \<and> seg_ok (demo_elf 0x400000) (demo_seg 0x400000)"
proof -
  have "collect_segs (demo_elf 0x400000) demo_hdr [0..<eh_phnum demo_hdr] [] = Some (Some [demo_seg 0x400000])"
    by (rule demo_elf_segs) (simp add: phys_offset_unat)
  then show ?thesis using elf_parsed_well_formed [of "demo_elf 0x400000" "0x3E"] demo_elf_check [of "0x400000"] by auto
qed

text \<open>C4. A loaded image is in memory as its segments say: with every segment below the canonical hole, the pages the
  new address space maps are those the segments cover, each byte is the one the last segment with file
  bytes there gives (zero otherwise), each page has the union of the rights of the segments that cover
  it, and \<open>image_end\<close> is the first address after the highest page. Four frames for every page and one for the
  root are enough for the load to succeed.\<close>

theorem elf_load_image:
  assumes "frame_inv (ps_frames s)"
    and "elf_check elf (uo_machine x86_ops) = Some (Some hdr)" "collect_segs elf hdr [0..<eh_phnum hdr] [] = Some (Some segs)"
    and low: "\<forall>e\<in>set segs. unat (sg_vaddr e) + unat (sg_memsz e) \<le> 2 ^ 47"
  shows "(\<forall>pc root ie s'. load_full x86_ops elf s = Some (Some (pc, root, ie), s') \<longrightarrow>
       pc = eh_entry hdr \<and> pt_inv root s' \<and> end_of (\<Union>e\<in>set segs. seg_pages e) ie
     \<and> (\<forall>va. user_va va \<longrightarrow>
          (if \<exists>e\<in>set segs. covers e (page_down va)
           then user_byte root (ps_mem s') va = Some (image_byte elf segs va 0)
              \<and> map_option snd (page_view root (ps_mem s') va) = Some (prot_flags (page_prot segs (page_down va)))
           else page_view root (ps_mem s') va = None)))
    \<and> (4 * sum_list (map (\<lambda>e. card (seg_pages e)) segs) < card (free_set (ps_frames s)) \<longrightarrow>
        (\<exists>root ie s'. load_full x86_ops elf s = Some (Some (eh_entry hdr, root, ie), s')))"
proof -
  have segs: "\<forall>e\<in>set segs. seg_ok elf e" using collect_segs_ok [OF assms(3)] by simp
  have up: "\<forall>e\<in>set segs. \<forall>pg\<in>seg_pages e. user_va pg \<and> page_aligned pg"
  proof (intro ballI)
    fix e pg assume "e \<in> set segs" "pg \<in> seg_pages e"
    then show "user_va pg \<and> page_aligned pg"
      using low segs seg_end(1) [of elf e] by (fastforce simp: seg_pages_def user_va_def covers_def word_less_nat_alt)
  qed
  note L = x86.load_full_loaded [OF assms(1-3) up]
  have view: "if \<exists>e\<in>set segs. covers e (page_down va)
       then user_byte root (ps_mem s') va = Some (image_byte elf segs va 0)
          \<and> map_option snd (page_view root (ps_mem s') va) = Some (prot_flags (page_prot segs (page_down va)))
       else page_view root (ps_mem s') va = None"
    if l: "x86.loaded elf segs root (\<Union>e\<in>set segs. seg_pages e) s'" and va: "user_va va" for root s' va
  proof -
    have pd: "user_va (page_down va) \<and> page_aligned (page_down va)" using va by simp
    have pv: "page_view root (ps_mem s') va = page_view root (ps_mem s') (page_down va)"
      by (simp add: page_view_def va_path_page_down [OF va])
    have off: "page_down va + of_nat (unat va mod 4096) = va"
      using unsigned_less [of va, where 'a = nat] by (simp add: word_unat_eq_iff unat_word_ariths unat_page_down unat_of_nat)
    show ?thesis
    proof (cases "\<exists>e\<in>set segs. covers e (page_down va)")
      case True
      then have "page_down va \<in> (\<Union>e\<in>set segs. seg_pages e)" by (auto simp: seg_pages_def)
      then obtain f where f: "page_view root (ps_mem s') (page_down va) = Some (f, prot_flags (page_prot segs (page_down va)))"
        "\<forall>j<4096. ps_mem s' (f + of_nat j) = image_byte elf segs (page_down va + of_nat j) 0"
        using x86.loadedD(1) [OF l pd] by blast
      have "ps_mem s' (f + of_nat (unat va mod 4096)) = image_byte elf segs va 0"
        using spec [OF f(2), of "unat va mod 4096"] off by simp
      with True f(1) pv show ?thesis by (simp add: user_byte_def)
    next
      case False
      then show ?thesis using x86.loadedD(2) [OF l pd] pv by (auto simp: seg_pages_def)
    qed
  qed
  show ?thesis using L view by (auto simp: x86.loaded_def)
qed

theorem elf_load_image_witness:
  "\<exists>root ie s'. load_full x86_ops (demo_elf 0x400000) demo_ps = Some (Some (0x400000, root, ie), s')
     \<and> user_byte root (ps_mem s') 0x400001 = Some 0x91 \<and> user_byte root (ps_mem s') 0x400007 = Some 0"
proof -
  let ?segs = "[demo_seg 0x400000]"
  have fs: "frame_inv (ps_frames demo_ps)" by (simp add: demo_ps_def demo_frames_inv)
  have c: "elf_check (demo_elf 0x400000) (uo_machine x86_ops) = Some (Some demo_hdr)" using demo_elf_check by (simp add: x86_ops_def)
  have s: "collect_segs (demo_elf 0x400000) demo_hdr [0..<eh_phnum demo_hdr] [] = Some (Some ?segs)"
    by (rule demo_elf_segs) (simp add: phys_offset_unat)
  have low: "\<forall>e\<in>set ?segs. unat (sg_vaddr e) + unat (sg_memsz e) \<le> 2 ^ 47" by (simp add: demo_seg_def)
  have pages: "seg_pages (demo_seg 0x400000) = {0x400000}"
    by (rule demo_seg_pages) (simp_all add: page_aligned_def phys_offset_unat)
  have free: "4 * sum_list (map (\<lambda>e. card (seg_pages e)) ?segs) < card (free_set (ps_frames demo_ps))"
    by (simp add: pages demo_ps_def demo_frames_sets)
  have v: "user_va 0x400001" "user_va 0x400007" by (simp_all add: user_va_def)
  have d: "page_down 0x400001 = 0x400000" "page_down 0x400007 = 0x400000" by (simp_all add: page_down_def)
  have cov: "covers (demo_seg 0x400000) 0x400000" by (simp add: covers_def demo_seg_def)
  have b: "image_byte (demo_elf 0x400000) ?segs 0x400001 0 = 0x91" "image_byte (demo_elf 0x400000) ?segs 0x400007 0 = 0"
    by (simp_all add: demo_seg_def demo_elf_def demo_header_bytes demo_phdr_length nth_append)
  note T = elf_load_image [OF fs c s low]
  obtain root ie s' where l: "load_full x86_ops (demo_elf 0x400000) demo_ps = Some (Some (eh_entry demo_hdr, root, ie), s')"
    using T free by blast
  note X = mp [OF spec [OF spec [OF spec [OF spec [OF conjunct1 [OF T], of "eh_entry demo_hdr"], of root], of ie], of s'] l]
  note Y = conjunct2 [OF conjunct2 [OF conjunct2 [OF X]]]
  have "user_byte root (ps_mem s') 0x400001 = Some 0x91"
    using mp [OF spec [OF Y, of "0x400001"] v(1)] cov unfolding d b by (simp split: if_splits)
  moreover have "user_byte root (ps_mem s') 0x400007 = Some 0"
    using mp [OF spec [OF Y, of "0x400007"] v(2)] cov unfolding d b by (simp split: if_splits)
  moreover have "eh_entry demo_hdr = 0x400000" by (simp add: demo_hdr_def)
  ultimately show ?thesis using l by metis
qed
subsection \<open>Addresses above the canonical hole\<close>

text \<open>The loader's bound on segments is the kernel's base, but a root has no entries of its own from
  \<open>2 ^ 47\<close> up: such an address selects entry 256, the shared window of the kernel.\<close>

abbreviation window_va :: u64 where
  "window_va \<equiv> 0x800000000000"

lemma window_index:
  "table_index 39 window_va = 256" "table_index 30 window_va = 0" "table_index 21 window_va = 0" "table_index 12 window_va = 0"
  by (simp_all add: table_index_nat)

lemma next_level_present:
  "entry (ps_mem s) t i AND P_PRESENT \<noteq> 0 \<Longrightarrow> next_level (entry_ptr t i) s = Some (entry (ps_mem s) t i AND ADDR_MASK, s)"
  by (simp add: next_level_def entry_def)

lemma window_map:
  assumes "walk (ps_mem s) root [256, 0, 0] = Some t"
  shows "map_page root window_va f fl s = Some (s\<lparr>ps_mem := store64 t (f OR fl) (ps_mem s)\<rparr>)"
proof -
  let ?m = "ps_mem s"
  define t3 where "t3 = entry ?m root 256 AND ADDR_MASK"
  define t2 where "t2 = entry ?m t3 0 AND ADDR_MASK"
  have "entry ?m root 256 AND P_PRESENT \<noteq> 0" "entry ?m t3 0 AND P_PRESENT \<noteq> 0" "entry ?m t2 0 AND P_PRESENT \<noteq> 0"
    "t = entry ?m t2 0 AND ADDR_MASK"
    using assms by (auto simp: t3_def t2_def split: if_splits)
  then have n: "next_level (entry_ptr root 256) s = Some (t3, s)" "next_level (entry_ptr t3 0) s = Some (t2, s)"
    "next_level (entry_ptr t2 0) s = Some (t, s)" by (simp_all add: next_level_present t3_def t2_def)
  show ?thesis unfolding map_page_def window_index n Option.bind.simps prod.case by (simp add: entry_ptr_def)
qed

lemma window_walk_cong:
  assumes "walk m root [256] = Some k3" "walk m root [256, 0] = Some k2" "is_frame root" "is_frame k3" "is_frame k2"
    and "\<And>a. page_down a \<in> {root, k3, k2} \<Longrightarrow> m' a = m a"
  shows "walk m' root [256, 0, 0] = walk m root [256, 0, 0]"
proof -
  have "entry m' x i = entry m x i" if "x \<in> {root, k3, k2}" "i < 512" for x i
    using that assms(3-) by (intro entry_cong_page) auto
  then show ?thesis using assms(1,2) by (auto split: if_splits)
qed

lemma new_root_window:
  assumes n: "new_user_pml4 s = Some (root, s1)" and inv: "frame_inv (ps_frames s)"
    and K: "ps_kernel s \<in> frame_held (ps_frames s)" "k3 \<in> frame_held (ps_frames s)" "k2 \<in> frame_held (ps_frames s)"
    and w: "walk (ps_mem s) (ps_kernel s) [256] = Some k3" "walk (ps_mem s) (ps_kernel s) [256, 0] = Some k2"
      "walk (ps_mem s) (ps_kernel s) [256, 0, 0] = Some t"
  shows "walk (ps_mem s1) root [256] = Some k3" "walk (ps_mem s1) root [256, 0] = Some k2" "walk (ps_mem s1) root [256, 0, 0] = Some t"
proof -
  note N = new_user_pml4_ok [OF inv n]
  have e: "entry (ps_mem s1) root 256 = entry (ps_mem s) (ps_kernel s) 256" by (rule N(7) [OF K(1)])
  have "entry (ps_mem s1) x 0 = entry (ps_mem s) x 0" if "x \<in> frame_held (ps_frames s)" for x
    using that N(2) held_frame [OF inv that] by (intro entry_cong_page) (auto intro!: N(5))
  then show "walk (ps_mem s1) root [256] = Some k3" "walk (ps_mem s1) root [256, 0] = Some k2" "walk (ps_mem s1) root [256, 0, 0] = Some t"
    using w K(2,3) e by (auto split: if_splits)
qed

text \<open>C40. A defect: an image with a segment at \<open>0x800000000000\<close> passes every check of the loader, and loading it writes a page-table
  entry into the memory the kernel's window has at that place. On the boot map that is physical
  memory the allocator never handed out, through a large page taken for a table.\<close>

theorem elf_writes_kernel_window:
  assumes inv: "frame_inv (ps_frames s)" and free: "2 \<le> card (free_set (ps_frames s))"
    and K: "ps_kernel s \<in> frame_held (ps_frames s)" "k3 \<in> frame_held (ps_frames s)" "k2 \<in> frame_held (ps_frames s)"
    and w: "walk (ps_mem s) (ps_kernel s) [256] = Some k3" "walk (ps_mem s) (ps_kernel s) [256, 0] = Some k2"
      "walk (ps_mem s) (ps_kernel s) [256, 0, 0] = Some t"
  shows "\<exists>root ie s' f. load_full x86_ops (demo_elf window_va) s = Some (Some (0x400000, root, ie), s')
    \<and> f \<notin> frame_held (ps_frames s) \<and> load64 t (ps_mem s') = f OR prot_flags Rx"
proof -
  let ?sg = "demo_seg window_va" and ?elf = "demo_elf window_va"
  have b: "unat window_va + 8 \<le> unat PHYS_OFFSET" "page_aligned window_va" "unat window_va + 4096 < 2 ^ 64"
    by (simp_all add: phys_offset_unat page_aligned_def)
  have c: "elf_check ?elf (uo_machine x86_ops) = Some (Some demo_hdr)" using demo_elf_check by (simp add: x86_ops_def)
  note sg = demo_elf_segs [OF b(1)]
  have ok: "\<forall>e\<in>set [?sg]. seg_ok ?elf e" using collect_segs_ok [OF sg] by simp
  obtain root s1 where n: "new_user_pml4 s = Some (root, s1)" and cnt: "free_count s = free_count s1 + 1"
    using x86.new_root_enough [OF inv] free by (auto simp: x86_ops_def)
  note N = new_user_pml4_ok [OF inv n] and W = new_root_window [OF n inv K w]
  have i1: "frame_inv (ps_frames s1)" by (rule pt_invD(1) [OF N(1)])
  have "0 < free_count s1" using free cnt by simp
  then obtain f fs where al: "frame_alloc (ps_frames s1) = (Some f, fs)" using alloc_count [OF i1] by metis
  have f: "f \<notin> frame_held (ps_frames s1)" "is_frame f"
    using fa.alloc_fresh [OF i1 al] held_frame [OF fa.alloc_inv [OF i1]] al by auto
  obtain m where m: "fill_page ?elf window_va f [?sg] (zero_page f (ps_mem s1)) = (True, m)"
    "\<forall>a. page_down a \<noteq> f \<longrightarrow> m a = zero_page f (ps_mem s1) a"
    using fill_page_ok [OF ok f(2) b(2,3)] by blast
  have out: "m a = ps_mem s1 a" if "page_down a \<in> {root, k3, k2}" for a
  proof -
    have "page_down a \<noteq> f" using that f(1) N(3) K by auto
    then show ?thesis using m(2) zero_outside [OF f(2)] by simp
  qed
  let ?s2 = "s1\<lparr>ps_frames := fs, ps_mem := m\<rparr>"
  have fr: "is_frame root" "is_frame k3" "is_frame k2" using held_frame [OF i1] N(3) K by auto
  have "walk (ps_mem ?s2) root [256, 0, 0] = Some t"
    using window_walk_cong [OF W(1,2) fr out] W(3) by simp
  note mp = window_map [OF this, of f "prot_flags Rx"]
  have "covers ?sg window_va" by (simp add: covers_def demo_seg_def)
  then have pr: "merged_prot [?sg] window_va (sg_prot ?sg) = Rx"
    by (simp add: merged_prot_def demo_seg_def prot_union_def prot_write_def prot_exec_def)
  have lp: "load_page x86_ops ?elf [?sg] root (sg_prot ?sg) window_va s1 = Some (True, ?s2\<lparr>ps_mem := store64 t (f OR prot_flags Rx) m\<rparr>)"
    using mp by (simp only: load_page_def al m(1) pr prod.case option.case if_True) (simp add: x86_ops_def arch_user_map_def)
  obtain ps where ps: "page_walk (page_down (sg_vaddr ?sg)) (sg_vaddr ?sg + sg_memsz ?sg) = Some ps" "distinct ps" "set ps = seg_pages ?sg"
    using seg_walk [of ?elf ?sg] ok by auto
  have "ps = [window_va]"
    using ps(2,3) demo_seg_pages [OF b(2,1)] by (cases ps) (auto simp: subset_singleton_iff)
  then have "\<exists>ie. load_segs x86_ops ?elf [?sg] root [0..<length [?sg]] 0 s1 = Some (Some ie, ?s2\<lparr>ps_mem := store64 t (f OR prot_flags Rx) m\<rparr>)"
    using ps(1) lp by simp
  then obtain ie where "load_full x86_ops ?elf s = Some (Some (0x400000, root, ie), ?s2\<lparr>ps_mem := store64 t (f OR prot_flags Rx) m\<rparr>)"
    using c sg n by (auto simp: load_full_def x86_ops_def demo_hdr_def simp del: collect_segs.simps)
  moreover have "f \<notin> frame_held (ps_frames s)" using f(1) N(3) by blast
  ultimately show ?thesis by (intro exI conjI) (assumption, assumption, simp)
qed
text \<open>A kernel window in the frames at \<open>0x8000\<close>, \<open>0x9000\<close> and \<open>0xA000\<close>, whose first entry is the large page at physical address 0.\<close>

definition demo_window :: pstate where
  "demo_window = \<lparr>ps_frames = \<lparr>bitmap = [0x0E, 0xF0], owned = [0, 0x07], free_frames = 7, next_frame = 0\<rparr>,
     ps_mem = store64 (entry_ptr 0xA000 0) 0x83 (store64 (entry_ptr 0x9000 0) 0xA003 (store64 (entry_ptr 0x8000 256) 0x9003 (\<lambda>_. 0))),
     ps_kernel = 0x8000\<rparr>"

lemma demo_window_sets:
  "free_set (ps_frames demo_window) = {1, 2, 3, 12, 13, 14, 15}" "owned_set (ps_frames demo_window) = {8, 9, 10}"
proof -
  have "filter (bm_test [0x0E, 0xF0]) [0..<16] = [1, 2, 3, 12, 13, 14, 15]" "filter (bm_test [0, 0x07]) [0..<16] = [8, 9, 10]"
    by code_simp+
  moreover have "free_set (ps_frames demo_window) = set (filter (bm_test [0x0E, 0xF0]) [0..<16])"
    "owned_set (ps_frames demo_window) = set (filter (bm_test [0, 0x07]) [0..<16])"
    by (auto simp: free_set_def owned_set_def total_bits_def demo_window_def)
  ultimately show "free_set (ps_frames demo_window) = {1, 2, 3, 12, 13, 14, 15}" "owned_set (ps_frames demo_window) = {8, 9, 10}"
    by simp_all
qed

lemma demo_window_walk:
  "walk (ps_mem demo_window) 0x8000 [256] = Some 0x9000" "walk (ps_mem demo_window) 0x8000 [256, 0] = Some 0xA000"
  "walk (ps_mem demo_window) 0x8000 [256, 0, 0] = Some 0"
proof -
  have f: "is_frame 0x8000" "is_frame 0x9000" "is_frame 0xA000" by (simp_all add: is_frame_def page_aligned_def)
  have "entry (ps_mem demo_window) 0x8000 256 = 0x9003" "entry (ps_mem demo_window) 0x9000 0 = 0xA003" "entry (ps_mem demo_window) 0xA000 0 = 0x83"
    by (simp_all add: demo_window_def entry_store f)
  then show "walk (ps_mem demo_window) 0x8000 [256] = Some 0x9000" "walk (ps_mem demo_window) 0x8000 [256, 0] = Some 0xA000"
    "walk (ps_mem demo_window) 0x8000 [256, 0, 0] = Some 0"
    by (simp_all add: P_PRESENT_def ADDR_MASK_def)
qed

theorem elf_writes_kernel_window_witness:
  "0 \<notin> frame_held (ps_frames demo_window)
   \<and> (\<exists>root ie s' f. load_full x86_ops (demo_elf 0x800000000000) demo_window = Some (Some (0x400000, root, ie), s')
        \<and> f \<notin> frame_held (ps_frames demo_window) \<and> load64 0 (ps_mem s') = f OR prot_flags Rx)"
proof
  have held: "frame_held (ps_frames demo_window) = {0x8000, 0x9000, 0xA000}"
    by (simp add: frame_held_def demo_window_sets FRAME_SIZE_def)
  then show "0 \<notin> frame_held (ps_frames demo_window)" by simp
  have inv: "frame_inv (ps_frames demo_window)"
    by (simp add: frame_inv_def demo_window_sets) (simp add: demo_window_def BITMAP_BYTES_def)
  have k: "ps_kernel demo_window = 0x8000" by (simp add: demo_window_def)
  show "\<exists>root ie s' f. load_full x86_ops (demo_elf 0x800000000000) demo_window = Some (Some (0x400000, root, ie), s')
        \<and> f \<notin> frame_held (ps_frames demo_window) \<and> load64 0 (ps_mem s') = f OR prot_flags Rx"
    by (rule elf_writes_kernel_window [OF inv]) (simp_all only: k held demo_window_walk, simp_all add: demo_window_sets)
qed

end
