(* ===== verification/Spec2Isabelle.thy ===== *)
theory Spec2Isabelle
  imports Prelude Abi Frame Input_Ring Gfx_Event Pipe Tmpfs Process User_Vm Vma Brk Posix Task Signal Lifecycle Sha256 Fat Fat_Write Fat_File Page_Table Address_Space Elf
begin

text \<open>
  A verification library for the Fantuan kernel, a rescue kernel with a small POSIX personality.  It models the
  architecture-independent core under \<^verbatim>\<open>src/kernel-core/src\<close>, the constants of \<^verbatim>\<open>src/abi\<close>, and the user page
  tables of the x86-64 kernel.  File names below are relative to \<^verbatim>\<open>src/kernel-core/src\<close> unless they start with
  \<^verbatim>\<open>src\<close>.

  \<^bold>\<open>The program and its parts.\<close>  At boot the kernel builds a frame allocator from the firmware's memory map.  User
  programs run as tasks: a task table with a round-robin scheduler, a process table beside it (identities, groups,
  signals, wait status), per-process memory areas and a program break, and a descriptor table over an in-memory file
  system, pipes, embedded read-only programs and the terminal.  System calls copy arguments from user memory and call
  these components; programs are ELF images loaded into page tables of their own; \<open>fork\<close>, \<open>execve\<close>, \<open>exit\<close> and \<open>wait4\<close> cut across all of them.  The rescue side reads and
  writes FAT32 volumes and verifies copies with SHA-256.

  \<^bold>\<open>How the code is rendered.\<close>
  \<^item> The kernels are release builds, so integers wrap: \<open>u8\<close> to \<open>u64\<close> are words, signed values are words read with
    \<^const>\<open>sint\<close>, \<open>usize\<close> table indices are \<^typ>\<open>nat\<close>.
  \<^item> Structs are records, enums datatypes, static tables lists, address spaces and disks functions.
  \<^item> \<open>Result<T, u64>\<close> is \<^typ>\<open>'a res\<close>; a panic or a loop that does not end is \<^const>\<open>None\<close>.
  \<^item> Operations are functions from state to result and new state.  Sections under a lock are single steps.
  \<^item> Blocking loops take the list of what other tasks do during each sleep, and give \<^const>\<open>None\<close> when still blocked
    after all of it: no fuel bounds the number of retries from above.
  \<^item> Loops over FAT chains and the padding loop of SHA-256 are partial functions; their termination is proved.
  \<^item> The rest of the architecture layer (context switch, kernel stacks), the registry of embedded programs, clocks and
    the block device are parameters: records of functions, arguments, or a log of calls.  \<open>Vma\<close>, \<open>Brk\<close> and
    \<open>Lifecycle\<close> take the page-table calls as such parameters too; \<open>Elf\<close> runs on the x86-64 ones.

  \<^bold>\<open>Theories.\<close>
  \<^item> \<open>Prelude\<close>: words, the table-search idiom, byte encodings, lemma collections.  \<open>Abi\<close>: constants of
    \<^verbatim>\<open>src/abi/src/lib.rs\<close>.
  \<^item> \<open>Frame\<close> (\<^verbatim>\<open>frame.rs\<close>): construction from the memory map, allocation, contiguous allocation, free, reclaim.
    Reserved memory is never handed out; allocation returns a free frame exactly when there is one; a double or foreign
    free changes nothing.  The locale \<open>frame_source\<close> is the contract the memory components rely on.
  \<^item> \<open>Ring_Buffer\<close>, \<open>Input_Ring\<close> (\<^verbatim>\<open>input_ring.rs\<close>), \<open>Gfx_Event\<close> (\<^verbatim>\<open>graphics/event.rs\<close>): bounded queues that drop
    the oldest entry, refined to the list of the last entries (locale \<open>bounded_queue\<close>).
  \<^item> \<open>Pipe\<close> (\<^verbatim>\<open>vfs/pipe.rs\<close>): byte channels; what is read is a prefix of what was written (locale \<open>byte_channels\<close>),
    when readers and writers block, and what closing an end does.
  \<^item> \<open>Tmpfs\<close> (\<^verbatim>\<open>vfs/tmpfs.rs\<close>, \<^verbatim>\<open>vfs/tmpfs_file.rs\<close>): node table and file pool; the tree invariant over all operations,
    create/lookup and write/read laws.
  \<^item> \<open>Process\<close> (\<^verbatim>\<open>process/*.rs\<close>): identities, groups, signal state, \<open>kill\<close>, \<open>exit\<close>, \<open>wait4\<close>.
  \<^item> \<open>User_Vm\<close> (\<^verbatim>\<open>user.rs\<close>), \<open>Vma\<close> (\<^verbatim>\<open>process/vma.rs\<close>), \<open>Brk\<close> (\<^verbatim>\<open>brk.rs\<close>): user memory, memory areas, program break.
  \<^item> \<open>Tty\<close> (\<^verbatim>\<open>tty.rs\<close>): the line discipline.
  \<^item> \<open>Fd\<close>, \<open>File_Io\<close>, \<open>Posix\<close> (\<^verbatim>\<open>vfs/fd.rs\<close>, \<^verbatim>\<open>vfs/io.rs\<close>, \<^verbatim>\<open>vfs/dir.rs\<close>, \<^verbatim>\<open>vfs/posix.rs\<close>, \<^verbatim>\<open>vfs/posix_path.rs\<close>):
    descriptors with exact reference counts, file operations, and the system calls over user memory.
  \<^item> \<open>Task\<close> (\<^verbatim>\<open>task.rs\<close>): the scheduler; fairness, that an unwaited zombie is kept, and that task and process tables
    agree over all reachable states.  \<open>Signal\<close> (\<^verbatim>\<open>signal.rs\<close>): handler entry and return as a round trip.
    \<open>Lifecycle\<close> (\<^verbatim>\<open>process/lifecycle.rs\<close>): \<open>fork\<close>, \<open>execve\<close> (all or nothing), \<open>nanosleep\<close>.
  \<^item> \<open>Page_Table\<close>, \<open>Address_Space\<close> (\<^verbatim>\<open>src/kernel/src/arch/x86_64/user.rs\<close>, and the calls of
    \<^verbatim>\<open>src/kernel/src/task/mod.rs\<close> that wrap it): four-level tables as 64-bit entries in byte-addressed physical
    memory.  The tables stay a tree of held, distinct frames (\<open>pt_inv\<close>); mapping, unmapping and re-protecting refine
    updates of a map from pages to frames and rights; fork copies every page; tear-down frees exactly the tree; other
    address spaces are never changed.
  \<^item> \<open>Elf\<close> (\<^verbatim>\<open>elf.rs\<close>): the loader over the table of page-table operations \<open>UserOps\<close>.  Its lemmas are proved in the
    locale \<open>user_space\<close>, interpreted as \<open>x86\<close> on the page tables above: parsing is total, and a loaded image has the
    bytes and rights its segments give.  One theorem shows a defect, a segment in the kernel's window.
  \<^item> \<open>Sha256\<close> (\<^verbatim>\<open>sha256.rs\<close>): streaming equals the FIPS 180-4 digest of the whole message.
  \<^item> \<open>Fat\<close>, \<open>Fat_Write\<close>, \<open>Fat_File\<close> (\<^verbatim>\<open>vfs/fat.rs\<close>, \<^verbatim>\<open>vfs/fat_write.rs\<close>, \<^verbatim>\<open>vfs/fat_dir.rs\<close>, \<^verbatim>\<open>vfs/name83.rs\<close>,
    \<^verbatim>\<open>vfs/repair.rs\<close>): the FAT32 driver; every call returns on every volume, and a file written can be found and read
    back with everything else untouched.

  \<^bold>\<open>Bounds.\<close>  The frame allocator takes the bitmap length as an argument, so that small instances can be evaluated; the
  kernel's is \<^const>\<open>frame_init\<close>.  The FAT round trip assumes a volume with one to four FAT copies, clusters of at most
  32 KiB and cluster numbers below the end-of-chain marks, which \<open>parse\<close> does not check.
  Three free frames are enough for one mapping, the size of the parent's tree for a fork, and four for every page of the
  segments and one more for a load.  The load theorem assumes segments below \<open>2 ^ 47\<close>, the end of the user half,
  which the loader does not check.

  \<^bold>\<open>Not modelled.\<close>  The machine layers of the four kernels, the boot loaders and the C drivers (boot-time tables, interrupt
  entry, devices, and the user page tables of the other three architectures): their effect on the core is what the
  parameters above stand for; the processor's translation caches are not represented.  The network port, whose stack is
  third-party code.  The kernel shell, diagnostics and boot repair, which format console text and call firmware
  services.  Read-only ext4 and NTFS, the device-tree parser, drawing into frame buffers with its
  dirty-rectangle list, the KMS object table, partition tables and the disk imager's copy passes.
  User space above the system-call interface, and the host-side tools.
\<close>

end
